(* ===== verification/Prelude.thy ===== *)
theory Prelude
  imports Complex_Main "HOL-Library.Multiset" "HOL-Library.Product_Lexorder"
begin

text \<open>
  What the components of GCOS share: the names of the model's basic types, Python
  exceptions as values, and the pieces of the Python language the sources use on lists
  (\<open>max\<close> and \<open>min\<close> with a key, negative slices, \<open>list.insert\<close>,
  \<open>list.index\<close>), with the generic lemmas the component proofs rest on.

  Conventions. A Python \<open>int\<close> is an \<^typ>\<open>int\<close>, a \<open>float\<close> an exact
  \<^typ>\<open>real\<close> (rounding is not modelled), a \<open>str\<close> a \<^typ>\<open>string\<close>,
  an \<open>Optional\<close> an \<^typ>\<open>'a option\<close>. An operation that may raise returns a sum
  with the exception on the left. Objects that the code shares by reference are named by
  their PID.
\<close>

section \<open>Types and exceptions\<close>

type_synonym pid = int

type_synonym time = real

text \<open>
  An exception carries the name of its class and its text. The sources distinguish
  \<open>TimeoutError\<close> (and its subclasses) from every other \<open>Exception\<close>, so the model has
  one constructor for each.
\<close>

datatype py_exc = TimeoutExc string string | OtherExc string string

fun exc_type :: "py_exc \<Rightarrow> string" where
  "exc_type (TimeoutExc c m) = c"
| "exc_type (OtherExc c m) = c"

fun exc_str :: "py_exc \<Rightarrow> string" where
  "exc_str (TimeoutExc c m) = m"
| "exc_str (OtherExc c m) = m"

text \<open>Evaluation of the arguments one after the other: the first exception leaves.\<close>

definition andthen :: "py_exc + 'a \<Rightarrow> ('a \<Rightarrow> py_exc + 'b) \<Rightarrow> py_exc + 'b" where
  "andthen r f = (case r of Inl e \<Rightarrow> Inl e | Inr x \<Rightarrow> f x)"

section \<open>Collections of facts\<close>

named_theorems pcb_simps
  \<open>what an operation leaves of the fields of a process control block\<close>

named_theorems world_simps
  \<open>what an operation leaves of the fields of the world record\<close>

named_theorems inv_intros
  \<open>an operation keeps an invariant of its component\<close>

section \<open>Python on lists\<close>

text \<open>\<open>max(xs, key=f)\<close> and \<open>min(xs, key=f)\<close>: the first extremal element.\<close>

fun max_key :: "('a \<Rightarrow> 'k::linorder) \<Rightarrow> 'a \<Rightarrow> 'a list \<Rightarrow> 'a" where
  "max_key f b [] = b"
| "max_key f b (x # xs) = max_key f (if f b < f x then x else b) xs"

fun min_key :: "('a \<Rightarrow> 'k::linorder) \<Rightarrow> 'a \<Rightarrow> 'a list \<Rightarrow> 'a" where
  "min_key f b [] = b"
| "min_key f b (x # xs) = min_key f (if f x < f b then x else b) xs"

text \<open>\<open>xs[i:]\<close>, where a negative \<open>i\<close> counts from the end.\<close>

definition slice_from :: "int \<Rightarrow> 'a list \<Rightarrow> 'a list" where
  "slice_from i xs =
     (if 0 \<le> i then drop (nat i) xs else drop (nat (int (length xs) + i)) xs)"

text \<open>\<open>xs[:n]\<close>, where a negative \<open>n\<close> counts from the end.\<close>

definition slice_to :: "int \<Rightarrow> 'a list \<Rightarrow> 'a list" where
  "slice_to n xs =
     (if 0 \<le> n then take (nat n) xs else take (nat (int (length xs) + n)) xs)"

text \<open>\<open>xs.index(x)\<close> (the length when \<open>x\<close> is absent) and \<open>xs.insert(i, x)\<close>.\<close>

fun index_of :: "'a \<Rightarrow> 'a list \<Rightarrow> nat" where
  "index_of x [] = 0"
| "index_of x (y # ys) = (if x = y then 0 else Suc (index_of x ys))"

definition list_insert :: "nat \<Rightarrow> 'a \<Rightarrow> 'a list \<Rightarrow> 'a list" where
  "list_insert i x xs = take i xs @ x # drop i xs"

text \<open>Removing every element of a batch, one \<open>xs.remove(p)\<close> at a time.\<close>

definition remove_all :: "'a list \<Rightarrow> 'a list \<Rightarrow> 'a list" where
  "remove_all ps xs = fold remove1 ps xs"

section \<open>Generic lemmas\<close>

lemma max_key_mem: "max_key f b xs \<in> set (b # xs)"
  by (induction f b xs rule: max_key.induct) auto

lemma max_key_ge_start: "f b \<le> f (max_key f b xs)"
proof (induction f b xs rule: max_key.induct)
  case (2 f b x xs)
  then show ?case by (auto split: if_splits intro: order.trans less_imp_le)
qed simp

lemma max_key_ge: "y \<in> set (b # xs) \<Longrightarrow> f y \<le> f (max_key f b xs)"
proof (induction f b xs rule: max_key.induct)
  case (2 f b x xs)
  have start: "f (if f b < f x then x else b) \<le> f (max_key f b (x # xs))"
    using max_key_ge_start [of f "if f b < f x then x else b" xs] by simp
  from 2 show ?case
    using start by (auto split: if_splits intro: order.trans)
qed simp

lemma min_key_mem: "min_key f b xs \<in> set (b # xs)"
  by (induction f b xs rule: min_key.induct) auto

lemma min_key_le_start: "f (min_key f b xs) \<le> f b"
proof (induction f b xs rule: min_key.induct)
  case (2 f b x xs)
  then show ?case by (auto split: if_splits intro: order.trans less_imp_le)
qed simp

lemma min_key_le: "y \<in> set (b # xs) \<Longrightarrow> f (min_key f b xs) \<le> f y"
proof (induction f b xs rule: min_key.induct)
  case (2 f b x xs)
  have start: "f (min_key f b (x # xs)) \<le> f (if f x < f b then x else b)"
    using min_key_le_start [of f "if f x < f b then x else b" xs] by simp
  from 2 show ?case
    using start by (auto split: if_splits intro: order.trans)
qed simp

lemma index_of_less [simp]: "index_of x xs < length xs \<longleftrightarrow> x \<in> set xs"
  by (induction xs) auto

lemma index_of_le: "index_of x xs \<le> length xs"
  by (induction xs) auto

lemma length_list_insert [simp]: "length (list_insert i x xs) = Suc (length xs)"
  by (simp add: list_insert_def)

lemma mset_list_insert [simp]: "mset (list_insert i x xs) = add_mset x (mset xs)"
proof -
  have "mset (list_insert i x xs) = add_mset x (mset (take i xs @ drop i xs))"
    unfolding list_insert_def mset_append by simp
  then show ?thesis by simp
qed

lemma set_list_insert [simp]: "set (list_insert i x xs) = insert x (set xs)"
  by (metis mset_list_insert set_mset_add_mset_insert set_mset_mset)

lemma filter_list_insert:
  "\<not> P x \<Longrightarrow> filter P (list_insert i x xs) = filter P xs"
proof -
  assume "\<not> P x"
  then have "filter P (list_insert i x xs) = filter P (take i xs @ drop i xs)"
    unfolding list_insert_def filter_append by simp
  then show ?thesis by simp
qed

lemma filter_remove1_neg: "\<not> P x \<Longrightarrow> filter P (remove1 x xs) = filter P xs"
  by (induction xs) auto

lemma mset_remove_all: "mset (remove_all ps xs) = mset xs - mset ps"
  unfolding remove_all_def
  by (induction ps arbitrary: xs) (simp_all add: diff_diff_add_mset [symmetric])

lemma length_remove_all:
  assumes "mset ps \<subseteq># mset xs"
  shows "length (remove_all ps xs) = length xs - length ps"
proof -
  have "size (mset (remove_all ps xs)) = size (mset xs) - size (mset ps)"
    using assms by (simp add: mset_remove_all size_Diff_submset)
  then show ?thesis by simp
qed

lemma set_remove_all: "set (remove_all ps xs) \<subseteq> set xs"
proof
  fix x
  assume "x \<in> set (remove_all ps xs)"
  then have "x \<in># mset (remove_all ps xs)"
    by simp
  then have "x \<in># mset xs"
    by (simp only: mset_remove_all) (rule in_diffD)
  then show "x \<in> set xs"
    by simp
qed

lemma filter_remove_all:
  "\<forall>p \<in> set ps. \<not> P p \<Longrightarrow> filter P (remove_all ps xs) = filter P xs"
  unfolding remove_all_def
  by (induction ps arbitrary: xs) (simp_all add: filter_remove1_neg)

lemma slice_to_mset: "mset (slice_to n xs) \<subseteq># mset xs"
proof -
  have "mset (take k xs) \<subseteq># mset xs" for k
    by (metis append_take_drop_id mset_append mset_subset_eq_add_left)
  then show ?thesis by (simp add: slice_to_def)
qed

lemma length_slice_to:
  "0 \<le> n \<Longrightarrow> n \<le> int (length xs) \<Longrightarrow> int (length (slice_to n xs)) = n"
  by (simp add: slice_to_def)

lemma sum_list_remove1_le:
  "\<forall>y \<in> set xs. (0::int) \<le> f y \<Longrightarrow> sum_list (map f (remove1 x xs)) \<le> sum_list (map f xs)"
  by (induction xs) auto

lemma length_filter_remove1:
  "x \<in> set xs \<Longrightarrow> P x \<Longrightarrow> Suc (length (filter P (remove1 x xs))) = length (filter P xs)"
  by (induction xs) auto

lemma length_remove1_mem: "x \<in> set xs \<Longrightarrow> length xs = Suc (length (remove1 x xs))"
  by (induction xs) auto

lemma slice_from_last: "slice_from (- int (Suc k)) xs = drop (length xs - Suc k) xs"
proof -
  have "nat (int (length xs) + - int (Suc k)) = length xs - Suc k" by linarith
  then show ?thesis unfolding slice_from_def by (simp del: of_nat_Suc)
qed

section \<open>Totals over the threads of a system\<close>

definition tally :: "('a \<Rightarrow> 'b::comm_monoid_add) \<Rightarrow> 'a list \<Rightarrow> 'b" where
  "tally f xs = sum_list (map f xs)"

lemma tally_update:
  "i < length xs \<Longrightarrow> tally f (xs[i := x]) + f (xs ! i) = tally f xs + f x"
proof (induction xs arbitrary: i)
  case (Cons a xs)
  then show ?case
    by (cases i) (auto simp: tally_def ac_simps)
qed simp

lemma tally_simps [simp]: "tally f [] = 0" "tally f (xs @ [x]) = tally f xs + f x"
  by (simp_all add: tally_def)

lemma tally_nonneg: "(\<And>x. (0::int) \<le> f x) \<Longrightarrow> 0 \<le> tally f xs"
  unfolding tally_def by (rule sum_list_nonneg) auto

lemma tally_member: "(\<And>x. (0::int) \<le> f x) \<Longrightarrow> i < length xs \<Longrightarrow> f (xs ! i) \<le> tally f xs"
proof (induction xs arbitrary: i)
  case (Cons a xs)
  show ?case
  proof (cases i)
    case 0
    with Cons.prems(1) tally_nonneg [of f xs] show ?thesis by (simp add: tally_def)
  next
    case (Suc j)
    with Cons.IH [of j] Cons.prems have "f (xs ! j) \<le> tally f xs" by simp
    with Suc Cons.prems(1) [of a] show ?thesis by (simp add: tally_def)
  qed
qed simp

lemma tally_count:
  assumes "\<And>x. f x = (if P x then (1::int) else 0)"
  shows "tally f xs = int (length (filter P xs))"
  by (induction xs) (auto simp: tally_def assms)

end
