(* ===== verification/Quota.thy ===== *)
theory Quota
  imports Prelude
begin

text \<open>
  The system-wide budget of LLM calls (\<open>gcos/kernel/quota.py\<close>). Every method runs under
  one lock, so a method is one step. \<open>acquire_blocking\<close> gives the lock up while it waits:
  it is given the states it sees when it holds the lock again.
\<close>

section \<open>The counter\<close>

record quota =
  q_total :: int
  q_remaining :: int

definition quota_init :: "int \<Rightarrow> py_exc + quota" where
  "quota_init tot =
     (if tot < 0 then Inl (OtherExc ''ValueError'' ''total must be >= 0'')
      else Inr \<lparr>q_total = tot, q_remaining = tot\<rparr>)"

definition acquire :: "int \<Rightarrow> quota \<Rightarrow> bool \<times> quota" where
  "acquire n q =
     (if q_remaining q < n then (False, q) else (True, q\<lparr>q_remaining := q_remaining q - n\<rparr>))"

definition acquire_up_to :: "int \<Rightarrow> quota \<Rightarrow> int \<times> quota" where
  "acquire_up_to n q =
     (let take_n = max 0 (min n (q_remaining q))
      in (take_n, q\<lparr>q_remaining := q_remaining q - take_n\<rparr>))"

text \<open>
  \<open>acquire_blocking(n)\<close>: \<open>seen\<close> are the states in which \<open>wait_for\<close> evaluates
  its predicate after the first, one for each wake-up before the deadline.
\<close>

fun acquire_blocking :: "int \<Rightarrow> quota \<Rightarrow> quota list \<Rightarrow> bool \<times> quota" where
  "acquire_blocking n q [] =
     (if n \<le> q_remaining q then (True, q\<lparr>q_remaining := q_remaining q - n\<rparr>) else (False, q))"
| "acquire_blocking n q (q' # seen) =
     (if n \<le> q_remaining q then (True, q\<lparr>q_remaining := q_remaining q - n\<rparr>)
      else acquire_blocking n q' seen)"

definition refund :: "int \<Rightarrow> quota \<Rightarrow> quota" where
  "refund n q = q\<lparr>q_remaining := min (q_total q) (q_remaining q + n)\<rparr>"

definition topup :: "int \<Rightarrow> quota \<Rightarrow> quota" where
  "topup n q = q\<lparr>q_total := q_total q + n, q_remaining := q_remaining q + n\<rparr>"

record quota_row =
  qr_remaining :: int
  qr_total :: int
  qr_used :: int

definition quota_snapshot :: "quota \<Rightarrow> quota_row" where
  "quota_snapshot q =
     \<lparr>qr_remaining = q_remaining q, qr_total = q_total q, qr_used = q_total q - q_remaining q\<rparr>"

section \<open>Invariant and histories\<close>

definition quota_inv :: "quota \<Rightarrow> bool" where
  "quota_inv q \<longleftrightarrow> 0 \<le> q_remaining q \<and> q_remaining q \<le> q_total q"

datatype quota_call = QAcquire int | QUpTo int | QRefund int | QTopup int

text \<open>
  A history of calls by any threads, with the ledger of units granted and not yet given
  back. \<open>None\<close>: an amount is negative, or more is refunded than is outstanding.
\<close>

fun quota_step :: "quota_call \<Rightarrow> quota \<times> int \<Rightarrow> (quota \<times> int) option" where
  "quota_step (QAcquire n) (q, out) =
     (if n < 0 then None
      else let (granted, q') = acquire n q in Some (q', if granted then out + n else out))"
| "quota_step (QUpTo n) (q, out) = (let (k, q') = acquire_up_to n q in Some (q', out + k))"
| "quota_step (QRefund n) (q, out) = (if n < 0 \<or> out < n then None else Some (refund n q, out - n))"
| "quota_step (QTopup n) (q, out) = (if n < 0 then None else Some (topup n q, out))"

fun quota_run :: "quota_call list \<Rightarrow> quota \<times> int \<Rightarrow> (quota \<times> int) option" where
  "quota_run [] s = Some s"
| "quota_run (c # cs) s = (case quota_step c s of None \<Rightarrow> None | Some s' \<Rightarrow> quota_run cs s')"

section \<open>The contract of a budget\<close>

text \<open>What the executors rely on: grants are all or nothing, and what is given back is credited.\<close>

locale call_budget =
  fixes ok :: "'s \<Rightarrow> bool"
    and left :: "'s \<Rightarrow> int"
    and ceiling_of :: "'s \<Rightarrow> int"
    and grant :: "int \<Rightarrow> 's \<Rightarrow> bool \<times> 's"
    and reserve :: "int \<Rightarrow> 's \<Rightarrow> int \<times> 's"
    and give_back :: "int \<Rightarrow> 's \<Rightarrow> 's"
  assumes left_bounds: "ok s \<Longrightarrow> 0 \<le> left s \<and> left s \<le> ceiling_of s"
    and grant_spec: "ok s \<Longrightarrow> 0 \<le> n \<Longrightarrow>
          (if n \<le> left s
           then \<exists>s'. grant n s = (True, s') \<and> ok s' \<and> left s' = left s - n \<and> ceiling_of s' = ceiling_of s
           else grant n s = (False, s))"
    and reserve_spec: "ok s \<Longrightarrow> 0 \<le> n \<Longrightarrow>
          \<exists>s'. reserve n s = (min n (left s), s') \<and> ok s'
             \<and> left s' = left s - min n (left s) \<and> ceiling_of s' = ceiling_of s"
    and give_back_spec: "ok s \<Longrightarrow> 0 \<le> n \<Longrightarrow>
          ok (give_back n s) \<and> left (give_back n s) = min (ceiling_of s) (left s + n)
          \<and> ceiling_of (give_back n s) = ceiling_of s"
begin

text \<open>A failed call that refunds what it acquired leaves the budget as it was.\<close>

lemma grant_give_back:
  assumes "ok s" and "0 \<le> n" and "grant n s = (True, s')"
  shows "left (give_back n s') = left s"
proof -
  from assms grant_spec [of s n] have n: "n \<le> left s"
    by (auto split: if_splits)
  with assms grant_spec [of s n] have "ok s'" "left s' = left s - n" "ceiling_of s' = ceiling_of s"
    by auto
  then show ?thesis
    using give_back_spec [of s' n] left_bounds [OF assms(1)] assms(2) by simp
qed

text \<open>
  Reserve a budget, spend part of it, give the rest back: the budget is charged exactly what
  was spent, and no more can be spent than was reserved.
\<close>

lemma reserve_then_refund:
  assumes "ok s" and "0 \<le> n" and "reserve n s = (k, s')" and "0 \<le> used" and "used \<le> k"
  shows "k \<le> n \<and> k \<le> left s \<and> left (give_back (k - used) s') = left s - used"
proof -
  from reserve_spec [OF assms(1,2)] assms(3)
  have k: "k = min n (left s)" and s': "ok s'" "left s' = left s - k" "ceiling_of s' = ceiling_of s"
    by auto
  have "left (give_back (k - used) s') = min (ceiling_of s) (left s - used)"
    using give_back_spec [OF s'(1), of "k - used"] assms(5) s' by simp
  also have "\<dots> = left s - used"
    using left_bounds [OF assms(1)] assms(4) by simp
  finally show ?thesis using k by simp
qed

end

section \<open>Lemmas\<close>

lemma acquire_blocking_ok:
  "acquire_blocking n q seen = (True, q') \<Longrightarrow>
     \<exists>w \<in> set (q # seen). n \<le> q_remaining w \<and> q' = w\<lparr>q_remaining := q_remaining w - n\<rparr>"
  by (induction n q seen rule: acquire_blocking.induct) (auto split: if_splits)

interpretation qb: call_budget quota_inv q_remaining q_total acquire acquire_up_to refund
  by unfold_locales
     (auto simp: quota_inv_def acquire_def acquire_up_to_def refund_def Let_def min_def max_def)

definition ledger_ok :: "quota \<times> int \<Rightarrow> bool" where
  "ledger_ok s \<longleftrightarrow> quota_inv (fst s) \<and> q_remaining (fst s) = q_total (fst s) - snd s"

lemma ledger_step: "quota_step c s = Some s' \<Longrightarrow> ledger_ok s \<Longrightarrow> ledger_ok s'"
  by (cases c; cases s)
     (auto simp: ledger_ok_def quota_inv_def acquire_def acquire_up_to_def refund_def topup_def
        Let_def max_def min_def split: if_splits)

lemma ledger_run: "quota_run cs s = Some s' \<Longrightarrow> ledger_ok s \<Longrightarrow> ledger_ok s'"
  by (induction cs arbitrary: s) (auto intro: ledger_step split: option.splits)

section \<open>Properties\<close>

text \<open>
  C28. The quota never over-grants. In every interleaving of calls with non-negative amounts
  in which refunds only return what was granted, the units outstanding plus the units
  remaining are the ceiling (a refund is credited in full, the cap never cuts it), the
  remainder stays between zero and the ceiling, and so the outstanding units never exceed it.
\<close>

theorem quota_never_overgrants:
  assumes "quota_init tot = Inr q" and "quota_run cs (q, 0) = Some (q', out)"
  shows "q_remaining q' + out = q_total q' \<and> 0 \<le> q_remaining q' \<and> out \<le> q_total q'
    \<and> qr_used (quota_snapshot q') = out"
proof -
  from assms(1) have "ledger_ok (q, 0)"
    by (auto simp: quota_init_def ledger_ok_def quota_inv_def split: if_splits)
  from ledger_run [OF assms(2) this] show ?thesis
    by (simp add: ledger_ok_def quota_inv_def quota_snapshot_def)
qed

theorem quota_never_overgrants_witness:
  "\<exists>q' out. quota_run [QAcquire 2, QUpTo 9, QAcquire 1, QRefund 4, QTopup 3]
       (\<lparr>q_total = 5, q_remaining = 5\<rparr>, 0) = Some (q', out)
     \<and> q_remaining q' + out = q_total q' \<and> out = 1"
proof -
  have init: "quota_init 5 = Inr \<lparr>q_total = 5, q_remaining = 5\<rparr>"
    by (simp add: quota_init_def)
  have run: "quota_run [QAcquire 2, QUpTo 9, QAcquire 1, QRefund 4, QTopup 3]
      (\<lparr>q_total = 5, q_remaining = 5\<rparr>, 0) = Some (\<lparr>q_total = 8, q_remaining = 7\<rparr>, 1)"
    by (simp add: acquire_def acquire_up_to_def refund_def topup_def)
  from quota_never_overgrants [OF init run] run show ?thesis by blast
qed

text \<open>
  Admission control charges exactly what is spent: reserving up to \<open>n\<close> units grants at
  most \<open>n\<close> and at most what is left, and giving back the unspent part leaves the budget
  lower by exactly the units used.
\<close>

theorem reserve_spend_refund_exact:
  assumes "quota_inv q" and "0 \<le> n" and "acquire_up_to n q = (k, q')" and "0 \<le> used" and "used \<le> k"
  shows "k \<le> n \<and> k \<le> q_remaining q \<and> q_remaining (refund (k - used) q') = q_remaining q - used"
  using assms by (rule qb.reserve_then_refund)

theorem reserve_spend_refund_exact_witness:
  "q_remaining (refund (3 - 1) \<lparr>q_total = 9, q_remaining = 0\<rparr>) = 2"
  using reserve_spend_refund_exact [of "\<lparr>q_total = 9, q_remaining = 3\<rparr>" 5 3
      "\<lparr>q_total = 9, q_remaining = 0\<rparr>" 1]
  by (simp add: quota_inv_def acquire_up_to_def)

end
