(* ===== verification/Py_Text.thy ===== *)
theory Py_Text
  imports Prelude
begin

text \<open>
  The Python string operations the sources use, over \<^typ>\<open>string\<close>. Characters are
  ASCII: \<open>isspace\<close>, \<open>\w\<close>, \<open>upper\<close> and \<open>lower\<close> follow Python's
  tables on code points below 128.
\<close>

section \<open>Characters\<close>

definition nl :: char where
  "nl = CHR 0x0A"

definition char_code :: "char \<Rightarrow> nat" where
  "char_code c = of_char c"

text \<open>\<open>str.isspace\<close> on one character: TAB to CR, the four separators and blank.\<close>

definition is_space :: "char \<Rightarrow> bool" where
  "is_space c = (let n = char_code c in 9 \<le> n \<and> n \<le> 13 \<or> 28 \<le> n \<and> n \<le> 32)"

definition is_digit :: "char \<Rightarrow> bool" where
  "is_digit c = (let n = char_code c in 48 \<le> n \<and> n \<le> 57)"

definition is_upper :: "char \<Rightarrow> bool" where
  "is_upper c = (let n = char_code c in 65 \<le> n \<and> n \<le> 90)"

definition is_lower :: "char \<Rightarrow> bool" where
  "is_lower c = (let n = char_code c in 97 \<le> n \<and> n \<le> 122)"

text \<open>The class \<open>\w\<close> of the regular expressions.\<close>

definition is_word :: "char \<Rightarrow> bool" where
  "is_word c = (is_digit c \<or> is_upper c \<or> is_lower c \<or> c = CHR ''_'')"

definition char_upper :: "char \<Rightarrow> char" where
  "char_upper c = (if is_lower c then char_of (char_code c - 32) else c)"

definition char_lower :: "char \<Rightarrow> char" where
  "char_lower c = (if is_upper c then char_of (char_code c + 32) else c)"

definition str_upper :: "string \<Rightarrow> string" where
  "str_upper s = map char_upper s"

definition str_lower :: "string \<Rightarrow> string" where
  "str_lower s = map char_lower s"

section \<open>Stripping, searching, replacing\<close>

definition lstrip_by :: "(char \<Rightarrow> bool) \<Rightarrow> string \<Rightarrow> string" where
  "lstrip_by f s = dropWhile f s"

definition rstrip_by :: "(char \<Rightarrow> bool) \<Rightarrow> string \<Rightarrow> string" where
  "rstrip_by f s = rev (dropWhile f (rev s))"

definition str_rstrip :: "string \<Rightarrow> string" where
  "str_rstrip s = rstrip_by is_space s"

definition str_strip :: "string \<Rightarrow> string" where
  "str_strip s = rstrip_by is_space (lstrip_by is_space s)"

text \<open>\<open>s.strip("\n")\<close>.\<close>

definition str_strip_nl :: "string \<Rightarrow> string" where
  "str_strip_nl s = rstrip_by (\<lambda>c. c = nl) (lstrip_by (\<lambda>c. c = nl) s)"

definition starts_with :: "string \<Rightarrow> string \<Rightarrow> bool" where
  "starts_with p s = (take (length p) s = p)"

text \<open>\<open>p in s\<close>.\<close>

fun contains_sub :: "string \<Rightarrow> string \<Rightarrow> bool" where
  "contains_sub p [] = (p = [])"
| "contains_sub p (c # cs) = (starts_with p (c # cs) \<or> contains_sub p cs)"

text \<open>\<open>s.replace(p, r)\<close> for a non-empty \<open>p\<close>: leftmost occurrences, no overlap.\<close>

function str_replace :: "string \<Rightarrow> string \<Rightarrow> string \<Rightarrow> string" where
  "str_replace p r s =
     (if p \<noteq> [] \<and> s \<noteq> [] \<and> starts_with p s then r @ str_replace p r (drop (length p) s)
      else case s of [] \<Rightarrow> [] | c # cs \<Rightarrow> c # str_replace p r cs)"
  by pat_completeness auto
termination
  by (relation "measure (\<lambda>(p, r, s). length s)") auto

declare str_replace.simps [simp del]

text \<open>\<open>s.partition(" ")\<close>: the text before and after the first blank.\<close>

definition partition_blank :: "string \<Rightarrow> string \<times> string" where
  "partition_blank s =
     (takeWhile (\<lambda>c. c \<noteq> CHR '' '') s, drop 1 (dropWhile (\<lambda>c. c \<noteq> CHR '' '') s))"

text \<open>\<open>s.splitlines()\<close>; a CR followed by LF ends one line.\<close>

definition is_line_end :: "char \<Rightarrow> bool" where
  "is_line_end c = (let n = char_code c in 10 \<le> n \<and> n \<le> 13 \<or> 28 \<le> n \<and> n \<le> 30)"

fun splitlines_acc :: "string \<Rightarrow> string \<Rightarrow> string list" where
  "splitlines_acc acc [] = (if acc = [] then [] else [rev acc])"
| "splitlines_acc acc [c] = (if is_line_end c then [rev acc] else [rev (c # acc)])"
| "splitlines_acc acc (c # d # cs) =
     (if c = CHR 0x0D \<and> d = nl then rev acc # splitlines_acc [] cs
      else if is_line_end c then rev acc # splitlines_acc [] (d # cs)
      else splitlines_acc (c # acc) (d # cs))"

definition splitlines :: "string \<Rightarrow> string list" where
  "splitlines s = splitlines_acc [] s"

text \<open>\<open>s.split()\<close>: the words between white space.\<close>

fun words_acc :: "string \<Rightarrow> string \<Rightarrow> string list" where
  "words_acc w [] = (if w = [] then [] else [rev w])"
| "words_acc w (c # cs) =
     (if is_space c then (if w = [] then words_acc [] cs else rev w # words_acc [] cs)
      else words_acc (c # w) cs)"

definition str_split :: "string \<Rightarrow> string list" where
  "str_split s = words_acc [] s"

text \<open>\<open>s.rsplit(c, 1)[1]\<close>; \<open>None\<close> if \<open>c\<close> does not occur (an \<open>IndexError\<close>).\<close>

definition after_last :: "char \<Rightarrow> string \<Rightarrow> string option" where
  "after_last c s = (if c \<in> set s then Some (rev (takeWhile (\<lambda>d. d \<noteq> c) (rev s))) else None)"

text \<open>\<open>sep.join(xs)\<close>.\<close>

fun join_with :: "string \<Rightarrow> string list \<Rightarrow> string" where
  "join_with sep [] = []"
| "join_with sep [x] = x"
| "join_with sep (x # y # zs) = x @ sep @ join_with sep (y # zs)"

section \<open>Numbers as text\<close>

definition digit_char :: "nat \<Rightarrow> char" where
  "digit_char d = char_of (48 + d)"

fun show_nat :: "nat \<Rightarrow> string" where
  "show_nat n = (if n < 10 then [digit_char n] else show_nat (n div 10) @ [digit_char (n mod 10)])"

declare show_nat.simps [simp del]

definition show_int :: "int \<Rightarrow> string" where
  "show_int i = (if i < 0 then ''-'' @ show_nat (nat (- i)) else show_nat (nat i))"

definition show_opt_int :: "int option \<Rightarrow> string" where
  "show_opt_int x = (case x of None \<Rightarrow> ''None'' | Some i \<Rightarrow> show_int i)"

text \<open>Rounding to the nearest integer, ties to even, as \<open>round\<close> and \<open>format\<close> do.\<close>

definition round_half_even :: "real \<Rightarrow> int" where
  "round_half_even x =
     (let f = \<lfloor>x\<rfloor>; d = x - of_int f in
      if d < 1/2 then f else if 1/2 < d then f + 1 else if even f then f else f + 1)"

definition pad_left :: "nat \<Rightarrow> string \<Rightarrow> string" where
  "pad_left k s = replicate (k - length s) (CHR ''0'') @ s"

text \<open>\<open>f"{x:.kf}"\<close> for \<open>k > 0\<close>.\<close>

definition fmt_fixed :: "nat \<Rightarrow> real \<Rightarrow> string" where
  "fmt_fixed k x =
     (let n = nat (round_half_even (\<bar>x\<bar> * 10 ^ k))
      in (if x < 0 then ''-'' else '''') @ show_nat (n div 10 ^ k) @ ''.''
         @ pad_left k (show_nat (n mod 10 ^ k)))"

text \<open>\<open>round(x, k)\<close>.\<close>

definition round_to :: "nat \<Rightarrow> real \<Rightarrow> real" where
  "round_to k x = of_int (round_half_even (x * 10 ^ k)) / 10 ^ k"

text \<open>\<open>repr(s)\<close>: single quotes unless the text has one and no double quote.\<close>

definition hex_digit :: "nat \<Rightarrow> char" where
  "hex_digit d = (if d < 10 then char_of (48 + d) else char_of (87 + d))"

definition repr_char :: "char \<Rightarrow> char \<Rightarrow> string" where
  "repr_char q c =
     (let n = char_code c in
      if c = q \<or> c = CHR 0x5C then [CHR 0x5C, c]
      else if n = 9 then [CHR 0x5C, CHR ''t'']
      else if n = 10 then [CHR 0x5C, CHR ''n'']
      else if n = 13 then [CHR 0x5C, CHR ''r'']
      else if n < 32 \<or> n = 127
        then [CHR 0x5C, CHR ''x'', hex_digit (n div 16), hex_digit (n mod 16)]
      else [c])"

definition py_repr :: "string \<Rightarrow> string" where
  "py_repr s =
     (let q = (if CHR 0x27 \<in> set s \<and> CHR 0x22 \<notin> set s then CHR 0x22 else CHR 0x27)
      in [q] @ concat (map (repr_char q) s) @ [q])"

text \<open>
  Python's \<open>int(s)\<close> on ASCII text: white space around, an optional sign, digits with single
  underscores between them.
\<close>

fun digits_value :: "bool \<Rightarrow> nat \<Rightarrow> string \<Rightarrow> nat option" where
  "digits_value after_digit acc [] = (if after_digit then Some acc else None)"
| "digits_value after_digit acc (c # cs) =
     (if is_digit c then digits_value True (10 * acc + (char_code c - 48)) cs
      else if c = CHR ''_'' \<and> after_digit then digits_value False acc cs
      else None)"

definition py_int :: "string \<Rightarrow> py_exc + int" where
  "py_int s =
     (let body = str_strip s;
          (neg, ds) = (case body of
             [] \<Rightarrow> (False, [])
           | c # cs \<Rightarrow> if c = CHR ''-'' then (True, cs) else if c = CHR ''+'' then (False, cs) else (False, body))
      in case digits_value False 0 ds of
           None \<Rightarrow> Inl (OtherExc ''ValueError'' (''invalid literal for int() with base 10: '' @ py_repr s))
         | Some n \<Rightarrow> Inr (if neg then - int n else int n))"

section \<open>Lemmas\<close>

lemma starts_with_iff: "starts_with p s \<longleftrightarrow> (\<exists>t. s = p @ t)"
  unfolding starts_with_def by (metis append_eq_conv_conj append_take_drop_id)

lemma contains_sub_iff: "contains_sub p s \<longleftrightarrow> (\<exists>u v. s = u @ p @ v)"
proof (induction p s rule: contains_sub.induct)
  case (2 p c cs)
  show ?case
  proof
    assume "contains_sub p (c # cs)"
    then consider "starts_with p (c # cs)" | "contains_sub p cs"
      by auto
    then show "\<exists>u v. c # cs = u @ p @ v"
    proof cases
      case 1
      then obtain t where "c # cs = [] @ p @ t"
        by (auto simp: starts_with_iff)
      then show ?thesis by blast
    next
      case 2
      then obtain u v where "cs = u @ p @ v"
        using "2.IH" by blast
      then have "c # cs = (c # u) @ p @ v" by simp
      then show ?thesis by blast
    qed
  next
    assume "\<exists>u v. c # cs = u @ p @ v"
    then obtain u v where uv: "c # cs = u @ p @ v" by blast
    show "contains_sub p (c # cs)"
    proof (cases u)
      case Nil
      with uv have "\<exists>t. c # cs = p @ t" by auto
      then have "starts_with p (c # cs)" by (simp only: starts_with_iff)
      then show ?thesis by simp
    next
      case (Cons d us)
      with uv have "cs = us @ p @ v" by simp
      then have "contains_sub p cs" using "2.IH" by blast
      then show ?thesis by simp
    qed
  qed
qed auto

lemma str_replace_absent:
  "\<not> contains_sub p s \<Longrightarrow> str_replace p r s = s"
proof (induction p r s rule: str_replace.induct)
  case (1 p r s)
  show ?case
  proof (cases s)
    case Nil
    then show ?thesis by (simp add: str_replace.simps)
  next
    case (Cons c cs)
    with "1.prems" have ns: "\<not> starts_with p s" and cs: "\<not> contains_sub p cs"
      by auto
    have "str_replace p r cs = cs"
      using "1.IH"(2) ns Cons cs by auto
    with ns Cons show ?thesis
      by (subst str_replace.simps) simp
  qed
qed

text \<open>Decimal text of a number, and the number back from its digits.\<close>

lemma digit_char_code: "d < 10 \<Longrightarrow> is_digit (digit_char d) \<and> char_code (digit_char d) - 48 = d"
  by (simp add: is_digit_def digit_char_def char_code_def)

lemma show_nat_digits:
  "list_all is_digit (show_nat n) \<and> show_nat n \<noteq> [] \<and> foldl (\<lambda>n c. 10 * n + (char_code c - 48)) 0 (show_nat n) = n"
proof (induction n rule: show_nat.induct)
  case (1 n)
  show ?case
  proof (cases "n < 10")
    case True
    then show ?thesis using digit_char_code [of n] by (simp add: show_nat.simps [of n])
  next
    case False
    from 1 [OF False] digit_char_code [of "n mod 10"] False show ?thesis
      by (simp add: show_nat.simps [of n])
  qed
qed

text \<open>Decimal text of an integer reads back.\<close>

lemma digits_value_append:
  "list_all is_digit xs \<Longrightarrow> xs \<noteq> [] \<Longrightarrow> digits_value b acc (xs @ ys)
     = digits_value True (foldl (\<lambda>n c. 10 * n + (char_code c - 48)) acc xs) ys"
proof (induction xs arbitrary: b acc)
  case (Cons x xs)
  show ?case
  proof (cases "xs = []")
    case False
    with Cons.IH [of True "10 * acc + (char_code x - 48)"] Cons.prems show ?thesis by simp
  qed (use Cons.prems in simp)
qed simp

lemma digits_value_show: "digits_value False 0 (show_nat n) = Some n"
  using digits_value_append [of "show_nat n" False 0 "[]"] show_nat_digits [of n] by simp

lemma digit_not_space: "is_digit c \<Longrightarrow> \<not> is_space c \<and> c \<noteq> CHR ''-'' \<and> c \<noteq> CHR ''+''"
  by (auto simp: is_digit_def is_space_def char_code_def Let_def)

lemma strip_show_int: "str_strip (show_int n) = show_int n"
proof -
  have end_char: "\<not> is_space (last (show_nat m)) \<and> \<not> is_space (hd (show_nat m))" for m
    using show_nat_digits [of m] digit_not_space by (cases "show_nat m") (auto simp: list_all_iff)
  have "\<not> is_space (hd (show_int n))" "\<not> is_space (last (show_int n))" "show_int n \<noteq> []"
    using end_char show_nat_digits by (auto simp: show_int_def is_space_def char_code_def Let_def)
  then have "dropWhile is_space (show_int n) = show_int n"
    "dropWhile is_space (rev (show_int n)) = rev (show_int n)"
    by (simp_all add: dropWhile_eq_self_iff hd_rev)
  then show ?thesis by (simp add: str_strip_def lstrip_by_def rstrip_by_def)
qed

lemma py_int_show: "py_int (show_int n) = Inr n"
proof (cases "n < 0")
  case True
  then show ?thesis
    using strip_show_int [of n] by (simp add: py_int_def show_int_def digits_value_show)
next
  case False
  obtain c cs where c: "show_nat (nat n) = c # cs" "is_digit c"
    using show_nat_digits [of "nat n"] by (cases "show_nat (nat n)") auto
  then have "c \<noteq> CHR ''-''" "c \<noteq> CHR ''+''" using digit_not_space by auto
  with False c strip_show_int [of n] digits_value_show [of "nat n"] show ?thesis
    by (simp add: py_int_def show_int_def)
qed

end
