(* ===== verification/Pcb.thy ===== *)
theory Pcb
  imports Py_Text
begin

text \<open>
  The process control block of an agent (\<open>gcos/kernel/pcb.py\<close>): its states, its
  capability set, its context pages, and the state machine \<open>transition\<close> whose terminal
  states are absorbing. The pager object a kernel wires onto a PCB is represented by its
  configuration (budget and policy stack), so its type is declared here; its operations are
  in the theory of the context pager.
\<close>

section \<open>Data\<close>

datatype agent_state = NEW | READY | RUNNING | WAITING | BLOCKED | DONE | TIMEOUT | ERROR | ZOMBIE

fun state_value :: "agent_state \<Rightarrow> string" where
  "state_value NEW = ''NEW''"
| "state_value READY = ''READY''"
| "state_value RUNNING = ''RUNNING''"
| "state_value WAITING = ''WAITING''"
| "state_value BLOCKED = ''BLOCKED''"
| "state_value DONE = ''DONE''"
| "state_value TIMEOUT = ''TIMEOUT''"
| "state_value ERROR = ''ERROR''"
| "state_value ZOMBIE = ''ZOMBIE''"

definition terminal_states :: "agent_state list" where
  "terminal_states = [DONE, TIMEOUT, ERROR, ZOMBIE]"

fun legal_transitions :: "agent_state \<Rightarrow> agent_state list" where
  "legal_transitions NEW = [READY, WAITING, RUNNING, ZOMBIE]"
| "legal_transitions READY = [RUNNING, WAITING, BLOCKED, DONE, TIMEOUT, ERROR, ZOMBIE]"
| "legal_transitions RUNNING = [READY, WAITING, BLOCKED, DONE, TIMEOUT, ERROR, ZOMBIE]"
| "legal_transitions WAITING = [READY, RUNNING, BLOCKED, DONE, TIMEOUT, ERROR, ZOMBIE]"
| "legal_transitions BLOCKED = [READY, RUNNING, WAITING, DONE, TIMEOUT, ERROR, ZOMBIE]"
| "legal_transitions _ = []"

record capability_set =
  can_call_llm :: bool
  can_exec_code :: bool
  can_net :: bool
  can_fs_write :: bool
  can_spawn_child :: bool
  multi_step :: bool
  allowed_paths :: "string list"
  max_tokens :: int
  max_tool_calls :: int

definition cap_default_user :: capability_set where
  "cap_default_user =
     \<lparr>can_call_llm = True, can_exec_code = False, can_net = False, can_fs_write = False,
      can_spawn_child = False, multi_step = False, allowed_paths = [], max_tokens = 4096,
      max_tool_calls = 20\<rparr>"

definition cap_coder :: capability_set where
  "cap_coder = cap_default_user\<lparr>can_exec_code := True, can_spawn_child := True, max_tokens := 8192\<rparr>"

definition cap_agent :: "int \<Rightarrow> capability_set" where
  "cap_agent n = cap_default_user\<lparr>multi_step := True, max_tool_calls := n, max_tokens := 8192\<rparr>"

record context_page =
  cp_role :: string
  cp_content :: string
  cp_tokens :: int
  cp_last_access :: time
  cp_pinned :: bool
  cp_summarized :: bool

definition new_page :: "string \<Rightarrow> string \<Rightarrow> int \<Rightarrow> bool \<Rightarrow> bool \<Rightarrow> time \<Rightarrow> context_page" where
  "new_page role content tokens pinned summarized now =
     \<lparr>cp_role = role, cp_content = content, cp_tokens = tokens, cp_last_access = now,
      cp_pinned = pinned, cp_summarized = summarized\<rparr>"

definition touch :: "time \<Rightarrow> context_page \<Rightarrow> context_page" where
  "touch now p = p\<lparr>cp_last_access := now\<rparr>"

text \<open>
  The configuration of a context pager: \<open>LRU min_keep\<close>,
  \<open>Summarize batch_size max_summary_tokens metered\<close> (metered: the policy holds the shared
  quota) and \<open>Swap batch_size min_keep\<close>.
\<close>

datatype eviction_policy =
    LRU int
  | Summarize int int bool
  | Swap int int

record context_pager =
  cpg_budget :: int
  cpg_policies :: "eviction_policy list"

text \<open>The scratch entry \<open>"react"\<close> of the multi-step loop.\<close>

record react_state =
  rs_step :: int
  rs_observations :: "string list"

record agent =
  acb_pid :: pid
  acb_name :: string
  acb_prompt :: string
  acb_state :: agent_state
  acb_priority :: int
  acb_parent_pid :: "pid option"
  acb_children :: "pid list"
  acb_capability :: capability_set
  acb_quota_remaining :: int
  acb_timeout_s :: real
  acb_context_pages :: "context_page list"
  acb_scratch :: "react_state option"
  acb_pager :: "context_pager option"
  acb_pipe_to :: "pid option"
  acb_input_from :: "pid option"
  acb_waiting_since :: "time option"
  acb_created_at :: time
  acb_started_at :: "time option"
  acb_finished_at :: "time option"
  acb_result :: "string option"
  acb_error :: "string option"
  acb_llm_calls_used :: int
  acb_tokens_used :: int

text \<open>The dataclass constructor with every field at its default.\<close>

definition new_agent :: "pid \<Rightarrow> string \<Rightarrow> string \<Rightarrow> time \<Rightarrow> agent" where
  "new_agent p name prompt now =
     \<lparr>acb_pid = p, acb_name = name, acb_prompt = prompt, acb_state = NEW, acb_priority = 5,
      acb_parent_pid = None, acb_children = [], acb_capability = cap_default_user,
      acb_quota_remaining = 10, acb_timeout_s = 30, acb_context_pages = [], acb_scratch = None,
      acb_pager = None, acb_pipe_to = None, acb_input_from = None, acb_waiting_since = None,
      acb_created_at = now, acb_started_at = None, acb_finished_at = None, acb_result = None,
      acb_error = None, acb_llm_calls_used = 0, acb_tokens_used = 0\<rparr>"

section \<open>The state machine\<close>

definition terminal :: "agent_state \<Rightarrow> bool" where
  "terminal s = (s \<in> set terminal_states)"

definition is_terminal :: "agent \<Rightarrow> bool" where
  "is_terminal a = terminal (acb_state a)"

text \<open>
  \<open>transition(new_state)\<close> at clock reading \<open>now\<close>: the PCB after the call and the
  returned truth value.
\<close>

definition transition :: "time \<Rightarrow> agent_state \<Rightarrow> agent \<Rightarrow> agent \<times> bool" where
  "transition now s a =
     (if s = acb_state a then (a, False)
      else if acb_state a \<in> set terminal_states then (a, False)
      else
        let a1 = (if s = RUNNING \<and> acb_started_at a = None
                  then a\<lparr>acb_started_at := Some now\<rparr> else a);
            a2 = (if s \<in> set terminal_states then a1\<lparr>acb_finished_at := Some now\<rparr> else a1)
        in (a2\<lparr>acb_state := s\<rparr>, True))"

text \<open>The level at which \<open>transition\<close> logs an anomaly, if it does.\<close>

datatype log_level = LDebug | LWarning

definition transition_log :: "agent_state \<Rightarrow> agent \<Rightarrow> log_level option" where
  "transition_log s a =
     (if s = acb_state a then None
      else if acb_state a \<in> set terminal_states then Some LDebug
      else if s \<notin> set (legal_transitions (acb_state a)) then Some LWarning
      else None)"

text \<open>A call of \<open>transition\<close> whose result is ignored.\<close>

definition move :: "time \<Rightarrow> agent_state \<Rightarrow> agent \<Rightarrow> agent" where
  "move now s a = fst (transition now s a)"

definition set_error :: "string \<Rightarrow> agent \<Rightarrow> agent" where
  "set_error e a = a\<lparr>acb_error := Some e\<rparr>"

definition wall_time :: "time \<Rightarrow> agent \<Rightarrow> real" where
  "wall_time now a =
     (case acb_started_at a of
        None \<Rightarrow> 0
      | Some t0 \<Rightarrow>
          (let end' = (case acb_finished_at a of None \<Rightarrow> now | Some t \<Rightarrow> if t = 0 then now else t)
           in end' - t0))"

record agent_row =
  row_pid :: pid
  row_name :: string
  row_state :: string
  row_prio :: int
  row_parent :: "pid option"
  row_quota :: int
  row_tokens :: int
  row_calls :: int
  row_wall :: real

definition to_row :: "time \<Rightarrow> agent \<Rightarrow> agent_row" where
  "to_row now a =
     \<lparr>row_pid = acb_pid a, row_name = acb_name a, row_state = state_value (acb_state a),
      row_prio = acb_priority a, row_parent = acb_parent_pid a,
      row_quota = acb_quota_remaining a, row_tokens = acb_tokens_used a,
      row_calls = acb_llm_calls_used a, row_wall = round_to 2 (wall_time now a)\<rparr>"

text \<open>A history of calls of \<open>transition\<close>, each at its own clock reading.\<close>

fun moves :: "(time \<times> agent_state) list \<Rightarrow> agent \<Rightarrow> agent" where
  "moves [] a = a"
| "moves ((t, s) # ts) a = moves ts (move t s a)"

section \<open>Invariant\<close>

text \<open>
  The timestamps agree with the state: an agent has a finish time exactly when its state is
  terminal, and no agent finishes before it starts or starts before it was created.
\<close>

definition stamps_ok :: "time \<Rightarrow> agent \<Rightarrow> bool" where
  "stamps_ok now a \<longleftrightarrow>
     (is_terminal a \<longleftrightarrow> acb_finished_at a \<noteq> None) \<and>
     acb_created_at a \<le> now \<and>
     (\<forall>t. acb_started_at a = Some t \<longrightarrow> acb_created_at a \<le> t \<and> t \<le> now) \<and>
     (\<forall>t. acb_finished_at a = Some t \<longrightarrow> acb_created_at a \<le> t \<and> t \<le> now) \<and>
     (\<forall>t u. acb_started_at a = Some t \<longrightarrow> acb_finished_at a = Some u \<longrightarrow> t \<le> u)"

section \<open>Lemmas\<close>

lemma terminal_simps [simp]:
  "terminal DONE" "terminal TIMEOUT" "terminal ERROR" "terminal ZOMBIE"
  "\<not> terminal NEW" "\<not> terminal READY" "\<not> terminal RUNNING" "\<not> terminal WAITING"
  "\<not> terminal BLOCKED"
  by (simp_all add: terminal_def terminal_states_def)

lemma terminal_states_iff [simp]: "s \<in> set terminal_states \<longleftrightarrow> terminal s"
  by (simp add: terminal_def)

lemma move_terminal [simp]: "is_terminal a \<Longrightarrow> move now s a = a"
  by (simp add: move_def transition_def is_terminal_def)

lemma move_state:
  "acb_state (move now s a) = (if is_terminal a then acb_state a else s)"
  by (auto simp: move_def transition_def is_terminal_def Let_def)

lemma is_terminal_move [simp]:
  "is_terminal (move now s a) \<longleftrightarrow> is_terminal a \<or> terminal s"
  using move_state [of now s a] by (auto simp: is_terminal_def split: if_splits)

text \<open>A transition changes nothing but the state and the two timestamps.\<close>

lemma move_frame [simp, pcb_simps]:
  "acb_pid (move now s a) = acb_pid a"
  "acb_name (move now s a) = acb_name a"
  "acb_prompt (move now s a) = acb_prompt a"
  "acb_priority (move now s a) = acb_priority a"
  "acb_parent_pid (move now s a) = acb_parent_pid a"
  "acb_children (move now s a) = acb_children a"
  "acb_capability (move now s a) = acb_capability a"
  "acb_quota_remaining (move now s a) = acb_quota_remaining a"
  "acb_timeout_s (move now s a) = acb_timeout_s a"
  "acb_context_pages (move now s a) = acb_context_pages a"
  "acb_scratch (move now s a) = acb_scratch a"
  "acb_pager (move now s a) = acb_pager a"
  "acb_pipe_to (move now s a) = acb_pipe_to a"
  "acb_input_from (move now s a) = acb_input_from a"
  "acb_waiting_since (move now s a) = acb_waiting_since a"
  "acb_created_at (move now s a) = acb_created_at a"
  "acb_result (move now s a) = acb_result a"
  "acb_error (move now s a) = acb_error a"
  "acb_llm_calls_used (move now s a) = acb_llm_calls_used a"
  "acb_tokens_used (move now s a) = acb_tokens_used a"
  by (simp_all add: move_def transition_def Let_def)

lemma set_error_frame [simp, pcb_simps]:
  "acb_pid (set_error e a) = acb_pid a"
  "acb_state (set_error e a) = acb_state a"
  "acb_prompt (set_error e a) = acb_prompt a"
  "acb_name (set_error e a) = acb_name a"
  "acb_parent_pid (set_error e a) = acb_parent_pid a"
  "acb_children (set_error e a) = acb_children a"
  "acb_context_pages (set_error e a) = acb_context_pages a"
  "acb_capability (set_error e a) = acb_capability a"
  "acb_quota_remaining (set_error e a) = acb_quota_remaining a"
  "acb_llm_calls_used (set_error e a) = acb_llm_calls_used a"
  "acb_tokens_used (set_error e a) = acb_tokens_used a"
  "acb_result (set_error e a) = acb_result a"
  "acb_pipe_to (set_error e a) = acb_pipe_to a"
  "acb_input_from (set_error e a) = acb_input_from a"
  "acb_scratch (set_error e a) = acb_scratch a"
  "acb_pager (set_error e a) = acb_pager a"
  "acb_created_at (set_error e a) = acb_created_at a"
  "acb_priority (set_error e a) = acb_priority a"
  "acb_error (set_error e a) = Some e"
  "is_terminal (set_error e a) = is_terminal a"
  by (simp_all add: set_error_def is_terminal_def)

lemma new_agent_not_terminal [simp]: "\<not> is_terminal (new_agent p n pr t)"
  by (simp add: is_terminal_def new_agent_def)

lemma moves_terminal [simp]: "is_terminal a \<Longrightarrow> moves ts a = a"
  by (induction ts) auto

lemma moves_append: "moves (xs @ ys) a = moves ys (moves xs a)"
  by (induction xs a rule: moves.induct) auto

lemma stamps_ok_move:
  assumes "stamps_ok t0 a" and "t0 \<le> now"
  shows "stamps_ok now (move now s a)"
  using assms
  by (cases s; cases "acb_state a")
    (auto simp: stamps_ok_def move_def transition_def is_terminal_def Let_def split: if_splits)

section \<open>Properties\<close>

text \<open>
  C27. Terminal states are absorbing and finalisation is permanent: once a history of
  transitions has brought an agent to a terminal state, no later sequence of
  \<open>transition\<close> calls, by whichever thread, changes any field of its PCB.
\<close>

theorem terminal_absorbing:
  assumes "is_terminal (moves before a)"
  shows "moves (before @ after) a = moves before a"
  using assms by (simp add: moves_append)

theorem terminal_absorbing_witness:
  "moves [(1, RUNNING), (2, ZOMBIE), (3, DONE), (4, READY)] (new_agent 7 ''a'' ''x'' 0)
     = moves [(1, RUNNING), (2, ZOMBIE)] (new_agent 7 ''a'' ''x'' 0)"
proof -
  have "is_terminal (moves [(1, RUNNING), (2, ZOMBIE)] (new_agent 7 ''a'' ''x'' 0))"
    by simp
  from terminal_absorbing [OF this, of "[(3, DONE), (4, READY)]"] show ?thesis
    by simp
qed

lemma stamps_ok_moves:
  "stamps_ok t0 a \<Longrightarrow> sorted (t0 # map fst ts) \<Longrightarrow> \<forall>t \<in> set (map fst ts). t \<le> now \<Longrightarrow>
     t0 \<le> now \<Longrightarrow> \<exists>t1. t1 \<le> now \<and> stamps_ok t1 (moves ts a)"
proof (induction ts arbitrary: t0 a)
  case Nil
  then show ?case by auto
next
  case (Cons x ts)
  obtain t s where x: "x = (t, s)" by (cases x)
  from Cons.prems x have le: "t0 \<le> t" and srt: "sorted (t # map fst ts)"
    by auto
  have ok: "stamps_ok t (move t s a)"
    using Cons.prems(1) le by (rule stamps_ok_move)
  show ?case
    using Cons.IH [OF ok srt] Cons.prems x by auto
qed

lemma stamps_ok_later: "stamps_ok t a \<Longrightarrow> t \<le> now \<Longrightarrow> stamps_ok now a"
  by (force simp: stamps_ok_def)



end
