(* ===== verification/Sandbox.thy ===== *)
theory Sandbox
  imports Py_Text
begin

text \<open>
  The sandbox layer (\<open>gcos/sandbox/runner.py\<close>, \<open>subprocess_runner.py\<close>,
  \<open>docker_runner.py\<close> and the factory in \<open>gcos/sandbox/__init__.py\<close>). The operating
  system and the Docker daemon are parameters: what a launched process or container does is
  given as an outcome value.
\<close>

section \<open>Results\<close>

record sandbox_result =
  sb_stdout :: string
  sb_stderr :: string
  sb_exit_code :: int
  sb_duration_s :: real
  sb_killed_by_timeout :: bool
  sb_runner :: string

definition sb_ok :: "sandbox_result \<Rightarrow> bool" where
  "sb_ok r = (sb_exit_code r = 0 \<and> \<not> sb_killed_by_timeout r)"

definition short_summary :: "sandbox_result \<Rightarrow> string" where
  "short_summary r =
     (if sb_killed_by_timeout r
      then ''['' @ sb_runner r @ ''] TIMEOUT after '' @ fmt_fixed 1 (sb_duration_s r) @ ''s''
      else
        let tag = (if sb_ok r then ''OK'' else ''EXIT '' @ show_int (sb_exit_code r))
        in ''['' @ sb_runner r @ ''] '' @ tag @ '' in '' @ fmt_fixed 2 (sb_duration_s r) @ ''s'')"

section \<open>The subprocess runner\<close>

text \<open>
  What \<open>subprocess.run\<close> does: it finishes, it times out with what was captured so far
  (decoded, or absent), or it raises another exception.
\<close>

datatype proc_outcome =
    ProcDone string string int
  | ProcTimeout "string option" "string option"
  | ProcRaises py_exc

definition opt_text :: "string option \<Rightarrow> string" where
  "opt_text s = (case s of None \<Rightarrow> '''' | Some t \<Rightarrow> t)"

text \<open>
  \<open>tmp\<close>: the temporary directories that exist, \<open>workdir\<close> the one \<open>mkdtemp\<close> makes.
  The second component is the set of directories afterwards.
\<close>

definition subprocess_run_python ::
  "proc_outcome \<Rightarrow> real \<Rightarrow> string \<Rightarrow> string list \<Rightarrow> (py_exc + sandbox_result) \<times> string list" where
  "subprocess_run_python outcome elapsed workdir tmp =
     (let tmp1 = workdir # tmp; cleaned = removeAll workdir tmp1
      in case outcome of
           ProcDone out err code \<Rightarrow>
             (Inr \<lparr>sb_stdout = out, sb_stderr = err, sb_exit_code = code, sb_duration_s = elapsed,
                   sb_killed_by_timeout = False, sb_runner = ''subprocess''\<rparr>, cleaned)
         | ProcTimeout out err \<Rightarrow>
             (Inr \<lparr>sb_stdout = opt_text out, sb_stderr = opt_text err, sb_exit_code = -1,
                   sb_duration_s = elapsed, sb_killed_by_timeout = True, sb_runner = ''subprocess''\<rparr>,
              cleaned)
         | ProcRaises e \<Rightarrow> (Inl e, cleaned))"

section \<open>The Docker runner\<close>

record docker_config =
  dk_image :: string
  dk_memory :: string
  dk_pids_limit :: int
  dk_cpus :: real
  dk_tmpfs_size :: string
  dk_user :: string
  dk_max_output_bytes :: int
  dk_seccomp :: bool

definition docker_default :: docker_config where
  "docker_default =
     \<lparr>dk_image = ''python:3.11-slim'', dk_memory = ''128m'', dk_pids_limit = 64, dk_cpus = 1,
      dk_tmpfs_size = ''8m'', dk_user = ''65534:65534'', dk_max_output_bytes = 64 * 1024,
      dk_seccomp = True\<rparr>"

text \<open>\<open>_security_opt\<close>; \<open>profile\<close> is the JSON text of the seccomp profile.\<close>

definition security_opt :: "docker_config \<Rightarrow> string \<Rightarrow> string list" where
  "security_opt c profile =
     [''no-new-privileges''] @ (if dk_seccomp c then [''seccomp='' @ profile] else [])"

text \<open>The keyword arguments of \<open>containers.run\<close> that isolate the container.\<close>

record run_options =
  ro_image :: string
  ro_network_mode :: string
  ro_read_only :: bool
  ro_cap_drop :: "string list"
  ro_security_opt :: "string list"
  ro_user :: string
  ro_mem_limit :: string
  ro_memswap_limit :: string
  ro_pids_limit :: int
  ro_nano_cpus :: int
  ro_cpu_shares :: "int option"
  ro_tmpfs :: "(string \<times> string) list"
  ro_working_dir :: string

definition docker_run_options :: "docker_config \<Rightarrow> string \<Rightarrow> int option \<Rightarrow> run_options" where
  "docker_run_options c profile cpu_shares =
     \<lparr>ro_image = dk_image c, ro_network_mode = ''none'', ro_read_only = True, ro_cap_drop = [''ALL''],
      ro_security_opt = security_opt c profile, ro_user = dk_user c, ro_mem_limit = dk_memory c,
      ro_memswap_limit = dk_memory c, ro_pids_limit = dk_pids_limit c,
      ro_nano_cpus = \<lfloor>dk_cpus c * 1000000000\<rfloor>, ro_cpu_shares = cpu_shares,
      ro_tmpfs = [(''/work'', ''rw,size='' @ dk_tmpfs_size c @ '',exec,mode=1777'')],
      ro_working_dir = ''/work''\<rparr>"

text \<open>\<open>_capped\<close> on the bytes of a log, here ASCII text; \<open>None\<close> is Python's \<open>None\<close>.\<close>

definition capped :: "docker_config \<Rightarrow> string option \<Rightarrow> string" where
  "capped c raw =
     (case raw of
        None \<Rightarrow> ''''
      | Some s \<Rightarrow>
          (let cut = slice_to (dk_max_output_bytes c) s
           in if dk_max_output_bytes c < int (length s)
              then cut @ [nl] @ ''...[truncated at '' @ show_int (dk_max_output_bytes c) @ '' bytes]''
              else cut))"

text \<open>
  What the daemon does: it refuses to start the container, or it starts it; then waiting
  yields a status (or none in the answer) or raises, and each of the two logs can be read or
  not. The killing and the removal of the container ignore failures.
\<close>

record container_outcome =
  co_wait :: "py_exc + int option"
  co_stdout :: "py_exc + string option"
  co_stderr :: "py_exc + string option"

definition docker_run_python ::
  "docker_config \<Rightarrow> py_exc + container_outcome \<Rightarrow> real \<Rightarrow> py_exc + sandbox_result" where
  "docker_run_python c start elapsed =
     (case start of
        Inl e \<Rightarrow> Inl e
      | Inr k \<Rightarrow>
          (let killed = (case co_wait k of Inl _ \<Rightarrow> True | Inr _ \<Rightarrow> False);
               exit_code = (case co_wait k of Inl _ \<Rightarrow> -1 | Inr None \<Rightarrow> -1 | Inr (Some s) \<Rightarrow> s);
               out = (case co_stdout k of Inl _ \<Rightarrow> '''' | Inr raw \<Rightarrow> capped c raw);
               err = (case co_stdout k of
                        Inl _ \<Rightarrow> ''''
                      | Inr _ \<Rightarrow> (case co_stderr k of Inl _ \<Rightarrow> '''' | Inr raw \<Rightarrow> capped c raw))
           in Inr \<lparr>sb_stdout = out, sb_stderr = err, sb_exit_code = exit_code,
                   sb_duration_s = elapsed, sb_killed_by_timeout = killed, sb_runner = ''docker''\<rparr>))"

section \<open>The factory\<close>

datatype runner = DockerRunner | SubprocessRunner

definition failclosed_default :: "(string \<Rightarrow> string option) \<Rightarrow> bool" where
  "failclosed_default getenv =
     (str_lower (case getenv ''GCOS_SANDBOX_FAILCLOSED'' of None \<Rightarrow> ''0'' | Some v \<Rightarrow> v)
        \<in> set [''1'', ''true'', ''yes''])"

definition sandbox_pref :: "(string \<Rightarrow> string option) \<Rightarrow> string option \<Rightarrow> string" where
  "sandbox_pref getenv preference =
     str_lower (case preference of
        Some p \<Rightarrow> if p = '''' then (case getenv ''GCOS_SANDBOX'' of None \<Rightarrow> ''auto'' | Some v \<Rightarrow> v) else p
      | None \<Rightarrow> (case getenv ''GCOS_SANDBOX'' of None \<Rightarrow> ''auto'' | Some v \<Rightarrow> v))"

text \<open>
  \<open>make_runner\<close>: \<open>available\<close> is \<open>DockerSandboxRunner.is_available()\<close>,
  \<open>connect\<close> the outcome of the runner's own connection.
\<close>

definition make_runner ::
  "(string \<Rightarrow> string option) \<Rightarrow> bool \<Rightarrow> py_exc option \<Rightarrow> string option \<Rightarrow> bool option \<Rightarrow> py_exc + runner" where
  "make_runner getenv available connect preference fail_closed =
     (let pref = sandbox_pref getenv preference;
          closed = (case fail_closed of None \<Rightarrow> failclosed_default getenv | Some b \<Rightarrow> b);
          docker = (case connect of Some e \<Rightarrow> Inl e | None \<Rightarrow> Inr DockerRunner)
      in if pref = ''subprocess'' then Inr SubprocessRunner
         else if pref = ''docker'' then
           (if \<not> available
            then Inl (OtherExc ''RuntimeError''
              (''GCOS_SANDBOX=docker requested but Docker daemon isn'' @ [CHR 0x27] @ ''t reachable.''))
            else docker)
         else if available then docker
         else if closed
         then Inl (OtherExc ''RuntimeError''
           (''Sandbox fail-closed: Docker is unavailable and ''
            @ ''GCOS_SANDBOX_FAILCLOSED is set, so untrusted code execution is ''
            @ ''refused. Start Docker or explicitly set GCOS_SANDBOX=subprocess.''))
         else Inr SubprocessRunner)"

text \<open>The cached probe of \<open>sandbox_info\<close>: its value and the time it was taken.\<close>

record probe_cache =
  pc_available :: "bool option"
  pc_ts :: time

record sandbox_row =
  si_preference :: string
  si_docker_available :: bool
  si_runner :: string
  si_isolation :: string
  si_degraded :: bool
  si_fail_closed :: bool

definition sandbox_info ::
  "(string \<Rightarrow> string option) \<Rightarrow> bool \<Rightarrow> time \<Rightarrow> string option \<Rightarrow> bool \<Rightarrow> probe_cache \<Rightarrow> sandbox_row \<times> probe_cache"
  where
  "sandbox_info getenv available now preference refresh pc =
     (let stale = (refresh \<or> pc_available pc = None \<or> 5 < now - pc_ts pc);
          pc1 = (if stale then \<lparr>pc_available = Some available, pc_ts = now\<rparr> else pc);
          docker = (pc_available pc1 = Some True);
          pref = sandbox_pref getenv preference;
          (runner_name, isolation) =
            (if pref = ''subprocess'' then (''subprocess'', ''WEAK'')
             else if pref = ''docker'' then
               (if docker then (''docker'', ''STRONG'') else (''unavailable'', ''NONE''))
             else (if docker then (''docker'', ''STRONG'') else (''subprocess'', ''WEAK'')))
      in (\<lparr>si_preference = pref, si_docker_available = docker, si_runner = runner_name,
           si_isolation = isolation, si_degraded = (isolation \<in> set [''WEAK'', ''NONE'']),
           si_fail_closed = failclosed_default getenv\<rparr>, pc1))"

section \<open>Lemmas\<close>

lemma capped_length:
  assumes "0 \<le> dk_max_output_bytes c"
  shows "int (length (capped c raw)) \<le> dk_max_output_bytes c
           + int (length ([nl] @ ''...[truncated at '' @ show_int (dk_max_output_bytes c) @ '' bytes]''))"
  using assms by (auto simp: capped_def slice_to_def Let_def split: option.splits)

text \<open>
  Every container is started isolated; only the relative CPU weight varies with the agent.
\<close>

lemma docker_always_isolated:
  "docker_run_options docker_default profile cpu_shares =
     \<lparr>ro_image = ''python:3.11-slim'', ro_network_mode = ''none'', ro_read_only = True,
      ro_cap_drop = [''ALL''], ro_security_opt = [''no-new-privileges'', ''seccomp='' @ profile],
      ro_user = ''65534:65534'', ro_mem_limit = ''128m'', ro_memswap_limit = ''128m'',
      ro_pids_limit = 64, ro_nano_cpus = 1000000000, ro_cpu_shares = cpu_shares,
      ro_tmpfs = [(''/work'', ''rw,size=8m,exec,mode=1777'')], ro_working_dir = ''/work''\<rparr>"
  by (simp add: docker_run_options_def docker_default_def security_opt_def)

section \<open>Properties\<close>

text \<open>
  The factory never weakens isolation behind the operator's back: the unisolated
  subprocess runner is chosen only when it was asked for by name, or in automatic mode with
  Docker unavailable and fail-closed off; with fail-closed on and no request for it, the
  result is Docker or a refusal.
\<close>

theorem make_runner_never_silently_weak:
  "(make_runner getenv available connect preference fail_closed = Inr SubprocessRunner \<longleftrightarrow>
     sandbox_pref getenv preference = ''subprocess''
     \<or> sandbox_pref getenv preference \<noteq> ''docker'' \<and> available = False
       \<and> (case fail_closed of None \<Rightarrow> failclosed_default getenv | Some b \<Rightarrow> b) = False)
   \<and> (make_runner getenv available connect preference fail_closed = Inr DockerRunner \<longleftrightarrow>
     sandbox_pref getenv preference \<noteq> ''subprocess'' \<and> available \<and> connect = None)"
  by (auto simp: make_runner_def Let_def split: option.splits if_splits)

text \<open>
  The reported posture and the factory disagree under fail-closed: in automatic mode with
  Docker down and fail-closed set, \<open>sandbox_info\<close> reports the subprocess runner with weak
  isolation while \<open>make_runner\<close> refuses to build any runner.
\<close>

theorem posture_report_diverges:
  assumes "sandbox_pref getenv None = ''auto''" and "failclosed_default getenv"
  shows "si_runner (fst (sandbox_info getenv False now None True pc)) = ''subprocess''
    \<and> (\<exists>e. make_runner getenv False connect None None = Inl e)"
  using assms by (simp add: sandbox_info_def make_runner_def Let_def)

theorem posture_report_diverges_witness:
  "si_runner (fst (sandbox_info (\<lambda>k. if k = ''GCOS_SANDBOX_FAILCLOSED'' then Some ''1'' else None)
     False 0 None True \<lparr>pc_available = None, pc_ts = 0\<rparr>)) = ''subprocess''"
proof -
  let ?env = "\<lambda>k. if k = ''GCOS_SANDBOX_FAILCLOSED'' then Some ''1'' else None"
  have "sandbox_pref ?env None = ''auto''" "failclosed_default ?env"
    by (simp_all add: sandbox_pref_def failclosed_default_def str_lower_def char_lower_def
        is_upper_def char_code_def)
  from posture_report_diverges [OF this] show ?thesis by blast
qed

text \<open>
  What a runner reports: a run that timed out is never reported as successful and has
  exit code -1; a run is successful exactly if it ended by itself with status 0; captured
  Docker output is bounded by the cap plus the truncation notice; and the subprocess runner
  leaves no temporary directory behind, also when it raises.
\<close>

theorem sandbox_reports:
  "(case docker_run_python docker_default (Inr k) t of
      Inl e \<Rightarrow> False
    | Inr r \<Rightarrow> (sb_ok r \<longleftrightarrow> co_wait k = Inr (Some 0))
        \<and> (sb_killed_by_timeout r \<longleftrightarrow> (\<exists>e. co_wait k = Inl e))
        \<and> int (length (sb_stdout r)) \<le> 65536 + int (length ([nl] @ ''...[truncated at '' @ show_int 65536 @ '' bytes]'')))
   \<and> (case fst (subprocess_run_python outcome t workdir tmp) of
        Inl e \<Rightarrow> outcome = ProcRaises e
      | Inr r \<Rightarrow> (sb_ok r \<longleftrightarrow> (\<exists>out err. outcome = ProcDone out err 0)))
   \<and> set (snd (subprocess_run_python outcome t workdir tmp)) = set tmp - {workdir}"
proof -
  have cap: "int (length (capped docker_default raw))
      \<le> 65536 + int (length ([nl] @ ''...[truncated at '' @ show_int 65536 @ '' bytes]''))" for raw
    using capped_length [of docker_default raw] by (simp add: docker_default_def)
  have "(case docker_run_python docker_default (Inr k) t of
      Inl e \<Rightarrow> False
    | Inr r \<Rightarrow> (sb_ok r \<longleftrightarrow> co_wait k = Inr (Some 0))
        \<and> (sb_killed_by_timeout r \<longleftrightarrow> (\<exists>e. co_wait k = Inl e))
        \<and> int (length (sb_stdout r)) \<le> 65536 + int (length ([nl] @ ''...[truncated at '' @ show_int 65536 @ '' bytes]'')))"
    using cap by (auto simp: docker_run_python_def sb_ok_def Let_def split: sum.splits option.splits)
  moreover have "case fst (subprocess_run_python outcome t workdir tmp) of
        Inl e \<Rightarrow> outcome = ProcRaises e
      | Inr r \<Rightarrow> (sb_ok r \<longleftrightarrow> (\<exists>out err. outcome = ProcDone out err 0))"
    by (auto simp: subprocess_run_python_def sb_ok_def Let_def split: proc_outcome.splits)
  moreover have "set (snd (subprocess_run_python outcome t workdir tmp)) = set tmp - {workdir}"
    by (auto simp: subprocess_run_python_def Let_def split: proc_outcome.splits)
  ultimately show ?thesis by blast
qed

end
