(* ===== verification/World.thy ===== *)
theory World
  imports Quota Pcb Sandbox
begin

text \<open>
  What a step of an agent shares with the rest of the system: the world (the quota, the swap
  directory, the clock, the LLM requests made and the code run so far, the executor's default
  pager) and the environment (the LLM clients at hand, what they answer, the kills that arrive
  while a request is in flight, the failures of the disk, the sandbox, the numeric tool). The LLM service behind the \<open>openai\<close> package is not part of the
  program: it is a parameter, a function of the number of the request and its arguments, and
  nothing is assumed of it. The driver \<open>gcos/backend/solar_client.py\<close> is modelled here.
\<close>

section \<open>Messages and answers\<close>

record chat_message =
  msg_role :: string
  msg_content :: string

definition mk_message :: "string \<Rightarrow> string \<Rightarrow> chat_message" where
  "mk_message r c = \<lparr>msg_role = r, msg_content = c\<rparr>"

record chat_result =
  cr_content :: string
  cr_prompt_tokens :: int
  cr_completion_tokens :: int
  cr_total_tokens :: int
  cr_model :: string

text \<open>A client: the outcome of the n-th request, given messages, \<open>max_tokens\<close> and timeout.\<close>

type_synonym client = "nat \<Rightarrow> chat_message list \<Rightarrow> int \<Rightarrow> real \<Rightarrow> py_exc + chat_result"

section \<open>The Solar driver\<close>

record solar_config =
  sc_api_key :: string
  sc_base_url :: string
  sc_model :: string

definition solar_config_env :: "(string \<Rightarrow> string option) \<Rightarrow> solar_config" where
  "solar_config_env getenv =
     \<lparr>sc_api_key = (case getenv ''UPSTAGE_API_KEY'' of None \<Rightarrow> '''' | Some v \<Rightarrow> v),
      sc_base_url = (case getenv ''UPSTAGE_BASE_URL'' of
        None \<Rightarrow> ''https://api.upstage.ai/v1'' | Some v \<Rightarrow> v),
      sc_model = (case getenv ''UPSTAGE_MODEL'' of None \<Rightarrow> ''solar-pro2'' | Some v \<Rightarrow> v)\<rparr>"

definition solar_validate :: "solar_config \<Rightarrow> py_exc option" where
  "solar_validate c =
     (if sc_api_key c = '''' then
        Some (OtherExc ''RuntimeError''
          ''UPSTAGE_API_KEY is not set. Copy .env.example to .env and fill it in.'')
      else None)"

text \<open>A completion of the SDK: the content of each choice and the usage, either of which may be missing.\<close>

record sdk_usage =
  su_prompt_tokens :: int
  su_completion_tokens :: int
  su_total_tokens :: int

record sdk_completion =
  sd_choices :: "string option list"
  sd_usage :: "sdk_usage option"

text \<open>The request of the SDK: model, messages, temperature, \<open>max_tokens\<close>, timeout.\<close>

type_synonym sdk = "nat \<Rightarrow> string \<Rightarrow> chat_message list \<Rightarrow> real \<Rightarrow> int \<Rightarrow> real \<Rightarrow> py_exc + sdk_completion"

definition solar_chat :: "solar_config \<Rightarrow> sdk \<Rightarrow> real \<Rightarrow> client" where
  "solar_chat c create temperature n messages max_tok timeout =
     (case create n (sc_model c) messages temperature max_tok timeout of
        Inl e \<Rightarrow> Inl e
      | Inr resp \<Rightarrow>
          (case sd_choices resp of
             [] \<Rightarrow> Inl (OtherExc ''IndexError'' ''list index out of range'')
           | choice # _ \<Rightarrow>
               Inr \<lparr>cr_content = (case choice of None \<Rightarrow> '''' | Some s \<Rightarrow> s),
                    cr_prompt_tokens = (case sd_usage resp of None \<Rightarrow> 0 | Some u \<Rightarrow> su_prompt_tokens u),
                    cr_completion_tokens =
                      (case sd_usage resp of None \<Rightarrow> 0 | Some u \<Rightarrow> su_completion_tokens u),
                    cr_total_tokens = (case sd_usage resp of None \<Rightarrow> 0 | Some u \<Rightarrow> su_total_tokens u),
                    cr_model = sc_model c\<rparr>))"

definition solar_client_init :: "solar_config \<Rightarrow> sdk \<Rightarrow> py_exc + client" where
  "solar_client_init c create =
     (case solar_validate c of Some e \<Rightarrow> Inl e | None \<Rightarrow> Inr (solar_chat c create (1/5)))"

section \<open>World and environment\<close>

text \<open>The value of a JSON field, as far as the program writes any.\<close>

datatype json = JStr string | JInt int | JBool bool | JNum real

type_synonym json_obj = "(string \<times> json) list"

text \<open>
  \<open>w_ran\<close> lists the runs of the sandbox so far: code, timeout and CPU shares.
  \<open>w_default_pager\<close> is the module variable of the executor. \<open>w_disk\<close> maps the directory (a PID) and the file name to the list of JSON objects in the
  file. \<open>w_clock\<close> gives the successive readings of \<open>time.time()\<close>, \<open>w_tick\<close> the
  number of readings so far.
\<close>

record world =
  w_quota :: quota
  w_disk :: "((pid \<times> string) \<times> json_obj list) list"
  w_clock :: "nat \<Rightarrow> time"
  w_tick :: nat
  w_calls :: nat
  w_ran :: "(string \<times> real \<times> int) list"
  w_default_pager :: "context_pager option"

text \<open>
  \<open>e_client\<close> is the client the worker holds; \<open>e_factory\<close> the outcome of the
  summarizer's client factory (\<open>Inr None\<close>: there is none, or it returns \<open>None\<close>);
  \<open>e_solar\<close> the outcome of \<open>SolarClient()\<close>. \<open>e_kill n\<close> is the kill or reap that
  reaches the agent while request \<open>n\<close> is in flight, if any, with its time and reason.
  \<open>e_io n\<close> is the failure of a disk write at clock tick \<open>n\<close>, if any.
  \<open>e_sandbox\<close> is the outcome of building the sandbox runner, and what its n-th run does.
  \<open>e_calc\<close> is the parser of the language (\<open>ast.parse\<close>), floating-point power and the
  text of a float, which the arithmetic tool uses.
\<close>

text \<open>The expressions \<open>ast.parse\<close> returns, as far as the arithmetic tool tells them apart.\<close>

datatype py_num = PInt int | PFloat real

datatype py_op = OpAdd | OpSub | OpMult | OpDiv | OpFloorDiv | OpMod | OpPow | OpUSub | OpUAdd | OpOther

datatype py_ast = ANum py_num | ABin py_op py_ast py_ast | AUn py_op py_ast | AOther

record calc_env =
  ce_parse :: "string \<Rightarrow> py_exc + py_ast"
  ce_pow :: "real \<Rightarrow> real \<Rightarrow> py_exc + py_num"
  ce_show :: "real \<Rightarrow> string"

record env =
  e_client :: "client option"
  e_factory :: "py_exc + client option"
  e_solar :: "py_exc + client"
  e_kill :: "nat \<Rightarrow> (time \<times> string) option"
  e_io :: "nat \<Rightarrow> py_exc option"
  e_sandbox :: "py_exc + (nat \<Rightarrow> string \<Rightarrow> real \<Rightarrow> int \<Rightarrow> py_exc + sandbox_result)"
  e_calc :: calc_env

type_synonym step_state = "agent \<times> world"

definition now_of :: "world \<Rightarrow> time" where
  "now_of w = w_clock w (w_tick w)"

definition tick :: "world \<Rightarrow> world" where
  "tick w = w\<lparr>w_tick := Suc (w_tick w)\<rparr>"

text \<open>A transition of the agent at the next reading of the clock.\<close>

definition do_move :: "agent_state \<Rightarrow> step_state \<Rightarrow> step_state" where
  "do_move s st = (move (now_of (snd st)) s (fst st), tick (snd st))"

text \<open>A transition followed by the assignment of \<open>pcb.error\<close>.\<close>

definition do_fail :: "agent_state \<Rightarrow> string \<Rightarrow> step_state \<Rightarrow> step_state" where
  "do_fail s e st = (set_error e (fst (do_move s st)), snd (do_move s st))"

definition apply_kill :: "(time \<times> string) option \<Rightarrow> agent \<Rightarrow> agent" where
  "apply_kill k a =
     (case k of
        None \<Rightarrow> a
      | Some (t, reason) \<Rightarrow> if is_terminal a then a else set_error reason (move t ZOMBIE a))"

text \<open>
  A blocking request: it is numbered, and a kill may land on the agent before it returns.
\<close>

definition do_chat ::
  "env \<Rightarrow> client \<Rightarrow> chat_message list \<Rightarrow> int \<Rightarrow> real \<Rightarrow> step_state \<Rightarrow> step_state \<times> (py_exc + chat_result)"
  where
  "do_chat env c messages max_tok timeout st =
     (let n = w_calls (snd st)
      in ((apply_kill (e_kill env n) (fst st), (snd st)\<lparr>w_calls := Suc n\<rparr>),
          c n messages max_tok timeout))"

section \<open>Lemmas\<close>

lemma tick_frame [simp, world_simps]:
  "w_quota (tick w) = w_quota w" "w_disk (tick w) = w_disk w" "w_clock (tick w) = w_clock w"
  "w_calls (tick w) = w_calls w" "w_ran (tick w) = w_ran w"
  "w_default_pager (tick w) = w_default_pager w"
  by (simp_all add: tick_def)

text \<open>A kill changes the state, the finish time and the error, and only of a live agent.\<close>

lemma apply_kill_frame [simp, pcb_simps]:
  "acb_pid (apply_kill k a) = acb_pid a"
  "acb_prompt (apply_kill k a) = acb_prompt a"
  "acb_name (apply_kill k a) = acb_name a"
  "acb_parent_pid (apply_kill k a) = acb_parent_pid a"
  "acb_children (apply_kill k a) = acb_children a"
  "acb_capability (apply_kill k a) = acb_capability a"
  "acb_quota_remaining (apply_kill k a) = acb_quota_remaining a"
  "acb_context_pages (apply_kill k a) = acb_context_pages a"
  "acb_scratch (apply_kill k a) = acb_scratch a"
  "acb_pager (apply_kill k a) = acb_pager a"
  "acb_pipe_to (apply_kill k a) = acb_pipe_to a"
  "acb_input_from (apply_kill k a) = acb_input_from a"
  "acb_created_at (apply_kill k a) = acb_created_at a"
  "acb_priority (apply_kill k a) = acb_priority a"
  "acb_result (apply_kill k a) = acb_result a"
  "acb_llm_calls_used (apply_kill k a) = acb_llm_calls_used a"
  "acb_tokens_used (apply_kill k a) = acb_tokens_used a"
  by (auto simp: apply_kill_def split: option.splits)

lemma apply_kill_terminal [simp]: "is_terminal a \<Longrightarrow> apply_kill k a = a"
  by (auto simp: apply_kill_def split: option.splits)

lemma is_terminal_apply_kill: "is_terminal (apply_kill k a) \<longleftrightarrow> is_terminal a \<or> k \<noteq> None"
  by (auto simp: apply_kill_def split: option.splits)

lemma apply_kill_state:
  "acb_state (apply_kill k a) = (if k \<noteq> None \<and> \<not> is_terminal a then ZOMBIE else acb_state a)"
  by (auto simp: apply_kill_def move_state split: option.splits)

lemma do_chat_simps [simp]:
  "snd (fst (do_chat env c m x y st)) = (snd st)\<lparr>w_calls := Suc (w_calls (snd st))\<rparr>"
  "fst (fst (do_chat env c m x y st)) = apply_kill (e_kill env (w_calls (snd st))) (fst st)"
  "snd (do_chat env c m x y st) = c (w_calls (snd st)) m x y"
  by (simp_all add: do_chat_def Let_def)

lemma do_move_simps [simp]:
  "fst (do_move s st) = move (now_of (snd st)) s (fst st)"
  "snd (do_move s st) = tick (snd st)"
  by (simp_all add: do_move_def)

lemma do_fail_simps [simp]:
  "fst (do_fail s e st) = set_error e (move (now_of (snd st)) s (fst st))"
  "snd (do_fail s e st) = tick (snd st)"
  by (simp_all add: do_fail_def)

text \<open>
  The driver refuses to start without an API key, and a request fails only with the SDK's
  exception or on an answer without choices.
\<close>

lemma solar_client_init_fails: "(\<exists>e. solar_client_init c create = Inl e) \<longleftrightarrow> sc_api_key c = ''''"
  by (auto simp: solar_client_init_def solar_validate_def split: option.splits)

lemma solar_chat_fails:
  "solar_chat c create temp n ms mt to = Inl e \<longleftrightarrow>
     create n (sc_model c) ms temp mt to = Inl e
     \<or> (\<exists>resp. create n (sc_model c) ms temp mt to = Inr resp \<and> sd_choices resp = []
          \<and> e = OtherExc ''IndexError'' ''list index out of range'')"
  by (auto simp: solar_chat_def split: sum.splits list.splits)

section \<open>What memory management may change of an agent\<close>

text \<open>
  \<open>paged a b\<close>: \<open>b\<close> is \<open>a\<close> with other context pages and, perhaps, killed on the
  way.
\<close>

definition paged :: "agent \<Rightarrow> agent \<Rightarrow> bool" where
  "paged a b \<longleftrightarrow> (\<exists>k ps. b = (apply_kill k a)\<lparr>acb_context_pages := ps\<rparr>)"

lemma apply_kill_pages:
  "apply_kill k (a\<lparr>acb_context_pages := ps\<rparr>) = (apply_kill k a)\<lparr>acb_context_pages := ps\<rparr>"
  by (auto simp: apply_kill_def is_terminal_def set_error_def move_def transition_def Let_def
      split: option.splits)

lemma apply_kill_twice:
  "apply_kill l (apply_kill k a) = apply_kill (if k = None then l else k) a"
  by (cases k) (auto simp: apply_kill_def split: option.splits)

lemma paged_refl [simp]: "paged a a"
  unfolding paged_def by (rule exI [of _ None], rule exI [of _ "acb_context_pages a"])
    (simp add: apply_kill_def)

lemma pagedI: "paged a ((apply_kill k a)\<lparr>acb_context_pages := ps\<rparr>)"
  by (auto simp: paged_def)

lemma pagedE:
  assumes "paged a b"
  obtains k ps where "b = (apply_kill k a)\<lparr>acb_context_pages := ps\<rparr>"
  using assms by (auto simp: paged_def)

lemma paged_pages: "paged a b \<Longrightarrow> paged a (b\<lparr>acb_context_pages := ps\<rparr>)"
  by (erule pagedE) (simp add: pagedI)

lemma paged_kill: "paged a b \<Longrightarrow> paged a (apply_kill k b)"
  by (erule pagedE) (simp only: apply_kill_pages apply_kill_twice pagedI)

lemma paged_trans: "paged a b \<Longrightarrow> paged b c \<Longrightarrow> paged a c"
  by (erule pagedE, erule pagedE) (simp add: apply_kill_pages apply_kill_twice pagedI)

lemma pages_frame [simp, pcb_simps]:
  "acb_pid (a\<lparr>acb_context_pages := ps\<rparr>) = acb_pid a"
  "is_terminal (a\<lparr>acb_context_pages := ps\<rparr>) = is_terminal a"
  by (simp_all add: is_terminal_def)

text \<open>Everything else is as before: identity, task, budgets, counters, result, pipes.\<close>

lemma pagedD:
  assumes "paged a b"
  shows "acb_pid b = acb_pid a" "acb_prompt b = acb_prompt a" "acb_capability b = acb_capability a"
    "acb_quota_remaining b = acb_quota_remaining a" "acb_llm_calls_used b = acb_llm_calls_used a"
    "acb_tokens_used b = acb_tokens_used a" "acb_result b = acb_result a"
    "acb_scratch b = acb_scratch a" "acb_pager b = acb_pager a" "acb_pipe_to b = acb_pipe_to a"
    "acb_parent_pid b = acb_parent_pid a" "acb_children b = acb_children a"
    "acb_priority b = acb_priority a" "acb_created_at b = acb_created_at a"
    "is_terminal a \<Longrightarrow> acb_state b = acb_state a"
    "is_terminal b \<Longrightarrow> is_terminal a \<or> acb_state b = ZOMBIE"
    "acb_state b = acb_state a \<or> acb_state b = ZOMBIE"
    "acb_name b = acb_name a"
  using assms by (auto elim!: pagedE simp: apply_kill_state is_terminal_apply_kill split: if_splits)

end
