(* ===== verification/Eviction.thy ===== *)
theory Eviction
  imports World "HOL-Library.AList" "HOL-Library.List_Lexorder" "HOL-Library.Char_ord"
begin

text \<open>
  The eviction policies of the memory manager (\<open>gcos/memory/tokens.py\<close>,
  \<open>evict_lru.py\<close>, \<open>evict_summarize.py\<close>, \<open>swap.py\<close>). A policy works on the
  context pages of one agent and on the world (quota, LLM, disk, clock); it returns the
  number of pages freed or raises. \<open>json.dumps\<close> followed by \<open>json.loads\<close> is the
  identity on the objects the program writes, so a file holds the objects themselves.
\<close>

section \<open>Tokens\<close>

definition estimate_tokens :: "string \<Rightarrow> int" where
  "estimate_tokens text = (if text = '''' then 0 else max 1 (int (length text) div 4))"

definition page_tokens :: "context_page \<Rightarrow> int" where
  "page_tokens p = (if 0 < cp_tokens p then cp_tokens p else estimate_tokens (cp_content p))"

definition context_size :: "context_page list \<Rightarrow> int" where
  "context_size ps = sum_list (map page_tokens ps)"

section \<open>LRU\<close>

definition unpinned :: "agent \<Rightarrow> context_page list" where
  "unpinned a = filter (\<lambda>p. \<not> cp_pinned p) (acb_context_pages a)"

definition evict_lru :: "int \<Rightarrow> step_state \<Rightarrow> step_state \<times> (py_exc + int)" where
  "evict_lru min_keep st =
     (if int (length (unpinned (fst st))) \<le> min_keep then (st, Inr 0)
      else case unpinned (fst st) of
        [] \<Rightarrow> (st, Inl (OtherExc ''ValueError'' ''min() iterable argument is empty''))
      | p # ps \<Rightarrow>
          (let victim = min_key cp_last_access p ps
           in (((fst st)\<lparr>acb_context_pages := remove1 victim (acb_context_pages (fst st))\<rparr>,
                tick (snd st)), Inr 1)))"

section \<open>Summarize\<close>

definition summarize_system :: string where
  "summarize_system =
     ''You compress conversation history. Given a sequence of prior turns, ''
     @ ''produce 2-3 sentences that preserve key facts, names, numbers, and any ''
     @ ''decisions made. Do not add commentary. Do not invent details.''"

definition summarize_candidates :: "agent \<Rightarrow> context_page list" where
  "summarize_candidates a =
     filter (\<lambda>p. \<not> cp_pinned p \<and> \<not> cp_summarized p \<and> cp_role p \<noteq> ''system'') (acb_context_pages a)"

definition summarize_batch :: "int \<Rightarrow> agent \<Rightarrow> context_page list" where
  "summarize_batch batch_size a =
     slice_to batch_size (sort_key cp_last_access (summarize_candidates a))"

definition summarize_body :: "context_page list \<Rightarrow> string" where
  "summarize_body batch =
     join_with [nl, nl] (map (\<lambda>p. ''['' @ cp_role p @ ''] '' @ cp_content p) batch)"

text \<open>\<open>client or (factory() if factory else None)\<close>, then \<open>SolarClient()\<close>.\<close>

definition summarize_client :: "env \<Rightarrow> py_exc + client" where
  "summarize_client env =
     (case e_client env of
        Some c \<Rightarrow> Inr c
      | None \<Rightarrow> (case e_factory env of
                  Inl e \<Rightarrow> Inl e
                | Inr (Some c) \<Rightarrow> Inr c
                | Inr None \<Rightarrow> e_solar env))"

text \<open>\<open>self.quota.acquire(1)\<close> and \<open>refund(1)\<close>, when the policy is metered.\<close>

definition meter :: "bool \<Rightarrow> world \<Rightarrow> bool \<times> world" where
  "meter metered w =
     (if metered then (fst (acquire 1 (w_quota w)), w\<lparr>w_quota := snd (acquire 1 (w_quota w))\<rparr>)
      else (True, w))"

definition unmeter :: "bool \<Rightarrow> world \<Rightarrow> world" where
  "unmeter metered w = (if metered then w\<lparr>w_quota := refund 1 (w_quota w)\<rparr> else w)"

definition summary_page :: "nat \<Rightarrow> chat_result \<Rightarrow> time \<Rightarrow> context_page" where
  "summary_page n r now =
     (let text = str_strip (cr_content r);
          tokens = (if 0 < cr_completion_tokens r then cr_completion_tokens r else estimate_tokens text)
      in new_page ''system'' (''[Summary of '' @ show_nat n @ '' prior turns]'' @ [nl] @ text)
           tokens False True now)"

definition replace_batch :: "context_page list \<Rightarrow> context_page \<Rightarrow> context_page list \<Rightarrow> context_page list"
  where
  "replace_batch batch page pages =
     list_insert (index_of (hd batch) pages) page (remove_all batch pages)"

definition evict_summarize ::
  "env \<Rightarrow> int \<Rightarrow> int \<Rightarrow> bool \<Rightarrow> step_state \<Rightarrow> step_state \<times> (py_exc + int)" where
  "evict_summarize env batch_size max_summary_tokens metered st =
     (if int (length (summarize_candidates (fst st))) < batch_size then (st, Inr 0)
      else
        let batch = summarize_batch batch_size (fst st);
            w1 = snd (meter metered (snd st))
        in if \<not> fst (meter metered (snd st)) then ((fst st, w1), Inr 0)
           else case summarize_client env of
             Inl e \<Rightarrow> ((fst st, w1), Inl e)
           | Inr c \<Rightarrow>
               (let out = do_chat env c
                      [mk_message ''system'' summarize_system, mk_message ''user'' (summarize_body batch)]
                      max_summary_tokens 20 (fst st, w1);
                    st2 = fst out
                in case snd out of
                     Inl e \<Rightarrow> ((fst st2, unmeter metered (snd st2)), Inl e)
                   | Inr res \<Rightarrow>
                       (if batch = []
                        then (st2, Inl (OtherExc ''IndexError'' ''list index out of range''))
                        else
                          (((fst st2)\<lparr>acb_context_pages :=
                              replace_batch batch
                                (summary_page (length batch) res (now_of (snd st2)))
                                (acb_context_pages (fst st2))\<rparr>, tick (snd st2)),
                           Inr (batch_size - 1)))))"

section \<open>Swap\<close>

definition serialize :: "context_page \<Rightarrow> json_obj" where
  "serialize p =
     [(''role'', JStr (cp_role p)), (''content'', JStr (cp_content p)),
      (''tokens'', JInt (cp_tokens p)), (''pinned'', JBool (cp_pinned p)),
      (''summarized'', JBool (cp_summarized p)), (''last_access'', JNum (cp_last_access p))]"

text \<open>
  \<open>d["key"]\<close> raises \<open>KeyError\<close> on an absent key, \<open>d.get(key, default)\<close> does
  not. A value of another type than the program ever writes is reported as \<open>TypeError\<close>.
\<close>

definition type_error :: py_exc where
  "type_error = OtherExc ''TypeError'' ''unexpected JSON value''"

definition get_str :: "json_obj \<Rightarrow> string \<Rightarrow> py_exc + string" where
  "get_str d k =
     (case map_of d k of
        None \<Rightarrow> Inl (OtherExc ''KeyError'' k)
      | Some (JStr s) \<Rightarrow> Inr s
      | Some _ \<Rightarrow> Inl type_error)"

definition get_int :: "json_obj \<Rightarrow> string \<Rightarrow> int \<Rightarrow> py_exc + int" where
  "get_int d k dflt =
     (case map_of d k of None \<Rightarrow> Inr dflt | Some (JInt i) \<Rightarrow> Inr i | Some _ \<Rightarrow> Inl type_error)"

definition get_bool :: "json_obj \<Rightarrow> string \<Rightarrow> bool \<Rightarrow> py_exc + bool" where
  "get_bool d k dflt =
     (case map_of d k of None \<Rightarrow> Inr dflt | Some (JBool b) \<Rightarrow> Inr b | Some _ \<Rightarrow> Inl type_error)"

definition get_num :: "json_obj \<Rightarrow> string \<Rightarrow> real \<Rightarrow> py_exc + real" where
  "get_num d k dflt =
     (case map_of d k of None \<Rightarrow> Inr dflt | Some (JNum x) \<Rightarrow> Inr x | Some _ \<Rightarrow> Inl type_error)"

definition bind_sum :: "'e + 'a \<Rightarrow> ('a \<Rightarrow> 'e + 'b) \<Rightarrow> 'e + 'b" where
  "bind_sum x f = (case x of Inl e \<Rightarrow> Inl e | Inr a \<Rightarrow> f a)"

definition deserialize :: "time \<Rightarrow> json_obj \<Rightarrow> py_exc + context_page" where
  "deserialize now d =
     bind_sum (get_str d ''role'') (\<lambda>role.
     bind_sum (get_str d ''content'') (\<lambda>content.
     bind_sum (get_int d ''tokens'' 0) (\<lambda>tokens.
     bind_sum (get_bool d ''pinned'' False) (\<lambda>pinned.
     bind_sum (get_bool d ''summarized'' False) (\<lambda>summarized.
     bind_sum (get_num d ''last_access'' now) (\<lambda>last_access.
       Inr (new_page role content tokens pinned summarized last_access)))))))"

definition swap_file_name :: "time \<Rightarrow> string" where
  "swap_file_name now = fmt_fixed 6 now @ ''.json''"

definition swap_batch :: "int \<Rightarrow> agent \<Rightarrow> context_page list" where
  "swap_batch batch_size a = slice_to batch_size (sort_key cp_last_access (unpinned a))"

definition evict_swap :: "env \<Rightarrow> int \<Rightarrow> int \<Rightarrow> step_state \<Rightarrow> step_state \<times> (py_exc + int)" where
  "evict_swap env batch_size min_keep st =
     (if int (length (unpinned (fst st))) \<le> min_keep then (st, Inr 0)
      else
        let batch = swap_batch batch_size (fst st);
            file = (acb_pid (fst st), swap_file_name (now_of (snd st)))
        in case e_io env (w_tick (snd st)) of
             Some e \<Rightarrow> ((fst st, tick (snd st)), Inl e)
           | None \<Rightarrow>
               (((fst st)\<lparr>acb_context_pages := remove_all batch (acb_context_pages (fst st))\<rparr>,
                 (tick (snd st))\<lparr>w_disk := AList.update file (map serialize batch) (w_disk (snd st))\<rparr>),
                Inr (int (length batch))))"

text \<open>The JSON files of a PID's directory, sorted by name; \<open>Path.suffix\<close> is the text after the last dot.\<close>

definition json_suffix :: "string \<Rightarrow> bool" where
  "json_suffix name =
     (length name > 5 \<and> drop (length name - 5) name = ''.json'')"

definition swap_files :: "pid \<Rightarrow> world \<Rightarrow> (string \<times> json_obj list) list" where
  "swap_files p w =
     sort_key fst (map (\<lambda>((q, name), ds). (name, ds))
       (filter (\<lambda>((q, name), ds). q = p \<and> json_suffix name) (w_disk w)))"

fun load_pages :: "json_obj list \<Rightarrow> step_state \<Rightarrow> step_state \<times> (py_exc + int)" where
  "load_pages [] st = (st, Inr 0)"
| "load_pages (d # ds) st =
     (case deserialize (now_of (snd st)) d of
        Inl e \<Rightarrow> ((fst st, tick (snd st)), Inl e)
      | Inr p \<Rightarrow>
          (let (st', r) = load_pages ds
                 ((fst st)\<lparr>acb_context_pages := acb_context_pages (fst st) @ [p]\<rparr>, tick (snd st))
           in (st', case r of Inl e \<Rightarrow> Inl e | Inr n \<Rightarrow> Inr (n + 1))))"

definition swap_in :: "step_state \<Rightarrow> step_state \<times> (py_exc + int)" where
  "swap_in st = load_pages (concat (map snd (swap_files (acb_pid (fst st)) (snd st)))) st"

section \<open>One policy\<close>

fun evict :: "env \<Rightarrow> eviction_policy \<Rightarrow> step_state \<Rightarrow> step_state \<times> (py_exc + int)" where
  "evict env (LRU min_keep) st = evict_lru min_keep st"
| "evict env (Summarize batch_size max_tok metered) st =
     evict_summarize env batch_size max_tok metered st"
| "evict env (Swap batch_size min_keep) st = evict_swap env batch_size min_keep st"

fun policy_name :: "eviction_policy \<Rightarrow> string" where
  "policy_name (LRU k) = ''lru''"
| "policy_name (Summarize b m q) = ''summarize''"
| "policy_name (Swap b k) = ''swap''"

section \<open>The contract of an evictor\<close>

text \<open>
  What the pager relies on: a policy touches only the context pages (a kill may arrive
  meanwhile), never a pinned page, and keeps the clock.
\<close>

locale evictor =
  fixes ev :: "'p \<Rightarrow> step_state \<Rightarrow> step_state \<times> (py_exc + int)"
  assumes ev_paged: "paged (fst st) (fst (fst (ev p st)))"
    and ev_pinned: "filter cp_pinned (acb_context_pages (fst (fst (ev p st))))
          = filter cp_pinned (acb_context_pages (fst st))"
    and ev_clock: "w_clock (snd (fst (ev p st))) = w_clock (snd st)"
    and ev_ran: "w_ran (snd (fst (ev p st))) = w_ran (snd st)"
begin

text \<open>Any sequence of evictions keeps the pinned pages.\<close>

lemma evs_pinned:
  "filter cp_pinned (acb_context_pages (fst (fold (\<lambda>p s. fst (ev p s)) ps st)))
     = filter cp_pinned (acb_context_pages (fst st))"
  by (induction ps arbitrary: st) (simp_all add: ev_pinned)

end

section \<open>Lemmas\<close>

lemma unpinned_set: "p \<in> set (unpinned a) \<longleftrightarrow> p \<in> set (acb_context_pages a) \<and> \<not> cp_pinned p"
  by (auto simp: unpinned_def)

lemma mset_sub_filter: "mset (slice_to n (sort_key f (filter P xs))) \<subseteq># mset xs"
proof -
  have "mset (slice_to n (sort_key f (filter P xs))) \<subseteq># mset (sort_key f (filter P xs))"
    by (rule slice_to_mset)
  also have "mset (sort_key f (filter P xs)) \<subseteq># mset xs"
    by (simp add: multiset_filter_subset)
  finally show ?thesis .
qed

lemma set_slice_sort: "set (slice_to n (sort_key f xs)) \<subseteq> set xs"
  using set_mset_mono [OF slice_to_mset [of n "sort_key f xs"]] by simp

lemma swap_batch_facts:
  "set (swap_batch b a) \<subseteq> set (unpinned a)" "mset (swap_batch b a) \<subseteq># mset (acb_context_pages a)"
  unfolding swap_batch_def unpinned_def by (rule set_slice_sort, rule mset_sub_filter)

lemma summarize_batch_facts:
  "set (summarize_batch b a) \<subseteq> set (summarize_candidates a)"
  "mset (summarize_batch b a) \<subseteq># mset (acb_context_pages a)"
  unfolding summarize_batch_def summarize_candidates_def
  by (rule set_slice_sort, rule mset_sub_filter)

lemma length_summarize_batch:
  "0 \<le> b \<Longrightarrow> b \<le> int (length (summarize_candidates a)) \<Longrightarrow> int (length (summarize_batch b a)) = b"
  unfolding summarize_batch_def by (rule length_slice_to) simp_all

lemma filter_replace_batch:
  assumes "\<forall>p \<in> set batch. \<not> P p" and "\<not> P page"
  shows "filter P (replace_batch batch page pages) = filter P pages"
  using assms by (simp add: replace_batch_def filter_list_insert filter_remove_all)

lemma unpinned_kill [simp]:
  "unpinned (apply_kill k a) = unpinned a"
  "summarize_candidates (apply_kill k a) = summarize_candidates a"
  "summarize_batch b (apply_kill k a) = summarize_batch b a"
  by (simp_all add: unpinned_def summarize_candidates_def summarize_batch_def)

lemma meter_frame [simp, world_simps]:
  "w_clock (snd (meter m w)) = w_clock w" "w_disk (snd (meter m w)) = w_disk w"
  "w_calls (snd (meter m w)) = w_calls w" "w_tick (snd (meter m w)) = w_tick w"
  "w_ran (snd (meter m w)) = w_ran w" "w_ran (unmeter m w) = w_ran w"
  "w_clock (unmeter m w) = w_clock w" "w_disk (unmeter m w) = w_disk w"
  "w_calls (unmeter m w) = w_calls w" "w_tick (unmeter m w) = w_tick w"
  by (simp_all add: meter_def unmeter_def)

text \<open>The outcomes of the three policies.\<close>

lemma evict_lru_cases:
  obtains "evict_lru k st = (st, Inr 0)" and "int (length (unpinned (fst st))) \<le> k"
  | e where "evict_lru k st = (st, Inl e)" and "unpinned (fst st) = []" and "k < 0"
  | v where "v \<in> set (unpinned (fst st))" and "k < int (length (unpinned (fst st)))"
      and "\<forall>p \<in> set (unpinned (fst st)). cp_last_access v \<le> cp_last_access p"
      and "evict_lru k st =
        (((fst st)\<lparr>acb_context_pages := remove1 v (acb_context_pages (fst st))\<rparr>, tick (snd st)), Inr 1)"
proof (cases "int (length (unpinned (fst st))) \<le> k")
  case True
  then show ?thesis using that(1) by (simp add: evict_lru_def)
next
  case False
  show ?thesis
  proof (cases "unpinned (fst st)")
    case Nil
    then show ?thesis using that(2) False by (simp add: evict_lru_def)
  next
    case (Cons p ps)
    then show ?thesis
      using that(3) [of "min_key cp_last_access p ps"] False min_key_mem [of cp_last_access p ps]
        min_key_le [of _ p ps cp_last_access]
      by (simp add: evict_lru_def Let_def)
  qed
qed

lemma evict_swap_cases:
  obtains "evict_swap env b k st = (st, Inr 0)" and "int (length (unpinned (fst st))) \<le> k"
  | e where "evict_swap env b k st = ((fst st, tick (snd st)), Inl e)"
      and "e_io env (w_tick (snd st)) = Some e"
  | "k < int (length (unpinned (fst st)))"
      and "evict_swap env b k st =
        (((fst st)\<lparr>acb_context_pages := remove_all (swap_batch b (fst st)) (acb_context_pages (fst st))\<rparr>,
          (tick (snd st))\<lparr>w_disk := AList.update (acb_pid (fst st), swap_file_name (now_of (snd st)))
             (map serialize (swap_batch b (fst st))) (w_disk (snd st))\<rparr>),
         Inr (int (length (swap_batch b (fst st)))))"
proof (cases "int (length (unpinned (fst st))) \<le> k")
  case True
  then show ?thesis using that(1) by (simp add: evict_swap_def)
next
  case False
  then show ?thesis
    using that(2,3) by (cases "e_io env (w_tick (snd st))") (simp_all add: evict_swap_def Let_def)
qed

lemma evict_summarize_cases:
  fixes env b mt m st
  defines "w1 \<equiv> snd (meter m (snd st))"
  defines "w2 \<equiv> w1\<lparr>w_calls := Suc (w_calls w1)\<rparr>"
  defines "a2 \<equiv> apply_kill (e_kill env (w_calls w1)) (fst st)"
  obtains "evict_summarize env b mt m st = (st, Inr 0)"
      and "int (length (summarize_candidates (fst st))) < b"
  | "evict_summarize env b mt m st = ((fst st, w1), Inr 0)" and "\<not> fst (meter m (snd st))"
  | e where "evict_summarize env b mt m st = ((fst st, w1), Inl e)"
      and "summarize_client env = Inl e" and "fst (meter m (snd st))"
  | c e where "evict_summarize env b mt m st = ((a2, unmeter m w2), Inl e)"
      and "summarize_client env = Inr c" and "fst (meter m (snd st))"
  | c e where "evict_summarize env b mt m st = ((a2, w2), Inl e)" and "b \<le> 0"
  | c res where "b \<le> int (length (summarize_candidates (fst st)))"
      and "summarize_client env = Inr c" and "fst (meter m (snd st))"
      and "summarize_batch b (fst st) \<noteq> []"
      and "evict_summarize env b mt m st =
        ((a2\<lparr>acb_context_pages := replace_batch (summarize_batch b (fst st))
              (summary_page (length (summarize_batch b (fst st))) res (now_of w2))
              (acb_context_pages (fst st))\<rparr>, tick w2), Inr (b - 1))"
proof (cases "int (length (summarize_candidates (fst st))) < b")
  case True
  then show ?thesis using that(1) by (simp add: evict_summarize_def)
next
  case enough: False
  show ?thesis
  proof (cases "fst (meter m (snd st))")
    case False
    then show ?thesis
      using that(2) enough by (simp add: evict_summarize_def w1_def Let_def)
  next
    case granted: True
    show ?thesis
    proof (cases "summarize_client env")
      case (Inl e)
      then show ?thesis
        using that(3) enough granted by (simp add: evict_summarize_def w1_def Let_def)
    next
      case (Inr c)
      let ?batch = "summarize_batch b (fst st)"
      let ?out = "c (w_calls w1) [mk_message ''system'' summarize_system,
        mk_message ''user'' (summarize_body ?batch)] mt 20"
      have eq: "evict_summarize env b mt m st =
          (case ?out of
             Inl e \<Rightarrow> ((a2, unmeter m w2), Inl e)
           | Inr res \<Rightarrow>
               (if ?batch = [] then ((a2, w2), Inl (OtherExc ''IndexError'' ''list index out of range''))
                else ((a2\<lparr>acb_context_pages := replace_batch ?batch
                  (summary_page (length ?batch) res (now_of w2)) (acb_context_pages (fst st))\<rparr>, tick w2),
                  Inr (b - 1))))"
        using enough granted Inr
        by (simp add: evict_summarize_def do_chat_def w1_def w2_def a2_def Let_def split: sum.split)
      show ?thesis
      proof (cases ?out)
        case (Inl e)
        with eq show ?thesis using that(4) Inr granted by simp
      next
        case res: (Inr res)
        show ?thesis
        proof (cases "?batch = []")
          case True
          then have "b \<le> 0"
            using length_summarize_batch [of b "fst st"] enough by force
          with eq res True show ?thesis using that(5) by simp
        next
          case False
          with eq res enough Inr granted show ?thesis using that(6) [of c res] by simp
        qed
      qed
    qed
  qed
qed

interpretation evs: evictor "evict env" for env
proof unfold_locales
  fix p st
  show "paged (fst st) (fst (fst (evict env p st)))"
  proof (cases p)
    case (LRU k)
    then show ?thesis
      by (cases rule: evict_lru_cases [of k st]) (simp_all add: paged_pages)
  next
    case (Summarize b mt m)
    then show ?thesis
      by (cases rule: evict_summarize_cases [of env b mt m st]) (simp_all add: paged_pages paged_kill)
  next
    case (Swap b k)
    then show ?thesis
      by (cases rule: evict_swap_cases [of env b k st]) (simp_all add: paged_pages)
  qed
  show "filter cp_pinned (acb_context_pages (fst (fst (evict env p st))))
      = filter cp_pinned (acb_context_pages (fst st))"
  proof (cases p)
    case (LRU k)
    then show ?thesis
      by (cases rule: evict_lru_cases [of k st]) (simp_all add: unpinned_set filter_remove1_neg)
  next
    case (Summarize b mt m)
    have "\<forall>p \<in> set (summarize_batch b (fst st)). \<not> cp_pinned p"
      using summarize_batch_facts(1) [of b "fst st"] by (auto simp: summarize_candidates_def)
    with Summarize show ?thesis
      by (cases rule: evict_summarize_cases [of env b mt m st])
         (simp_all add: filter_replace_batch summary_page_def new_page_def Let_def)
  next
    case (Swap b k)
    have "\<forall>p \<in> set (swap_batch b (fst st)). \<not> cp_pinned p"
      using swap_batch_facts(1) [of b "fst st"] by (auto simp: unpinned_set)
    with Swap show ?thesis
      by (cases rule: evict_swap_cases [of env b k st]) (simp_all add: filter_remove_all)
  qed
  have "w_clock (snd (fst (evict env p st))) = w_clock (snd st)
      \<and> w_ran (snd (fst (evict env p st))) = w_ran (snd st)"
  proof (cases p)
    case (LRU k)
    then show ?thesis by (cases rule: evict_lru_cases [of k st]) simp_all
  next
    case (Summarize b mt m)
    then show ?thesis by (cases rule: evict_summarize_cases [of env b mt m st]) simp_all
  next
    case (Swap b k)
    then show ?thesis by (cases rule: evict_swap_cases [of env b k st]) simp_all
  qed
  then show "w_clock (snd (fst (evict env p st))) = w_clock (snd st)"
    and "w_ran (snd (fst (evict env p st))) = w_ran (snd st)" by simp_all
qed

text \<open>The swap area of a PID: the objects of its files.\<close>

definition swapped :: "pid \<Rightarrow> world \<Rightarrow> json_obj multiset" where
  "swapped p w = mset (concat (map snd (swap_files p w)))"

text \<open>Every object on the disk is a serialized page.\<close>

definition disk_ok :: "world \<Rightarrow> bool" where
  "disk_ok w \<longleftrightarrow> (\<forall>f ds. (f, ds) \<in> set (w_disk w) \<longrightarrow> (\<exists>ps. ds = map serialize ps))"

lemma deserialize_serialize [simp]: "deserialize now (serialize p) = Inr p"
  by (simp add: deserialize_def serialize_def bind_sum_def get_str_def get_int_def get_bool_def
      get_num_def new_page_def)

lemma serialize_inj: "inj serialize"
  by (rule injI) (metis deserialize_serialize sum.inject(2))

lemma json_suffix_swap_file: "json_suffix (swap_file_name now)"
  by (simp add: json_suffix_def swap_file_name_def fmt_fixed_def Let_def)

lemma alist_update_fresh: "k \<notin> fst ` set xs \<Longrightarrow> AList.update k v xs = xs @ [(k, v)]"
  by (induction xs) auto

lemma mset_concat_sort: "mset (concat (map snd (sort_key f xs))) = mset (concat (map snd xs))"
  by (simp flip: sum_mset_sum_list add: mset_concat)

lemma swapped_update:
  assumes "(p, name) \<notin> fst ` set (w_disk w)" and "json_suffix name"
  shows "swapped p (w\<lparr>w_disk := AList.update (p, name) ds (w_disk w)\<rparr>) = swapped p w + mset ds"
  using assms by (simp add: swapped_def swap_files_def alist_update_fresh mset_concat_sort)

lemma in_alist_update: "x \<in> set (AList.update k v xs) \<Longrightarrow> x = (k, v) \<or> x \<in> set xs"
  by (induction xs) (auto split: if_splits)

lemma disk_ok_update:
  "disk_ok w \<Longrightarrow> disk_ok (w\<lparr>w_disk := AList.update f (map serialize ps) (w_disk w)\<rparr>)"
  unfolding disk_ok_def by (auto dest!: in_alist_update)

lemma load_pages_serialized:
  "\<exists>w'. load_pages (map serialize ps) (a, w)
      = ((a\<lparr>acb_context_pages := acb_context_pages a @ ps\<rparr>, w'), Inr (int (length ps)))
      \<and> w_disk w' = w_disk w"
proof (induction ps arbitrary: a w)
  case (Cons p ps)
  from Cons.IH [of "a\<lparr>acb_context_pages := acb_context_pages a @ [p]\<rparr>" "tick w"]
  show ?case by auto
qed auto

lemma swap_files_ok:
  assumes "disk_ok w"
  shows "\<exists>ps. concat (map snd (swap_files p w)) = map serialize ps"
proof -
  have "\<forall>x \<in> set (swap_files p w). \<exists>ps. snd x = map serialize ps"
    using assms by (auto simp: swap_files_def disk_ok_def)
  then have "\<exists>ps. concat (map snd xs) = map serialize ps" if "set xs \<subseteq> set (swap_files p w)" for xs
    using that
  proof (induction xs)
    case (Cons x xs)
    then obtain ps qs where "snd x = map serialize ps" "concat (map snd xs) = map serialize qs"
      by auto
    then have "concat (map snd (x # xs)) = map serialize (ps @ qs)" by simp
    then show ?case by blast
  qed simp
  then show ?thesis by blast
qed

lemma swap_in_restores:
  assumes "disk_ok w"
  shows "\<exists>ps w'. swap_in (a, w)
      = ((a\<lparr>acb_context_pages := acb_context_pages a @ ps\<rparr>, w'), Inr (int (size (swapped (acb_pid a) w))))
      \<and> image_mset serialize (mset ps) = swapped (acb_pid a) w"
proof -
  from swap_files_ok [OF assms] obtain ps where
    ps: "concat (map snd (swap_files (acb_pid a) w)) = map serialize ps"
    by blast
  then have "swapped (acb_pid a) w = image_mset serialize (mset ps)"
    by (simp add: swapped_def)
  with ps load_pages_serialized [of ps a w] show ?thesis
    by (auto simp: swap_in_def)
qed

lemma meter_inv:
  assumes "quota_inv (w_quota w)"
  shows "fst (meter True w) \<longleftrightarrow> 0 < q_remaining (w_quota w)"
    and "fst (meter True w) \<Longrightarrow> q_remaining (w_quota (snd (meter True w))) = q_remaining (w_quota w) - 1"
    and "\<not> fst (meter True w) \<Longrightarrow> snd (meter True w) = w"
    and "fst (meter True w) \<Longrightarrow> q_remaining (w_quota (unmeter True (snd (meter True w))))
          = q_remaining (w_quota w)"
  using assms by (auto simp: meter_def unmeter_def acquire_def refund_def quota_inv_def)

lemma length_replace_batch:
  assumes "mset batch \<subseteq># mset pages"
  shows "length (replace_batch batch page pages) = Suc (length pages - length batch)"
  using length_remove_all [OF assms] by (simp add: replace_batch_def)

section \<open>Properties\<close>


text \<open>An environment and a world for examples: a client that always answers, quota and clock given.\<close>

definition calm :: "client \<Rightarrow> env" where
  "calm c = \<lparr>e_client = Some c, e_factory = Inr None, e_solar = Inr c, e_kill = (\<lambda>_. None),
             e_io = (\<lambda>_. None), e_sandbox = Inl (OtherExc ''RuntimeError'' ''no sandbox''),
             e_calc = \<lparr>ce_parse = (\<lambda>s. Inr (ANum (PInt 42))), ce_pow = (\<lambda>x y. Inr (PFloat 0)),
                       ce_show = (\<lambda>x. ''0.0'')\<rparr>\<rparr>"

definition fresh_world :: "int \<Rightarrow> world" where
  "fresh_world n = \<lparr>w_quota = \<lparr>q_total = n, q_remaining = n\<rparr>, w_disk = [],
                    w_clock = (\<lambda>n. real n), w_tick = 0, w_calls = 0, w_ran = [],
                    w_default_pager = None\<rparr>"

definition answer :: "string \<Rightarrow> client" where
  "answer s n ms mt to =
     Inr \<lparr>cr_content = s, cr_prompt_tokens = 3, cr_completion_tokens = 2, cr_total_tokens = 5,
          cr_model = ''solar-pro2''\<rparr>"

definition agent_with_pages :: "nat \<Rightarrow> agent" where
  "agent_with_pages n = (new_agent 7 ''a'' ''hi'' 0)
     \<lparr>acb_context_pages := map (\<lambda>i. new_page ''user'' ''text'' 10 False False (real i)) [0..<n]\<rparr>"


text \<open>
  The metered summarizer charges the shared quota exactly for the requests that land.
  With a client at hand and a positive batch size it either skips (nothing changes at all),
  or fails with the client's exception, leaving pages and quota as they were, or replaces
  exactly the batch of the oldest unpinned, unsummarized, non-system pages by one summary
  page, charging one unit. Pinned pages survive in every case.
\<close>

theorem summarize_accounting:
  assumes "quota_inv (w_quota w)" and "summarize_client env = Inr c" and "0 < b"
    and "evict_summarize env b mt True (a, w) = ((a', w'), r)"
  shows "filter cp_pinned (acb_context_pages a') = filter cp_pinned (acb_context_pages a)
    \<and> (case r of
         Inl e \<Rightarrow> acb_context_pages a' = acb_context_pages a
                \<and> q_remaining (w_quota w') = q_remaining (w_quota w)
       | Inr n \<Rightarrow>
           (a', w') = (a, w) \<and> n = 0
           \<or> n = b - 1 \<and> q_remaining (w_quota w') = q_remaining (w_quota w) - 1
             \<and> 0 \<le> q_remaining (w_quota w')
             \<and> int (length (acb_context_pages a')) = int (length (acb_context_pages a)) - n
             \<and> (\<exists>page. cp_summarized page \<and> \<not> cp_pinned page \<and> mset (acb_context_pages a')
                  = add_mset page (mset (acb_context_pages a) - mset (summarize_batch b a))))"
proof -
  have pinned: "filter cp_pinned (acb_context_pages a') = filter cp_pinned (acb_context_pages a)"
    using evs.ev_pinned [of env "Summarize b mt True" "(a, w)"] assms(4) by simp
  note m = meter_inv [OF assms(1)]
  show ?thesis
  proof (cases rule: evict_summarize_cases [of env b mt True "(a, w)"])
    case 4
    with assms(4) pinned m(4) show ?thesis by (auto simp: unmeter_def refund_def)
  next
    case (6 c' res)
    let ?batch = "summarize_batch b a"
    have len: "int (length ?batch) = b"
      using length_summarize_batch [of b a] 6(1) assms(3) by simp
    have sub: "mset ?batch \<subseteq># mset (acb_context_pages a)" by (rule summarize_batch_facts(2))
    then have le: "length ?batch \<le> length (acb_context_pages a)"
      using size_mset_mono by fastforce
    have lenp: "int (length (acb_context_pages a')) = int (length (acb_context_pages a)) - (b - 1)"
      using 6(5) assms(4) length_replace_batch [OF sub] len le by auto
    have ms: "mset (acb_context_pages a') = add_mset
        (summary_page (length ?batch) res (now_of (snd (meter True w)\<lparr>w_calls := Suc (w_calls w)\<rparr>)))
        (mset (acb_context_pages a) - mset ?batch)"
      using 6(5) assms(4) by (auto simp: replace_batch_def mset_remove_all)
    have q: "q_remaining (w_quota w') = q_remaining (w_quota w) - 1" "0 < q_remaining (w_quota w)"
      using 6(3,5) assms(4) m(1,2) by auto
    have page: "cp_summarized (summary_page l res t)" "\<not> cp_pinned (summary_page l res t)" for l t
      by (simp_all add: summary_page_def new_page_def Let_def)
    have "r = Inr (b - 1)" using 6(5) assms(4) by simp
    with pinned lenp ms q page show ?thesis by auto
  qed (use assms pinned m in auto)
qed

theorem summarize_accounting_witness:
  "\<exists>a' w'. evict_summarize (calm (answer ''s'')) 4 200 True (agent_with_pages 4, fresh_world 3)
       = ((a', w'), Inr 3) \<and> q_remaining (w_quota w') = 2"
proof -
  let ?a = "agent_with_pages 4" and ?w = "fresh_world 3"
  obtain a' w' where e:
    "evict_summarize (calm (answer ''s'')) 4 200 True (?a, ?w) = ((a', w'), Inr 3)"
    by (simp add: evict_summarize_def agent_with_pages_def fresh_world_def calm_def answer_def
        summarize_candidates_def meter_def acquire_def summarize_client_def do_chat_def apply_kill_def
        new_page_def summarize_batch_def slice_to_def Let_def upt_rec numeral_eq_Suc new_agent_def)
  have "q_remaining (w_quota w') = q_remaining (w_quota ?w) - 1"
    using summarize_accounting [of ?w "calm (answer ''s'')" "answer ''s''" 4 200 ?a a' w' "Inr 3"] e
    by (auto simp: quota_inv_def fresh_world_def summarize_client_def calm_def)
  with e show ?thesis by (auto simp: fresh_world_def)
qed

text \<open>
  Budget leak. When the summarizer has to build its own client and that fails (for
  instance \<open>SolarClient()\<close> without an API key), the unit it acquired is not given back:
  the exception leaves between the acquisition and the protected request.
\<close>

theorem summarize_client_failure_leaks:
  assumes "summarize_client env = Inl e" and "b \<le> int (length (summarize_candidates a))"
    and "0 < q_remaining (w_quota w)"
  shows "\<exists>w'. evict_summarize env b mt True (a, w) = ((a, w'), Inl e)
    \<and> q_remaining (w_quota w') = q_remaining (w_quota w) - 1 \<and> w_calls w' = w_calls w"
  using assms by (simp add: evict_summarize_def meter_def acquire_def Let_def)

definition keyless :: env where
  "keyless = \<lparr>e_client = None, e_factory = Inr None,
     e_solar = solar_client_init \<lparr>sc_api_key = [], sc_base_url = ''u'', sc_model = ''m''\<rparr>
       (\<lambda>_ _ _ _ _ _. Inr \<lparr>sd_choices = [Some ''x''], sd_usage = None\<rparr>),
     e_kill = (\<lambda>_. None), e_io = (\<lambda>_. None),
     e_sandbox = Inl (OtherExc ''RuntimeError'' ''no sandbox''),
     e_calc = \<lparr>ce_parse = (\<lambda>s. Inr AOther), ce_pow = (\<lambda>x y. Inr (PFloat 0)), ce_show = (\<lambda>x. ''0.0'')\<rparr>\<rparr>"

theorem summarize_client_failure_leaks_witness:
  "\<exists>e w'. evict_summarize keyless 4 200 True (agent_with_pages 4, fresh_world 3)
      = ((agent_with_pages 4, w'), Inl e) \<and> q_remaining (w_quota w') = 2"
proof -
  obtain e where e: "summarize_client keyless = Inl e"
    by (simp add: summarize_client_def solar_client_init_def solar_validate_def keyless_def)
  have n: "4 \<le> int (length (summarize_candidates (agent_with_pages 4)))"
    by (simp add: agent_with_pages_def summarize_candidates_def new_page_def upt_rec numeral_eq_Suc)
  have q: "q_remaining (w_quota (fresh_world 3)) = 3"
    by (simp add: fresh_world_def)
  from summarize_client_failure_leaks [OF e n, of "fresh_world 3" 200] show ?thesis
    unfolding q by auto
qed

end
