(* ===== verification/Context_Pager.thy ===== *)
theory Context_Pager
  imports Eviction
begin

text \<open>
  The context pager (\<open>gcos/memory/context_pager.py\<close> and the default policy stack of
  \<open>gcos/memory/__init__.py\<close>): it applies the eviction policies in order until the
  context fits the budget, sixteen rounds at most, and assembles the messages to send.
\<close>

section \<open>The pager\<close>

definition fits :: "context_pager \<Rightarrow> agent \<Rightarrow> bool" where
  "fits pg a = (context_size (acb_context_pages a) \<le> cpg_budget pg)"

definition overflow :: "context_pager \<Rightarrow> agent \<Rightarrow> int" where
  "overflow pg a = max 0 (context_size (acb_context_pages a) - cpg_budget pg)"

text \<open>
  The inner loop over the policies: the first that frees pages ends it; \<open>freed\<close> is the
  value of the last call.
\<close>

fun try_policies ::
  "('p \<Rightarrow> step_state \<Rightarrow> step_state \<times> (py_exc + int)) \<Rightarrow> 'p list \<Rightarrow> int \<Rightarrow> step_state
     \<Rightarrow> step_state \<times> (py_exc + int)" where
  "try_policies ev [] freed st = (st, Inr freed)"
| "try_policies ev (p # ps) freed st =
     (case snd (ev p st) of
        Inl e \<Rightarrow> (fst (ev p st), Inl e)
      | Inr n \<Rightarrow> if 0 < n then (fst (ev p st), Inr n) else try_policies ev ps n (fst (ev p st)))"

fun assemble_loop ::
  "('p \<Rightarrow> step_state \<Rightarrow> step_state \<times> (py_exc + int)) \<Rightarrow> 'p list \<Rightarrow> int \<Rightarrow> nat \<Rightarrow> step_state
     \<Rightarrow> step_state \<times> py_exc option" where
  "assemble_loop ev ps budget 0 st = (st, None)"
| "assemble_loop ev ps budget (Suc guard) st =
     (if context_size (acb_context_pages (fst st)) \<le> budget then (st, None)
      else
        case snd (try_policies ev ps 0 st) of
          Inl e \<Rightarrow> (fst (try_policies ev ps 0 st), Some e)
        | Inr n \<Rightarrow>
            if n = 0 then (fst (try_policies ev ps 0 st), None)
            else assemble_loop ev ps budget guard (fst (try_policies ev ps 0 st)))"

text \<open>The final loop touches every page, each at its own reading of the clock.\<close>

fun touch_all :: "context_page list \<Rightarrow> world \<Rightarrow> context_page list \<times> world" where
  "touch_all [] w = ([], w)"
| "touch_all (p # ps) w =
     (touch (now_of w) p # fst (touch_all ps (tick w)), snd (touch_all ps (tick w)))"

definition page_message :: "context_page \<Rightarrow> chat_message" where
  "page_message p = mk_message (cp_role p) (cp_content p)"

definition guard_rounds :: nat where
  "guard_rounds = 16"

definition assemble_with ::
  "('p \<Rightarrow> step_state \<Rightarrow> step_state \<times> (py_exc + int)) \<Rightarrow> 'p list \<Rightarrow> int \<Rightarrow> string option \<Rightarrow> step_state
     \<Rightarrow> step_state \<times> (py_exc + chat_message list)" where
  "assemble_with ev ps budget extra st =
     (let effective = budget - estimate_tokens (case extra of None \<Rightarrow> '''' | Some s \<Rightarrow> s);
          out = assemble_loop ev ps effective guard_rounds st
      in case snd out of
           Some e \<Rightarrow> (fst out, Inl e)
         | None \<Rightarrow>
             (let (a, w) = fst out; pages = fst (touch_all (acb_context_pages a) w)
              in ((a\<lparr>acb_context_pages := pages\<rparr>, snd (touch_all (acb_context_pages a) w)),
                  Inr (map page_message pages
                       @ (case extra of
                            None \<Rightarrow> []
                          | Some s \<Rightarrow> if s = '''' then [] else [mk_message ''user'' s])))))"

definition assemble ::
  "env \<Rightarrow> context_pager \<Rightarrow> string option \<Rightarrow> step_state \<Rightarrow> step_state \<times> (py_exc + chat_message list)"
  where
  "assemble env pg extra st = assemble_with (evict env) (cpg_policies pg) (cpg_budget pg) extra st"

definition add_policy :: "eviction_policy \<Rightarrow> context_pager \<Rightarrow> context_pager" where
  "add_policy p pg = pg\<lparr>cpg_policies := cpg_policies pg @ [p]\<rparr>"

record pager_stats =
  ps_pages :: nat
  ps_pinned :: nat
  ps_summarized :: nat
  ps_tokens :: int
  ps_budget :: int
  ps_overflow :: int

definition pager_stats_of :: "context_pager \<Rightarrow> agent \<Rightarrow> pager_stats" where
  "pager_stats_of pg a =
     \<lparr>ps_pages = length (acb_context_pages a),
      ps_pinned = length (filter cp_pinned (acb_context_pages a)),
      ps_summarized = length (filter cp_summarized (acb_context_pages a)),
      ps_tokens = context_size (acb_context_pages a), ps_budget = cpg_budget pg,
      ps_overflow = overflow pg a\<rparr>"

text \<open>The standard stack; \<open>metered\<close> when the kernel's quota is passed.\<close>

definition default_policies :: "bool \<Rightarrow> eviction_policy list" where
  "default_policies metered = [LRU 2, Summarize 4 200 metered, Swap 2 2]"

section \<open>The pager over any evictor\<close>

text \<open>What a page says, without the time of its last access.\<close>

definition page_text :: "context_page \<Rightarrow> string \<times> string \<times> int \<times> bool \<times> bool" where
  "page_text p = (cp_role p, cp_content p, cp_tokens p, cp_pinned p, cp_summarized p)"

lemma touch_text [simp]: "page_text (touch now p) = page_text p"
  by (simp add: page_text_def touch_def)

lemma touch_all_text: "map page_text (fst (touch_all ps w)) = map page_text ps"
  by (induction ps w rule: touch_all.induct) auto

lemma touch_all_pinned:
  "map page_text (filter cp_pinned (fst (touch_all ps w))) = map page_text (filter cp_pinned ps)"
  by (induction ps w rule: touch_all.induct) (auto simp: touch_def page_text_def)

lemma touch_all_unpinned:
  "length (filter (\<lambda>p. \<not> cp_pinned p) (fst (touch_all ps w))) = length (filter (\<lambda>p. \<not> cp_pinned p) ps)"
  by (induction ps w rule: touch_all.induct) (auto simp: touch_def)

lemma map_via: "f = g \<circ> h \<Longrightarrow> map h xs = map h ys \<Longrightarrow> map f xs = map f ys"
  by (metis map_map)

lemma page_message_text: "map page_text ps = map page_text qs \<Longrightarrow> map page_message ps = map page_message qs"
  by (rule map_via [of _ "\<lambda>(r, c, _). mk_message r c"])
     (simp_all add: fun_eq_iff page_message_def page_text_def)

lemma page_tokens_text: "map page_text ps = map page_text qs \<Longrightarrow> map page_tokens ps = map page_tokens qs"
  by (rule map_via [of _ "\<lambda>(r, c, t, _). if 0 < t then t else estimate_tokens c"])
     (simp_all add: fun_eq_iff page_tokens_def page_text_def)

lemma context_size_text: "map page_text ps = map page_text qs \<Longrightarrow> context_size ps = context_size qs"
  unfolding context_size_def by (drule page_tokens_text) (rule arg_cong)

lemma touch_all_world [simp, world_simps]:
  "w_quota (snd (touch_all ps w)) = w_quota w" "w_disk (snd (touch_all ps w)) = w_disk w"
  "w_calls (snd (touch_all ps w)) = w_calls w" "w_clock (snd (touch_all ps w)) = w_clock w"
  "w_ran (snd (touch_all ps w)) = w_ran w"
  by (induction ps w rule: touch_all.induct) simp_all

text \<open>The result of \<open>assemble_with\<close> in terms of the loop.\<close>

lemma assemble_with_result:
  assumes "assemble_with ev ps budget extra st = ((a', w'), r)"
  obtains (raised) e where "r = Inl e"
      and "assemble_loop ev ps (budget - estimate_tokens (case extra of None \<Rightarrow> '''' | Some s \<Rightarrow> s))
             guard_rounds st = ((a', w'), Some e)"
  | (sent) a w where "r = Inr (map page_message (acb_context_pages a')
                         @ (case extra of None \<Rightarrow> []
                            | Some s \<Rightarrow> if s = '''' then [] else [mk_message ''user'' s]))"
      and "assemble_loop ev ps (budget - estimate_tokens (case extra of None \<Rightarrow> '''' | Some s \<Rightarrow> s))
             guard_rounds st = ((a, w), None)"
      and "a' = a\<lparr>acb_context_pages := fst (touch_all (acb_context_pages a) w)\<rparr>"
      and "w' = snd (touch_all (acb_context_pages a) w)"
proof -
  let ?out = "assemble_loop ev ps (budget - estimate_tokens (case extra of None \<Rightarrow> '''' | Some s \<Rightarrow> s))
             guard_rounds st"
  obtain a w x where out: "?out = ((a, w), x)" by (metis surj_pair)
  show ?thesis
  proof (cases x)
    case None
    with out assms show ?thesis
      by (intro sent [of a w]) (auto simp: assemble_with_def Let_def)
  next
    case (Some e)
    with out assms show ?thesis
      by (intro raised [of e]) (auto simp: assemble_with_def Let_def)
  qed
qed

context evictor
begin

lemma try_policies_keeps:
  "paged (fst st) (fst (fst (try_policies ev ps n st)))
   \<and> filter cp_pinned (acb_context_pages (fst (fst (try_policies ev ps n st))))
       = filter cp_pinned (acb_context_pages (fst st))
   \<and> w_clock (snd (fst (try_policies ev ps n st))) = w_clock (snd st)
   \<and> w_ran (snd (fst (try_policies ev ps n st))) = w_ran (snd st)"
proof (induction ps arbitrary: n st)
  case (Cons p ps)
  show ?case
    using Cons.IH [of "fst (ev p st)"] ev_paged [of st p] ev_pinned [of p st] ev_clock [of p st] ev_ran [of p st]
    by (auto split: sum.splits intro: paged_trans)
qed simp

lemma assemble_loop_keeps:
  "paged (fst st) (fst (fst (assemble_loop ev ps b g st)))
   \<and> filter cp_pinned (acb_context_pages (fst (fst (assemble_loop ev ps b g st))))
       = filter cp_pinned (acb_context_pages (fst st))
   \<and> w_clock (snd (fst (assemble_loop ev ps b g st))) = w_clock (snd st)
   \<and> w_ran (snd (fst (assemble_loop ev ps b g st))) = w_ran (snd st)"
proof (induction g arbitrary: st)
  case (Suc g)
  show ?case
    using Suc.IH [of "fst (try_policies ev ps 0 st)"] try_policies_keeps [of st ps 0]
    by (auto split: sum.splits intro: paged_trans)
qed simp

text \<open>
  Assembling keeps every pinned page, changes nothing else of the agent than its pages
  (unless it is killed meanwhile), and sends exactly the pages that remain.
\<close>

lemma assemble_keeps:
  assumes "assemble_with ev ps budget extra (a, w) = ((a', w'), r)"
  shows "paged a a' \<and> w_clock w' = w_clock w \<and> w_ran w' = w_ran w
    \<and> map page_text (filter cp_pinned (acb_context_pages a'))
        = map page_text (filter cp_pinned (acb_context_pages a))"
  using assms
proof (cases rule: assemble_with_result)
  case (raised e)
  then show ?thesis
    using assemble_loop_keeps [of "(a, w)"] by (metis fst_conv snd_conv)
next
  case (sent a1 w1)
  have "paged a a1" "w_clock w1 = w_clock w" "w_ran w1 = w_ran w"
    "filter cp_pinned (acb_context_pages a1) = filter cp_pinned (acb_context_pages a)"
    using assemble_loop_keeps [of "(a, w)"] sent(2) by (metis fst_conv snd_conv)+
  with sent show ?thesis
    by (simp add: paged_pages touch_all_pinned)
qed

end

section \<open>The default stack\<close>

text \<open>
  With the standard stack the first tier decides everything: when LRU cannot free a page there
  are at most two unpinned pages, too few for the other two tiers.
\<close>

lemma default_stack_is_lru:
  "try_policies (evict env) (default_policies m) n st = try_policies (evict env) [LRU 2] n st
   \<or> (snd (try_policies (evict env) (default_policies m) n st) = Inr 0
       \<and> fst (try_policies (evict env) (default_policies m) n st) = st)"
proof (cases rule: evict_lru_cases [of 2 st])
  case 1
  have "length (summarize_candidates (fst st)) \<le> length (unpinned (fst st))"
  proof -
    have "summarize_candidates (fst st)
        = filter (\<lambda>p. \<not> cp_summarized p \<and> cp_role p \<noteq> ''system'') (unpinned (fst st))"
      by (auto simp: summarize_candidates_def unpinned_def intro: filter_cong)
    then show ?thesis by simp
  qed
  with 1 have "evict_summarize env 4 200 m st = (st, Inr 0)"
    by (simp add: evict_summarize_def)
  moreover have "evict_swap env 2 2 st = (st, Inr 0)"
    using 1 by (simp add: evict_swap_def)
  ultimately show ?thesis
    using 1 by (simp add: default_policies_def)
qed (simp_all add: default_policies_def)

definition evicted_one :: "step_state \<Rightarrow> step_state \<Rightarrow> bool" where
  "evicted_one st st' \<longleftrightarrow>
     (\<exists>v \<in> set (unpinned (fst st)).
        st' = ((fst st)\<lparr>acb_context_pages := remove1 v (acb_context_pages (fst st))\<rparr>, tick (snd st))
        \<and> (\<forall>p \<in> set (unpinned (fst st)). cp_last_access v \<le> cp_last_access p))"

lemma default_round:
  assumes "try_policies (evict env) (default_policies m) 0 st = (st', r)"
  shows "(r = Inr 0 \<and> st' = st \<and> length (unpinned (fst st)) \<le> 2)
       \<or> (r = Inr 1 \<and> evicted_one st st' \<and> 2 < length (unpinned (fst st)))"
proof (cases rule: evict_lru_cases [of 2 st])
  case 1
  then show ?thesis
    using default_stack_is_lru [of env m 0 st] assms by auto
next
  case (3 v)
  then show ?thesis
    using assms by (auto simp: default_policies_def evicted_one_def)
qed simp

lemma unpinned_remove1:
  "v \<in> set (unpinned a) \<Longrightarrow>
     Suc (length (unpinned (a\<lparr>acb_context_pages := remove1 v (acb_context_pages a)\<rparr>))) = length (unpinned a)"
  by (auto simp: unpinned_def intro: length_filter_remove1)

lemma default_loop:
  assumes "assemble_loop (evict env) (default_policies m) b g (a, w) = ((a', w'), r)"
  shows "r = None \<and> w_quota w' = w_quota w \<and> w_disk w' = w_disk w \<and> w_calls w' = w_calls w
    \<and> (\<exists>ps. a' = a\<lparr>acb_context_pages := ps\<rparr> \<and> mset ps \<subseteq># mset (acb_context_pages a)
         \<and> length (acb_context_pages a) \<le> length ps + g)
    \<and> (context_size (acb_context_pages a') \<le> b \<or> length (unpinned a') \<le> 2
       \<or> length (acb_context_pages a) = length (acb_context_pages a') + g)
    \<and> min 2 (length (unpinned a)) \<le> length (unpinned a')"
  using assms
proof (induction g arbitrary: a w)
  case 0
  then show ?case by (auto intro!: exI [of _ "acb_context_pages a"])
next
  case (Suc g)
  show ?case
  proof (cases "context_size (acb_context_pages a) \<le> b")
    case True
    with Suc.prems show ?thesis by (auto intro!: exI [of _ "acb_context_pages a"])
  next
    case False
    obtain st' x where t: "try_policies (evict env) (default_policies m) 0 (a, w) = (st', x)"
      by (metis surj_pair)
    from default_round [OF t] show ?thesis
    proof
      assume "x = Inr 0 \<and> st' = (a, w) \<and> length (unpinned (fst (a, w))) \<le> 2"
      with t False Suc.prems show ?thesis by (auto intro!: exI [of _ "acb_context_pages a"])
    next
      assume ev: "x = Inr 1 \<and> evicted_one (a, w) st' \<and> 2 < length (unpinned (fst (a, w)))"
      then obtain v where v: "v \<in> set (unpinned a)"
        and st': "st' = (a\<lparr>acb_context_pages := remove1 v (acb_context_pages a)\<rparr>, tick w)"
        by (auto simp: evicted_one_def)
      have "v \<in> set (acb_context_pages a)" using v by (simp add: unpinned_set)
      then have len: "length (acb_context_pages a) = Suc (length (remove1 v (acb_context_pages a)))"
        by (rule length_remove1_mem)
      have sub: "mset (remove1 v (acb_context_pages a)) \<subseteq># mset (acb_context_pages a)"
        by simp
      from t False Suc.prems ev st' have
        "assemble_loop (evict env) (default_policies m) b g
           (a\<lparr>acb_context_pages := remove1 v (acb_context_pages a)\<rparr>, tick w) = ((a', w'), r)"
        by simp
      note ih = Suc.IH [OF this]
      then obtain ps where ps: "a' = a\<lparr>acb_context_pages := ps\<rparr>"
        "mset ps \<subseteq># mset (remove1 v (acb_context_pages a))"
        "length (remove1 v (acb_context_pages a)) \<le> length ps + g"
        by auto
      have "mset ps \<subseteq># mset (acb_context_pages a)"
        using ps(2) sub by (rule subset_mset.order_trans)
      with ps len have "\<exists>ps. a' = a\<lparr>acb_context_pages := ps\<rparr> \<and> mset ps \<subseteq># mset (acb_context_pages a)
          \<and> length (acb_context_pages a) \<le> length ps + Suc g"
        by (intro exI [of _ ps]) simp
      with ih len unpinned_remove1 [OF v] ev show ?thesis by auto
    qed
  qed
qed

section \<open>Properties\<close>

text \<open>
  C35. Pinned pages are never evicted. Whatever the policy stack, the budget, the LLM, the
  disk and the kills that arrive meanwhile, assembling keeps every pinned page (in order and
  with its role, content, token count and flags), changes nothing else of the agent than its
  pages (save a kill), and, when it does not raise, sends exactly the remaining pages in order,
  followed by the extra user turn.
\<close>

theorem assemble_keeps_pinned:
  assumes "assemble env pg extra (a, w) = ((a', w'), r)"
  shows "map page_text (filter cp_pinned (acb_context_pages a'))
           = map page_text (filter cp_pinned (acb_context_pages a))
    \<and> paged a a'
    \<and> (\<forall>ms. r = Inr ms \<longrightarrow> ms = map page_message (acb_context_pages a')
          @ (case extra of None \<Rightarrow> [] | Some s \<Rightarrow> if s = '''' then [] else [mk_message ''user'' s]))"
proof -
  have eq: "assemble_with (evict env) (cpg_policies pg) (cpg_budget pg) extra (a, w) = ((a', w'), r)"
    using assms by (simp add: assemble_def)
  then have "\<forall>ms. r = Inr ms \<longrightarrow> ms = map page_message (acb_context_pages a')
          @ (case extra of None \<Rightarrow> [] | Some s \<Rightarrow> if s = '''' then [] else [mk_message ''user'' s])"
    by (cases rule: assemble_with_result) auto
  with evs.assemble_keeps [OF eq] show ?thesis by blast
qed

theorem assemble_keeps_pinned_witness:
  "\<exists>a' w' r. assemble (calm (answer ''s'')) \<lparr>cpg_budget = 1, cpg_policies = default_policies True\<rparr> None
       (agent_with_pages 3, fresh_world 1) = ((a', w'), r) \<and> paged (agent_with_pages 3) a'"
proof -
  obtain a' w' r where "assemble (calm (answer ''s'')) \<lparr>cpg_budget = 1, cpg_policies = default_policies True\<rparr>
      None (agent_with_pages 3, fresh_world 1) = ((a', w'), r)"
    by (metis surj_pair)
  with assemble_keeps_pinned [OF this] show ?thesis by blast
qed



end
