(* ===== verification/Executor.thy ===== *)
theory Executor
  imports Context_Pager
begin

text \<open>
  The plain-chat executor (\<open>gcos/executor.py\<close>) and what the three step functions share:
  the choice of the client and of the pager, the handling of a failed request, the charge for
  a successful one, the recording of pages. A step takes an agent and the world, and returns
  them with whether there is more work, or with the exception that leaves the step.
\<close>

section \<open>Shared pieces\<close>

text \<open>\<open>client or SolarClient()\<close>.\<close>

definition client_or_solar :: "env \<Rightarrow> py_exc + client" where
  "client_or_solar env = (case e_client env of Some c \<Rightarrow> Inr c | None \<Rightarrow> e_solar env)"

definition with_client :: "client \<Rightarrow> env \<Rightarrow> env" where
  "with_client c env = env\<lparr>e_client := Some c\<rparr>"

definition get_default_pager :: "world \<Rightarrow> context_pager \<times> world" where
  "get_default_pager w =
     (case w_default_pager w of
        Some pg \<Rightarrow> (pg, w)
      | None \<Rightarrow>
          (let pg = \<lparr>cpg_budget = 4096, cpg_policies = default_policies False\<rparr>
           in (pg, w\<lparr>w_default_pager := Some pg\<rparr>)))"

definition set_default_pager :: "context_pager \<Rightarrow> world \<Rightarrow> world" where
  "set_default_pager pg w = w\<lparr>w_default_pager := Some pg\<rparr>"

definition pager_for :: "step_state \<Rightarrow> context_pager \<times> world" where
  "pager_for st =
     (case acb_pager (fst st) of Some pg \<Rightarrow> (pg, snd st) | None \<Rightarrow> get_default_pager (snd st))"

text \<open>The two \<open>except\<close> branches around a request.\<close>

definition fail_with :: "py_exc \<Rightarrow> step_state \<Rightarrow> step_state" where
  "fail_with e st =
     (case e of
        TimeoutExc c m \<Rightarrow> do_fail TIMEOUT m st
      | OtherExc c m \<Rightarrow> do_fail ERROR (c @ '': '' @ m) st)"

definition charge :: "chat_result \<Rightarrow> agent \<Rightarrow> agent" where
  "charge r a =
     a\<lparr>acb_quota_remaining := acb_quota_remaining a - 1,
       acb_llm_calls_used := acb_llm_calls_used a + 1,
       acb_tokens_used := acb_tokens_used a + cr_total_tokens r\<rparr>"

definition push_page :: "string \<Rightarrow> string \<Rightarrow> int \<Rightarrow> step_state \<Rightarrow> step_state" where
  "push_page role content tokens st =
     ((fst st)\<lparr>acb_context_pages := acb_context_pages (fst st)
         @ [new_page role content tokens False False (now_of (snd st))]\<rparr>, tick (snd st))"

definition set_result :: "string \<Rightarrow> step_state \<Rightarrow> step_state" where
  "set_result s st = ((fst st)\<lparr>acb_result := Some s\<rparr>, snd st)"

text \<open>The prompt page on the first exchange, then the assistant's page.\<close>

definition record_exchange :: "bool \<Rightarrow> chat_result \<Rightarrow> step_state \<Rightarrow> step_state" where
  "record_exchange first r st =
     (let st1 = (if first then push_page ''user'' (acb_prompt (fst st)) (cr_prompt_tokens r) st else st)
      in push_page ''assistant'' (cr_content r) (cr_completion_tokens r) st1)"

definition quota_exhausted :: string where
  "quota_exhausted = ''per-agent quota exhausted''"

section \<open>The plain step\<close>

definition build_messages ::
  "env \<Rightarrow> step_state \<Rightarrow> step_state \<times> (py_exc + chat_message list)" where
  "build_messages env st =
     (let extra = (if acb_llm_calls_used (fst st) = 0 then Some (acb_prompt (fst st)) else None);
          (pg, w1) = pager_for st
      in assemble env pg extra (fst st, w1))"

text \<open>After a successful request.\<close>

definition plain_finish :: "chat_result \<Rightarrow> step_state \<Rightarrow> step_state" where
  "plain_finish r st =
     (let a1 = charge r (fst st)
      in if acb_state a1 = ZOMBIE then (a1, snd st)
         else do_move DONE (record_exchange (acb_llm_calls_used a1 = 1) r
                (set_result (cr_content r) (a1, snd st))))"

definition run_plain_step :: "env \<Rightarrow> step_state \<Rightarrow> step_state \<times> (py_exc + bool)" where
  "run_plain_step env st =
     (case client_or_solar env of
        Inl e \<Rightarrow> (st, Inl e)
      | Inr c \<Rightarrow>
          if is_terminal (fst st) then (st, Inr False)
          else if acb_quota_remaining (fst st) \<le> 0 then (do_fail ERROR quota_exhausted st, Inr False)
          else
            let st1 = (if acb_state (fst st) \<noteq> RUNNING then do_move RUNNING st else st);
                built = build_messages (with_client c env) st1
            in case snd built of
                 Inl e \<Rightarrow> (fail_with e (fst built), Inr False)
               | Inr ms \<Rightarrow>
                   (let out = do_chat env c ms (min (max_tokens (acb_capability (fst st))) 1024)
                                (acb_timeout_s (fst st)) (fst built)
                    in case snd out of
                         Inl e \<Rightarrow> (fail_with e (fst out), Inr False)
                       | Inr r \<Rightarrow> (plain_finish r (fst out), Inr False)))"

section \<open>The contract of a step\<close>

text \<open>
  What the worker pool relies on for every step function. \<open>step_frame\<close> is what no step
  changes of an agent.
\<close>

definition step_frame :: "agent \<Rightarrow> agent \<Rightarrow> bool" where
  "step_frame a b \<longleftrightarrow> acb_pid b = acb_pid a \<and> acb_parent_pid b = acb_parent_pid a
     \<and> acb_children b = acb_children a \<and> acb_capability b = acb_capability a
     \<and> acb_priority b = acb_priority a \<and> acb_created_at b = acb_created_at a
     \<and> acb_pipe_to b = acb_pipe_to a \<and> acb_prompt b = acb_prompt a \<and> acb_name b = acb_name a
     \<and> acb_pager b = acb_pager a"

text \<open>The agent's own budget and its count of requests move together, by at most one.\<close>

definition calls_between :: "agent \<Rightarrow> agent \<Rightarrow> int" where
  "calls_between a b = acb_llm_calls_used b - acb_llm_calls_used a"

text \<open>The loop of \<open>run_agent\<close>: at most \<open>n\<close> steps.\<close>

fun run_steps ::
  "(step_state \<Rightarrow> step_state \<times> (py_exc + bool)) \<Rightarrow> nat \<Rightarrow> step_state \<Rightarrow> step_state \<times> py_exc option" where
  "run_steps step 0 st = (st, None)"
| "run_steps step (Suc n) st =
     (if is_terminal (fst st) then (st, None)
      else case snd (step st) of
             Inl e \<Rightarrow> (fst (step st), Some e)
           | Inr again \<Rightarrow> if again then run_steps step n (fst (step st)) else (fst (step st), None))"

locale step_runner =
  fixes step :: "step_state \<Rightarrow> step_state \<times> (py_exc + bool)"
  assumes step_frame_ok: "step_frame (fst st) (fst (fst (step st)))"
    and step_absorbing: "is_terminal (fst st) \<Longrightarrow>
          acb_state (fst (fst (step st))) = acb_state (fst st)
          \<and> calls_between (fst st) (fst (fst (step st))) = 0"
    and step_calls: "calls_between (fst st) (fst (fst (step st))) \<in> {0, 1}"
    and step_budget: "acb_quota_remaining (fst (fst (step st)))
          = acb_quota_remaining (fst st) - calls_between (fst st) (fst (fst (step st)))"
    and step_needs_budget: "acb_quota_remaining (fst st) \<le> 0 \<Longrightarrow>
          calls_between (fst st) (fst (fst (step st))) = 0"
    and step_done: "snd (step st) = Inr False \<Longrightarrow> is_terminal (fst (fst (step st)))"
    and step_more: "snd (step st) = Inr True \<Longrightarrow> \<not> is_terminal (fst (fst (step st)))
          \<and> calls_between (fst st) (fst (fst (step st))) = 1"
begin

text \<open>
  Running an agent never overdraws its budget, and ends terminal, by an exception, or after
  all the allowed steps, each of which made a request.
\<close>

lemma steps_spec:
  "0 \<le> acb_quota_remaining (fst st) \<Longrightarrow> run_steps step n st = (st', r) \<Longrightarrow>
     0 \<le> calls_between (fst st) (fst st') \<and> calls_between (fst st) (fst st') \<le> int n
     \<and> acb_quota_remaining (fst st') = acb_quota_remaining (fst st) - calls_between (fst st) (fst st')
     \<and> 0 \<le> acb_quota_remaining (fst st')
     \<and> (r = None \<longrightarrow> is_terminal (fst st') \<or> calls_between (fst st) (fst st') = int n)"
proof (induction n arbitrary: st)
  case 0
  then show ?case by (auto simp: calls_between_def)
next
  case (Suc n)
  show ?case
  proof (cases "is_terminal (fst st)")
    case True
    with Suc.prems show ?thesis by (auto simp: calls_between_def)
  next
    case live: False
    note c = step_calls [of st] step_budget [of st] step_needs_budget [of st]
    show ?thesis
    proof (cases "snd (step st) = Inr True")
      case True
      with live Suc.prems have run: "run_steps step n (fst (step st)) = (st', r)" by simp
      have "0 \<le> acb_quota_remaining (fst (fst (step st)))"
        using c Suc.prems(1) by (cases "acb_quota_remaining (fst st) = 0") auto
      from Suc.IH [OF this run] step_more [OF True] c show ?thesis
        by (auto simp: calls_between_def)
    next
      case False
      with live Suc.prems have "st' = fst (step st)" "r = None \<longrightarrow> snd (step st) = Inr False"
        by (auto split: sum.splits if_splits)
      moreover have "0 \<le> acb_quota_remaining (fst (fst (step st)))"
        using c Suc.prems(1) by (cases "acb_quota_remaining (fst st) = 0") auto
      ultimately show ?thesis
        using c step_done [of st] by auto
    qed
  qed
qed

end

section \<open>Lemmas\<close>

lemma step_frame_refl [simp]: "step_frame a a"
  by (simp add: step_frame_def)

lemma step_frame_trans: "step_frame a b \<Longrightarrow> step_frame b c \<Longrightarrow> step_frame a c"
  by (simp add: step_frame_def)

lemma step_frame_paged: "paged a b \<Longrightarrow> step_frame a b"
  by (simp add: step_frame_def pagedD)

lemma step_frame_move [simp]: "step_frame a (move now s a)"
  by (simp add: step_frame_def)

lemma step_frame_error [simp]: "step_frame a (set_error e a)"
  by (simp add: step_frame_def)

lemma step_frame_kill [simp]: "step_frame a (apply_kill k a)"
  by (simp add: step_frame_def)

lemma fail_with_simps [simp]:
  "is_terminal (fst (fail_with e st))"
  "acb_llm_calls_used (fst (fail_with e st)) = acb_llm_calls_used (fst st)"
  "acb_quota_remaining (fst (fail_with e st)) = acb_quota_remaining (fst st)"
  "step_frame (fst st) (fst (fail_with e st))"
  "acb_result (fst (fail_with e st)) = acb_result (fst st)"
  "w_ran (snd (fail_with e st)) = w_ran (snd st)"
  "w_quota (snd (fail_with e st)) = w_quota (snd st)"
  "w_calls (snd (fail_with e st)) = w_calls (snd st)"
  by (cases e; simp add: fail_with_def step_frame_def)+

lemma charge_simps [simp]:
  "acb_llm_calls_used (charge r a) = acb_llm_calls_used a + 1"
  "acb_quota_remaining (charge r a) = acb_quota_remaining a - 1"
  "acb_state (charge r a) = acb_state a" "acb_prompt (charge r a) = acb_prompt a"
  "acb_result (charge r a) = acb_result a" "acb_scratch (charge r a) = acb_scratch a"
  "acb_context_pages (charge r a) = acb_context_pages a"
  "acb_capability (charge r a) = acb_capability a" "acb_priority (charge r a) = acb_priority a"
  "acb_timeout_s (charge r a) = acb_timeout_s a"
  "is_terminal (charge r a) = is_terminal a" "step_frame a (charge r a)"
  "acb_name (charge r a) = acb_name a"
  by (simp_all add: charge_def is_terminal_def step_frame_def)

lemma push_page_simps [simp]:
  "acb_llm_calls_used (fst (push_page x y z st)) = acb_llm_calls_used (fst st)"
  "acb_quota_remaining (fst (push_page x y z st)) = acb_quota_remaining (fst st)"
  "acb_state (fst (push_page x y z st)) = acb_state (fst st)"
  "acb_prompt (fst (push_page x y z st)) = acb_prompt (fst st)"
  "acb_result (fst (push_page x y z st)) = acb_result (fst st)"
  "acb_scratch (fst (push_page x y z st)) = acb_scratch (fst st)"
  "acb_capability (fst (push_page x y z st)) = acb_capability (fst st)"
  "acb_priority (fst (push_page x y z st)) = acb_priority (fst st)"
  "acb_timeout_s (fst (push_page x y z st)) = acb_timeout_s (fst st)"
  "is_terminal (fst (push_page x y z st)) = is_terminal (fst st)"
  "step_frame (fst st) (fst (push_page x y z st))"
  "snd (push_page x y z st) = tick (snd st)"
  "acb_name (fst (push_page x y z st)) = acb_name (fst st)"
  by (simp_all add: push_page_def step_frame_def)

lemma set_result_simps [simp]:
  "acb_llm_calls_used (fst (set_result s st)) = acb_llm_calls_used (fst st)"
  "acb_quota_remaining (fst (set_result s st)) = acb_quota_remaining (fst st)"
  "acb_state (fst (set_result s st)) = acb_state (fst st)"
  "acb_prompt (fst (set_result s st)) = acb_prompt (fst st)"
  "acb_result (fst (set_result s st)) = Some s"
  "acb_scratch (fst (set_result s st)) = acb_scratch (fst st)"
  "is_terminal (fst (set_result s st)) = is_terminal (fst st)"
  "step_frame (fst st) (fst (set_result s st))"
  "snd (set_result s st) = snd st"
  "acb_name (fst (set_result s st)) = acb_name (fst st)"
  by (simp_all add: set_result_def is_terminal_def step_frame_def)

lemma record_exchange_simps [simp]:
  "acb_llm_calls_used (fst (record_exchange f r st)) = acb_llm_calls_used (fst st)"
  "acb_quota_remaining (fst (record_exchange f r st)) = acb_quota_remaining (fst st)"
  "acb_state (fst (record_exchange f r st)) = acb_state (fst st)"
  "acb_prompt (fst (record_exchange f r st)) = acb_prompt (fst st)"
  "acb_result (fst (record_exchange f r st)) = acb_result (fst st)"
  "acb_scratch (fst (record_exchange f r st)) = acb_scratch (fst st)"
  "acb_capability (fst (record_exchange f r st)) = acb_capability (fst st)"
  "acb_priority (fst (record_exchange f r st)) = acb_priority (fst st)"
  "acb_timeout_s (fst (record_exchange f r st)) = acb_timeout_s (fst st)"
  "is_terminal (fst (record_exchange f r st)) = is_terminal (fst st)"
  "step_frame (fst st) (fst (record_exchange f r st))"
  "w_ran (snd (record_exchange f r st)) = w_ran (snd st)"
  "w_quota (snd (record_exchange f r st)) = w_quota (snd st)"
  "w_calls (snd (record_exchange f r st)) = w_calls (snd st)"
  "acb_name (fst (record_exchange f r st)) = acb_name (fst st)"
  by (simp_all add: record_exchange_def Let_def step_frame_def push_page_def)

lemma pager_for_world [simp]:
  "w_ran (snd (pager_for st)) = w_ran (snd st)" "w_quota (snd (pager_for st)) = w_quota (snd st)"
  "w_calls (snd (pager_for st)) = w_calls (snd st)" "w_clock (snd (pager_for st)) = w_clock (snd st)"
  by (auto simp: pager_for_def get_default_pager_def Let_def split: option.splits)

lemma assemble_paged: "paged (fst st) (fst (fst (assemble env pg x st)))"
  and assemble_ran: "w_ran (snd (fst (assemble env pg x st))) = w_ran (snd st)"
proof -
  obtain a w a' w' r where "st = (a, w)" "assemble env pg x (a, w) = ((a', w'), r)"
    by (metis surj_pair)
  moreover from this(2) have
    "assemble_with (evict env) (cpg_policies pg) (cpg_budget pg) x (a, w) = ((a', w'), r)"
    by (simp add: assemble_def)
  from evs.assemble_keeps [OF this] have "paged a a'" "w_ran w' = w_ran w" by simp_all
  ultimately show "paged (fst st) (fst (fst (assemble env pg x st)))"
    and "w_ran (snd (fst (assemble env pg x st))) = w_ran (snd st)" by simp_all
qed

lemma build_messages_keeps:
  "paged (fst st) (fst (fst (build_messages env st)))"
  "w_ran (snd (fst (build_messages env st))) = w_ran (snd st)"
  using assemble_paged [of "(fst st, snd (pager_for st))"] assemble_ran [of _ _ _ "(fst st, snd (pager_for st))"]
  by (simp_all add: build_messages_def Let_def case_prod_unfold)

text \<open>The contract for one call, so that the step functions share its proof.\<close>

definition step_ok :: "step_state \<Rightarrow> step_state \<times> (py_exc + bool) \<Rightarrow> bool" where
  "step_ok st out \<longleftrightarrow>
     (let a = fst st; b = fst (fst out) in
      step_frame a b
      \<and> (is_terminal a \<longrightarrow> acb_state b = acb_state a \<and> calls_between a b = 0)
      \<and> calls_between a b \<in> {0, 1}
      \<and> acb_quota_remaining b = acb_quota_remaining a - calls_between a b
      \<and> (acb_quota_remaining a \<le> 0 \<longrightarrow> calls_between a b = 0)
      \<and> (snd out = Inr False \<longrightarrow> is_terminal b)
      \<and> (snd out = Inr True \<longrightarrow> \<not> is_terminal b \<and> calls_between a b = 1))"

lemma step_runnerI: "(\<And>st. step_ok st (f st)) \<Longrightarrow> step_runner f"
  unfolding step_ok_def Let_def by unfold_locales blast+

text \<open>A step that makes no request of its own.\<close>

definition quiet :: "agent \<Rightarrow> agent \<Rightarrow> bool" where
  "quiet a b \<longleftrightarrow> step_frame a b \<and> acb_llm_calls_used b = acb_llm_calls_used a
     \<and> acb_quota_remaining b = acb_quota_remaining a
     \<and> (is_terminal a \<longrightarrow> acb_state b = acb_state a)"

lemma quiet_refl [simp]: "quiet a a"
  by (simp add: quiet_def)

lemma quiet_trans: "quiet a b \<Longrightarrow> quiet b c \<Longrightarrow> quiet a c"
  by (auto simp: quiet_def is_terminal_def intro: step_frame_trans)

lemma quiet_intros [simp]:
  "quiet a (move now s a)" "quiet a (set_error e a)" "quiet a (apply_kill k a)"
  by (auto simp: quiet_def move_state apply_kill_state)

lemma quiet_paged: "paged a b \<Longrightarrow> quiet a b"
  by (simp add: quiet_def step_frame_paged pagedD)

lemma quiet_fail [simp]: "quiet (fst st) (fst (fail_with e st))"
  by (cases e) (auto simp: quiet_def fail_with_def step_frame_def move_state)

lemma quiet_do_fail [simp]: "quiet (fst st) (fst (do_fail s e st))"
  by (auto simp: quiet_def step_frame_def move_state)

lemma quiet_error_move [simp]: "quiet a (set_error e (move now s a))"
  by (auto simp: quiet_def step_frame_def move_state)

lemma step_ok_raise: "quiet (fst st) (fst st') \<Longrightarrow> step_ok st (st', Inl e)"
  by (simp add: quiet_def step_ok_def calls_between_def Let_def)

lemma step_ok_stop: "quiet (fst st) (fst st') \<Longrightarrow> is_terminal (fst st') \<Longrightarrow> step_ok st (st', Inr False)"
  by (simp add: quiet_def step_ok_def calls_between_def Let_def)

lemma step_ok_fail: "terminal s \<Longrightarrow> step_ok st (do_fail s e st, Inr False)"
  by (rule step_ok_stop) simp_all

text \<open>A step that charged the agent for a request.\<close>

lemma step_ok_charged:
  assumes "quiet (fst st) a1" and "step_frame (charge r a1) (fst st')"
    and "\<not> is_terminal (fst st)" and "0 < acb_quota_remaining (fst st)"
    and "acb_llm_calls_used (fst st') = acb_llm_calls_used a1 + 1"
    and "acb_quota_remaining (fst st') = acb_quota_remaining a1 - 1"
    and "is_terminal (fst st') = (\<not> again)"
  shows "step_ok st (st', Inr again)"
proof -
  have "step_frame a1 (charge r a1)" by simp
  with assms(1,2) have "step_frame (fst st) (fst st')"
    unfolding quiet_def by (blast intro: step_frame_trans)
  with assms show ?thesis
    by (simp add: quiet_def step_ok_def calls_between_def Let_def)
qed

lemma plain_finish_simps:
  "is_terminal (fst (plain_finish r st))"
  "acb_llm_calls_used (fst (plain_finish r st)) = acb_llm_calls_used (fst st) + 1"
  "acb_quota_remaining (fst (plain_finish r st)) = acb_quota_remaining (fst st) - 1"
  "step_frame (charge r (fst st)) (fst (plain_finish r st))"
  "w_ran (snd (plain_finish r st)) = w_ran (snd st)"
  "w_quota (snd (plain_finish r st)) = w_quota (snd st)"
proof -
  show "is_terminal (fst (plain_finish r st))"
    by (cases "acb_state (fst st) = ZOMBIE")
       (simp_all add: plain_finish_def Let_def is_terminal_def [of "fst st"])
  show "step_frame (charge r (fst st)) (fst (plain_finish r st))"
    by (simp add: plain_finish_def Let_def step_frame_def record_exchange_def push_page_def
        set_result_def)
qed (simp_all add: plain_finish_def Let_def)

text \<open>The state at the time of the request.\<close>

definition running :: "step_state \<Rightarrow> step_state" where
  "running st = (if acb_state (fst st) \<noteq> RUNNING then do_move RUNNING st else st)"

lemma running_simps [simp]:
  "quiet (fst st) (fst (running st))" "w_ran (snd (running st)) = w_ran (snd st)"
  "w_quota (snd (running st)) = w_quota (snd st)" "w_calls (snd (running st)) = w_calls (snd st)"
  "acb_pager (fst (running st)) = acb_pager (fst st)"
  by (simp_all add: running_def)

lemma run_plain_step_cases:
  obtains (no_client) e where "run_plain_step env st = (st, Inl e)"
  | (ended) "is_terminal (fst st)" "run_plain_step env st = (st, Inr False)"
  | (exhausted) "\<not> is_terminal (fst st)" "acb_quota_remaining (fst st) \<le> 0"
      "run_plain_step env st = (do_fail ERROR quota_exhausted st, Inr False)"
  | (paging) c e where "\<not> is_terminal (fst st)"
      "run_plain_step env st = (fail_with e (fst (build_messages (with_client c env) (running st))), Inr False)"
  | (refused) c e ms x y where "\<not> is_terminal (fst st)"
      "run_plain_step env st = (fail_with e (fst (do_chat env c ms x y
         (fst (build_messages (with_client c env) (running st))))), Inr False)"
  | (answered) c r ms x y where "\<not> is_terminal (fst st)" "0 < acb_quota_remaining (fst st)"
      "run_plain_step env st = (plain_finish r (fst (do_chat env c ms x y
         (fst (build_messages (with_client c env) (running st))))), Inr False)"
proof (cases "client_or_solar env")
  case (Inl e)
  then show ?thesis using no_client by (simp add: run_plain_step_def)
next
  case (Inr c)
  consider "is_terminal (fst st)" | "\<not> is_terminal (fst st)" "acb_quota_remaining (fst st) \<le> 0"
    | "\<not> is_terminal (fst st)" "0 < acb_quota_remaining (fst st)" by linarith
  then show ?thesis
  proof cases
    case 1
    then show ?thesis using ended Inr by (simp add: run_plain_step_def)
  next
    case 2
    then show ?thesis using exhausted Inr by (simp add: run_plain_step_def)
  next
    case 3
    let ?built = "build_messages (with_client c env) (running st)"
    let ?out = "\<lambda>ms. do_chat env c ms (min (max_tokens (acb_capability (fst st))) 1024)
                    (acb_timeout_s (fst st)) (fst ?built)"
    have eq: "run_plain_step env st =
        (case snd ?built of
           Inl e \<Rightarrow> (fail_with e (fst ?built), Inr False)
         | Inr ms \<Rightarrow> (case snd (?out ms) of
              Inl e \<Rightarrow> (fail_with e (fst (?out ms)), Inr False)
            | Inr r \<Rightarrow> (plain_finish r (fst (?out ms)), Inr False)))"
      using 3 Inr by (simp add: run_plain_step_def running_def Let_def split: sum.split)
    show ?thesis
    proof (cases "snd ?built")
      case (Inl e)
      with eq 3 paging show ?thesis by simp
    next
      case (Inr ms)
      then show ?thesis
        using eq 3 refused answered by (cases "snd (?out ms)") (simp_all del: do_chat_simps)
    qed
  qed
qed

lemma plain_built_quiet:
  "quiet (fst st) (fst (fst (build_messages env (running st))))"
  "quiet (fst st) (fst (fst (do_chat env' c ms x y (fst (build_messages env (running st))))))"
proof -
  show q: "quiet (fst st) (fst (fst (build_messages env (running st))))"
    by (rule quiet_trans [OF running_simps(1) quiet_paged [OF build_messages_keeps(1)]])
  from quiet_trans [OF q quiet_intros(3)]
  show "quiet (fst st) (fst (fst (do_chat env' c ms x y (fst (build_messages env (running st))))))"
    by simp
qed

lemma run_plain_step_ok: "step_ok st (run_plain_step env st)"
proof (cases rule: run_plain_step_cases [of env st])
  case (paging c e)
  from quiet_trans [OF plain_built_quiet(1) quiet_fail] show ?thesis
    unfolding paging(2) by (intro step_ok_stop) simp_all
next
  case (refused c e ms x y)
  from quiet_trans [OF plain_built_quiet(2) quiet_fail] show ?thesis
    unfolding refused(2) by (intro step_ok_stop) simp_all
next
  case (answered c r ms x y)
  show ?thesis
    unfolding answered(3)
    by (rule step_ok_charged [OF plain_built_quiet(2) plain_finish_simps(4)])
       (use answered in \<open>simp_all add: plain_finish_simps\<close>)
qed (simp_all add: step_ok_raise step_ok_stop step_ok_fail)

interpretation plain: step_runner "run_plain_step env" for env
  by (rule step_runnerI) (rule run_plain_step_ok)

end
