(* ===== verification/Regex.thy ===== *)
theory Regex
  imports Py_Text
begin

text \<open>
  Python's regular expressions as far as the program uses them: a backtracking matcher that
  returns every way to match, in the order in which \<open>re\<close> tries them, and
  \<open>search\<close> and \<open>finditer\<close> on top of it. In all patterns of the program a
  repetition applies to a single character class, so the repetition of the model does.
  \<open>rx_lang\<close> is the declarative meaning of a pattern, with the text around the match, and
  the matcher is proved to decide it.
\<close>

section \<open>Patterns\<close>

datatype rx =
    REps
  | RClass "char \<Rightarrow> bool"
  | RSeq rx rx
  | RAlt rx rx
  | RStar "char \<Rightarrow> bool"
  | RLazy "char \<Rightarrow> bool"
  | RGroup nat rx
  | RWordB
  | RNotBehind "char \<Rightarrow> bool"

text \<open>Literal text, exactly or up to case, and the repetition with at least one occurrence.\<close>

fun rx_lit :: "string \<Rightarrow> rx" where
  "rx_lit [] = REps"
| "rx_lit [c] = RClass (\<lambda>x. x = c)"
| "rx_lit (c # d # cs) = RSeq (RClass (\<lambda>x. x = c)) (rx_lit (d # cs))"

fun rx_lit_nocase :: "string \<Rightarrow> rx" where
  "rx_lit_nocase [] = REps"
| "rx_lit_nocase [c] = RClass (\<lambda>x. char_lower x = char_lower c)"
| "rx_lit_nocase (c # d # cs) =
     RSeq (RClass (\<lambda>x. char_lower x = char_lower c)) (rx_lit_nocase (d # cs))"

fun rx_seq :: "rx list \<Rightarrow> rx" where
  "rx_seq [] = REps"
| "rx_seq [r] = r"
| "rx_seq (r # q # rs) = RSeq r (rx_seq (q # rs))"

fun rx_alts :: "rx \<Rightarrow> rx list \<Rightarrow> rx" where
  "rx_alts r [] = r"
| "rx_alts r (q # rs) = RAlt r (rx_alts q rs)"

definition rx_plus :: "(char \<Rightarrow> bool) \<Rightarrow> rx" where
  "rx_plus f = RSeq (RClass f) (RStar f)"

section \<open>The matcher\<close>

text \<open>A position: the character before it, the text after it, the groups captured so far.\<close>

type_synonym rx_pos = "char option \<times> string \<times> (nat \<times> string) list"

fun star_greedy :: "(char \<Rightarrow> bool) \<Rightarrow> char option \<Rightarrow> string \<Rightarrow> (char option \<times> string) list" where
  "star_greedy f p [] = [(p, [])]"
| "star_greedy f p (c # cs) =
     (if f c then star_greedy f (Some c) cs @ [(p, c # cs)] else [(p, c # cs)])"

fun star_lazy :: "(char \<Rightarrow> bool) \<Rightarrow> char option \<Rightarrow> string \<Rightarrow> (char option \<times> string) list" where
  "star_lazy f p [] = [(p, [])]"
| "star_lazy f p (c # cs) =
     (p, c # cs) # (if f c then star_lazy f (Some c) cs else [])"

definition word_at :: "char option \<Rightarrow> bool" where
  "word_at x = (case x of None \<Rightarrow> False | Some c \<Rightarrow> is_word c)"

definition first_char :: "string \<Rightarrow> char option" where
  "first_char s = (case s of [] \<Rightarrow> None | c # _ \<Rightarrow> Some c)"

definition word_boundary :: "char option \<Rightarrow> string \<Rightarrow> bool" where
  "word_boundary p s = (word_at p \<noteq> word_at (first_char s))"

fun rx_match :: "rx \<Rightarrow> rx_pos \<Rightarrow> rx_pos list" where
  "rx_match REps pos = [pos]"
| "rx_match (RClass f) (p, s, g) =
     (case s of [] \<Rightarrow> [] | c # cs \<Rightarrow> if f c then [(Some c, cs, g)] else [])"
| "rx_match (RSeq r q) pos = concat (map (rx_match q) (rx_match r pos))"
| "rx_match (RAlt r q) pos = rx_match r pos @ rx_match q pos"
| "rx_match (RStar f) (p, s, g) = map (\<lambda>(p', s'). (p', s', g)) (star_greedy f p s)"
| "rx_match (RLazy f) (p, s, g) = map (\<lambda>(p', s'). (p', s', g)) (star_lazy f p s)"
| "rx_match (RGroup n r) (p, s, g) =
     map (\<lambda>(p', s', g'). (p', s', (n, take (length s - length s') s) # g')) (rx_match r (p, s, g))"
| "rx_match RWordB (p, s, g) = (if word_boundary p s then [(p, s, g)] else [])"
| "rx_match (RNotBehind f) (p, s, g) =
     (case p of None \<Rightarrow> [(p, s, g)] | Some c \<Rightarrow> if f c then [] else [(p, s, g)])"

text \<open>A match: its text, its groups, and where it ends.\<close>

record rx_found =
  rf_text :: string
  rf_groups :: "(nat \<times> string) list"
  rf_prev :: "char option"
  rf_rest :: string

definition group_of :: "nat \<Rightarrow> rx_found \<Rightarrow> string" where
  "group_of n m = (case map_of (rf_groups m) n of None \<Rightarrow> [] | Some s \<Rightarrow> s)"

definition rx_at :: "rx \<Rightarrow> char option \<Rightarrow> string \<Rightarrow> rx_found option" where
  "rx_at r p s =
     (case rx_match r (p, s, []) of
        [] \<Rightarrow> None
      | (p', s', g) # _ \<Rightarrow>
          Some \<lparr>rf_text = take (length s - length s') s, rf_groups = g, rf_prev = p', rf_rest = s'\<rparr>)"

text \<open>\<open>pattern.search\<close>: the leftmost position with a match.\<close>

fun rx_search :: "rx \<Rightarrow> char option \<Rightarrow> string \<Rightarrow> rx_found option" where
  "rx_search r p [] = rx_at r p []"
| "rx_search r p (c # cs) =
     (case rx_at r p (c # cs) of Some m \<Rightarrow> Some m | None \<Rightarrow> rx_search r (Some c) cs)"

text \<open>
  \<open>pattern.finditer\<close> for a pattern that never matches the empty string: each search starts
  where the last match ended.
\<close>

function rx_finditer :: "rx \<Rightarrow> char option \<Rightarrow> string \<Rightarrow> rx_found list" where
  "rx_finditer r p s =
     (case rx_search r p s of
        None \<Rightarrow> []
      | Some m \<Rightarrow> if length (rf_rest m) < length s then m # rx_finditer r (rf_prev m) (rf_rest m) else [m])"
  by pat_completeness auto
termination
  by (relation "measure (\<lambda>(r, p, s). length s)") auto

declare rx_finditer.simps [simp del]

section \<open>The meaning of a pattern\<close>

text \<open>\<open>rx_lang r p u v\<close>: after the character \<open>p\<close> and before the text \<open>v\<close>, \<open>r\<close> can match \<open>u\<close>.\<close>

definition prev_after :: "char option \<Rightarrow> string \<Rightarrow> char option" where
  "prev_after p u = (if u = [] then p else Some (last u))"

inductive rx_lang :: "rx \<Rightarrow> char option \<Rightarrow> string \<Rightarrow> string \<Rightarrow> bool" where
  eps: "rx_lang REps p [] v"
| cls: "f c \<Longrightarrow> rx_lang (RClass f) p [c] v"
| seq: "rx_lang r p u (u' @ v) \<Longrightarrow> rx_lang q (prev_after p u) u' v \<Longrightarrow> rx_lang (RSeq r q) p (u @ u') v"
| alt1: "rx_lang r p u v \<Longrightarrow> rx_lang (RAlt r q) p u v"
| alt2: "rx_lang q p u v \<Longrightarrow> rx_lang (RAlt r q) p u v"
| star: "\<forall>c \<in> set u. f c \<Longrightarrow> rx_lang (RStar f) p u v"
| lazy: "\<forall>c \<in> set u. f c \<Longrightarrow> rx_lang (RLazy f) p u v"
| grp: "rx_lang r p u v \<Longrightarrow> rx_lang (RGroup n r) p u v"
| wordb: "word_boundary p v \<Longrightarrow> rx_lang RWordB p [] v"
| behind: "(\<And>c. p = Some c \<Longrightarrow> \<not> f c) \<Longrightarrow> rx_lang (RNotBehind f) p [] v"

inductive_simps rx_lang_simps:
  "rx_lang REps p u v" "rx_lang (RClass f) p u v" "rx_lang (RSeq r q) p u v"
  "rx_lang (RAlt r q) p u v" "rx_lang (RStar f) p u v" "rx_lang (RLazy f) p u v"
  "rx_lang (RGroup n r) p u v" "rx_lang RWordB p u v" "rx_lang (RNotBehind f) p u v"

section \<open>The matcher decides the meaning\<close>

lemma prev_after_simps [simp]:
  "prev_after p [] = p" "prev_after p (c # cs) = prev_after (Some c) cs"
  "prev_after (prev_after p u) v = prev_after p (u @ v)"
  by (auto simp: prev_after_def)

lemma star_greedy_set:
  "(p', s') \<in> set (star_greedy f p s) \<longleftrightarrow>
     (\<exists>u. s = u @ s' \<and> p' = prev_after p u \<and> (\<forall>c \<in> set u. f c))"
proof (induction f p s rule: star_greedy.induct)
  case (2 f p c cs)
  have "(p', s') \<in> set (star_greedy f p (c # cs)) \<longleftrightarrow>
      (p', s') = (p, c # cs) \<or> f c \<and> (\<exists>u. cs = u @ s' \<and> p' = prev_after (Some c) u \<and> (\<forall>c \<in> set u. f c))"
    using 2 by auto
  also have "\<dots> \<longleftrightarrow> (\<exists>u. c # cs = u @ s' \<and> p' = prev_after p u \<and> (\<forall>c \<in> set u. f c))"
    by (auto simp: Cons_eq_append_conv)
  finally show ?case .
qed auto

lemma star_lazy_set: "set (star_lazy f p s) = set (star_greedy f p s)"
  by (induction f p s rule: star_lazy.induct) auto

lemma rx_match_lang:
  "(\<exists>g'. (p', s', g') \<in> set (rx_match r (p, s, g))) \<longleftrightarrow>
     (\<exists>u. s = u @ s' \<and> p' = prev_after p u \<and> rx_lang r p u s')"
proof (induction r arbitrary: p s g p' s')
  case (RSeq r q)
  have "(\<exists>g'. (p', s', g') \<in> set (rx_match (RSeq r q) (p, s, g))) \<longleftrightarrow>
      (\<exists>p1 s1. (\<exists>g1. (p1, s1, g1) \<in> set (rx_match r (p, s, g)) \<and>
         (\<exists>g'. (p', s', g') \<in> set (rx_match q (p1, s1, g1)))))"
    by auto
  also have "\<dots> \<longleftrightarrow> (\<exists>p1 s1. (\<exists>g1. (p1, s1, g1) \<in> set (rx_match r (p, s, g))) \<and>
         (\<exists>u. s1 = u @ s' \<and> p' = prev_after p1 u \<and> rx_lang q p1 u s'))"
    using RSeq.IH(2) by auto
  also have "\<dots> \<longleftrightarrow> (\<exists>u1 u2. s = u1 @ u2 @ s' \<and> p' = prev_after p (u1 @ u2) \<and>
         rx_lang r p u1 (u2 @ s') \<and> rx_lang q (prev_after p u1) u2 s')"
    unfolding RSeq.IH(1)
  proof (intro iffI; (elim exE conjE)?)
    fix p1 s1 u u'
    assume "s = u @ s1" "p1 = prev_after p u" "rx_lang r p u s1"
      "s1 = u' @ s'" "p' = prev_after p1 u'" "rx_lang q p1 u' s'"
    then show "\<exists>u1 u2. s = u1 @ u2 @ s' \<and> p' = prev_after p (u1 @ u2) \<and>
         rx_lang r p u1 (u2 @ s') \<and> rx_lang q (prev_after p u1) u2 s'"
      by (intro exI [of _ u] exI [of _ u']) simp
  next
    fix u1 u2
    assume "s = u1 @ u2 @ s'" "p' = prev_after p (u1 @ u2)" "rx_lang r p u1 (u2 @ s')"
      "rx_lang q (prev_after p u1) u2 s'"
    then show "\<exists>p1 s1. (\<exists>u. s = u @ s1 \<and> p1 = prev_after p u \<and> rx_lang r p u s1) \<and>
         (\<exists>u. s1 = u @ s' \<and> p' = prev_after p1 u \<and> rx_lang q p1 u s')"
      by (intro exI [of _ "prev_after p u1"] exI [of _ "u2 @ s'"] conjI exI [of _ u1] exI [of _ u2])
         simp_all
  qed
  also have "\<dots> \<longleftrightarrow> (\<exists>u. s = u @ s' \<and> p' = prev_after p u \<and> rx_lang (RSeq r q) p u s')"
    unfolding rx_lang_simps(3) by (metis append.assoc)
  finally show ?case .
next
  case (RAlt r q)
  have "(\<exists>g'. (p', s', g') \<in> set (rx_match (RAlt r q) (p, s, g))) \<longleftrightarrow>
      (\<exists>g'. (p', s', g') \<in> set (rx_match r (p, s, g))) \<or> (\<exists>g'. (p', s', g') \<in> set (rx_match q (p, s, g)))"
    by auto
  then show ?case
    unfolding RAlt.IH rx_lang_simps(4) by blast
next
  case (RStar f)
  then show ?case using star_greedy_set [of p' s' f p s] by (force simp: rx_lang_simps)
next
  case (RLazy f)
  then show ?case
    using star_greedy_set [of p' s' f p s] by (force simp: rx_lang_simps star_lazy_set)
next
  case (RGroup n r)
  have "(\<exists>g'. (p', s', g') \<in> set (rx_match (RGroup n r) (p, s, g))) \<longleftrightarrow>
      (\<exists>g'. (p', s', g') \<in> set (rx_match r (p, s, g)))"
    by force
  with RGroup.IH show ?case by (simp add: rx_lang_simps)
next
  case (RClass f)
  then show ?case by (cases s) (auto simp: rx_lang_simps)
next
  case (RNotBehind f)
  then show ?case by (cases p) (auto simp: rx_lang_simps)
qed (auto simp: rx_lang_simps)

lemma rx_at_iff: "rx_at r p s \<noteq> None \<longleftrightarrow> (\<exists>u v. s = u @ v \<and> rx_lang r p u v)"
proof -
  have "rx_at r p s \<noteq> None \<longleftrightarrow> (\<exists>p' s' g'. (p', s', g') \<in> set (rx_match r (p, s, [])))"
    by (cases "rx_match r (p, s, [])") (auto simp: rx_at_def split: prod.splits)
  also have "\<dots> \<longleftrightarrow> (\<exists>u v. s = u @ v \<and> rx_lang r p u v)"
    using rx_match_lang [of _ _ r p s "[]"] by auto
  finally show ?thesis .
qed

lemma rx_at_text:
  assumes "rx_at r p s = Some m"
  shows "s = rf_text m @ rf_rest m" and "rx_lang r p (rf_text m) (rf_rest m)"
proof -
  from assms obtain p' s' g xs where m: "rx_match r (p, s, []) = (p', s', g) # xs"
    "m = \<lparr>rf_text = take (length s - length s') s, rf_groups = g, rf_prev = p', rf_rest = s'\<rparr>"
    by (auto simp: rx_at_def split: list.splits)
  then have "\<exists>g'. (p', s', g') \<in> set (rx_match r (p, s, []))" by auto
  then obtain u where "s = u @ s'" "rx_lang r p u s'"
    using rx_match_lang by blast
  with m show "s = rf_text m @ rf_rest m" and "rx_lang r p (rf_text m) (rf_rest m)"
    by simp_all
qed

text \<open>\<open>search\<close> succeeds exactly on the texts that contain a match somewhere.\<close>

lemma search_here: "rx_at r p s \<noteq> None \<Longrightarrow> rx_search r p s \<noteq> None"
  by (cases s) (auto split: option.splits)

lemma rx_search_found:
  "rx_lang r (prev_after p x) u v \<Longrightarrow> rx_search r p (x @ u @ v) \<noteq> None"
proof (induction x arbitrary: p)
  case Nil
  then have "rx_at r p (u @ v) \<noteq> None"
    using rx_at_iff [of r p "u @ v"] by auto
  then show ?case using search_here by simp
next
  case (Cons c x)
  from Cons.prems have "rx_search r (Some c) (x @ u @ v) \<noteq> None"
    by (intro Cons.IH) simp
  then show ?case by (auto split: option.splits)
qed

lemma rx_search_text:
  "rx_search r p s = Some m \<Longrightarrow>
     \<exists>x. s = x @ rf_text m @ rf_rest m \<and> rx_lang r (prev_after p x) (rf_text m) (rf_rest m)"
proof (induction r p s rule: rx_search.induct)
  case (1 r p)
  then have "rx_at r p [] = Some m" by simp
  from rx_at_text [OF this] show ?case by (intro exI [of _ "[]"]) simp
next
  case (2 r p c cs)
  show ?case
  proof (cases "rx_at r p (c # cs)")
    case None
    with 2 obtain x where "cs = x @ rf_text m @ rf_rest m"
      "rx_lang r (prev_after (Some c) x) (rf_text m) (rf_rest m)" by auto
    then show ?thesis by (intro exI [of _ "c # x"]) simp
  next
    case (Some m')
    with 2 have "rx_at r p (c # cs) = Some m" by simp
    from rx_at_text [OF this] show ?thesis by (intro exI [of _ "[]"]) simp
  qed
qed

lemma rx_search_iff:
  "rx_search r p s \<noteq> None \<longleftrightarrow> (\<exists>x u v. s = x @ u @ v \<and> rx_lang r (prev_after p x) u v)"
  using rx_search_found [of r p] rx_search_text [of r p s] by blast

lemma rx_lang_class_seq:
  "rx_lang (RSeq (RClass f) q) p u v \<longleftrightarrow> (\<exists>c u'. u = c # u' \<and> f c \<and> rx_lang q (Some c) u' v)"
proof
  assume "rx_lang (RSeq (RClass f) q) p u v"
  then show "\<exists>c u'. u = c # u' \<and> f c \<and> rx_lang q (Some c) u' v"
    by (auto simp: rx_lang_simps(2,3))
next
  assume "\<exists>c u'. u = c # u' \<and> f c \<and> rx_lang q (Some c) u' v"
  then obtain c u' where "u = [c] @ u'" "f c" "rx_lang q (prev_after p [c]) u' v"
    by auto
  then show "rx_lang (RSeq (RClass f) q) p u v"
    by (metis rx_lang.cls rx_lang.seq)
qed

lemma rx_lang_lit: "rx_lang (rx_lit s) p u v \<longleftrightarrow> u = s"
  by (induction s arbitrary: p u v rule: rx_lit.induct) (auto simp: rx_lang_simps(1,2) rx_lang_class_seq)

end
