(* ===== verification/Policy_Gate.thy ===== *)
theory Policy_Gate
  imports Regex
begin

text \<open>
  The policy gate (\<open>gcos/sandbox/policy_gate.py\<close>): the scan of a prompt for tags such
  as \<open>[SHELL: ...]\<close> and the scan of code for dangerous constructs, each a search with
  the source's regular expressions, in the source's order.
\<close>

section \<open>Results\<close>

datatype decision = ALLOW | DENY

record gate_result =
  gr_decision :: decision
  gr_reason :: "string option"
  gr_matched :: "string option"
  gr_rule :: "string option"

definition gate_allow :: gate_result where
  "gate_allow = \<lparr>gr_decision = ALLOW, gr_reason = None, gr_matched = None, gr_rule = None\<rparr>"

definition allowed :: "gate_result \<Rightarrow> bool" where
  "allowed g = (gr_decision g = ALLOW)"

section \<open>The prompt\<close>

definition tag_kinds :: "string list" where
  "tag_kinds = [''SHELL'', ''KERNEL'', ''NET'', ''SUDO'', ''EXFIL'', ''EXEC'']"

definition prompt_tag_pattern :: rx where
  "prompt_tag_pattern = rx_seq
     [rx_lit ''['', RStar is_space,
      RGroup 1 (rx_alts (rx_lit_nocase ''SHELL'')
        [rx_lit_nocase ''KERNEL'', rx_lit_nocase ''NET'', rx_lit_nocase ''SUDO'',
         rx_lit_nocase ''EXFIL'', rx_lit_nocase ''EXEC'']),
      RStar is_space, rx_lit '':'', RStar (\<lambda>c. c \<noteq> CHR '']''), rx_lit '']'']"

definition scan_prompt :: "string \<Rightarrow> gate_result" where
  "scan_prompt text =
     (case rx_search prompt_tag_pattern None text of
        None \<Rightarrow> gate_allow
      | Some m \<Rightarrow>
          \<lparr>gr_decision = DENY,
           gr_reason = Some (''prompt contains forbidden tag ['' @ str_upper (group_of 1 m) @ '']''),
           gr_matched = Some (rf_text m), gr_rule = Some ''prompt.jailbreak_tag''\<rparr>)"

section \<open>The code\<close>

definition spaces :: rx where
  "spaces = RStar is_space"

definition quote_class :: rx where
  "quote_class = RClass (\<lambda>c. c = CHR 0x27 \<or> c = CHR 0x22)"

text \<open>A word boundary, the literal, optional white space, an opening parenthesis.\<close>

definition call_of :: "string \<Rightarrow> rx" where
  "call_of s = rx_seq [RWordB, rx_lit s, spaces, rx_lit ''('']"

definition code_rules :: "(rx \<times> string \<times> string) list" where
  "code_rules =
     [(call_of ''os.system'',
        ''code.os_system'', ''os.system() invokes a real shell''),
      (rx_seq [RWordB, rx_lit ''subprocess'', RWordB],
        ''code.subprocess'', ''subprocess module spawns processes''),
      (rx_seq [RWordB, rx_lit ''__import__'', spaces, rx_lit ''('', spaces, quote_class,
               rx_lit ''os'', quote_class],
        ''code.import_os_dynamic'',
        ''dynamic __import__('' @ [CHR 0x27] @ ''os'' @ [CHR 0x27] @ '') bypasses static analysis''),
      (call_of ''eval'', ''code.eval'', ''eval() executes arbitrary expressions''),
      (call_of ''exec'', ''code.exec'', ''exec() executes arbitrary statements''),
      (rx_seq [RWordB, rx_lit ''open'', spaces, rx_lit ''('', spaces, quote_class, rx_lit ''/etc/''],
        ''code.read_system_files'', ''reading /etc/* is forbidden''),
      (rx_seq [RWordB, rx_lit ''socket.'',
               RGroup 1 (RAlt (rx_lit ''socket'') (rx_lit ''create_connection'')), spaces, rx_lit ''(''],
        ''code.network'', ''raw sockets are forbidden in sandbox''),
      (rx_alts (RSeq RWordB (rx_lit ''requests.''))
         [rx_lit ''urllib.request.'', rx_lit ''urllib3.'', rx_lit ''httpx.''],
        ''code.network_lib'', ''HTTP libraries are forbidden in sandbox''),
      (rx_seq [RWordB, rx_lit ''rm'', rx_plus is_space, rx_lit ''-rf'', rx_plus is_space, rx_lit ''/''],
        ''code.rm_rf_root'', [CHR 0x60] @ ''rm -rf /'' @ [CHR 0x60] @ '' pattern in source''),
      (rx_seq [RWordB, RGroup 1 (rx_lit ''shutil.rmtree''), spaces, rx_lit ''('', spaces, quote_class,
               rx_lit ''/''],
        ''code.shutil_rmtree_root'', ''shutil.rmtree on an absolute root path''),
      (call_of ''os.popen'', ''code.os_popen'', ''os.popen() runs a shell command''),
      (call_of ''__import__'',
        ''code.import_dynamic'', ''dynamic __import__() of any module bypasses static checks''),
      (rx_seq [RNotBehind (\<lambda>c. c = CHR ''.'' \<or> is_word c), rx_lit ''compile'', spaces, rx_lit ''(''],
        ''code.compile'', ''compile() builds code objects for exec/eval''),
      (rx_seq [RWordB, rx_lit ''pty.'',
               RGroup 1 (rx_alts (rx_lit ''spawn'') [rx_lit ''fork'', rx_lit ''openpty'']),
               spaces, rx_lit ''(''],
        ''code.pty'', ''pty.* can spawn an interactive shell''),
      (rx_seq [RWordB, rx_lit ''__builtins__'', RWordB],
        ''code.builtins_access'', ''touching __builtins__ is a sandbox-escape pattern''),
      (rx_seq [RWordB, rx_lit ''globals'', spaces, rx_lit ''('', spaces, rx_lit '')'', spaces, rx_lit ''[''],
        ''code.globals_index'', ''indexing globals() is used to reach hidden builtins''),
      (rx_seq [RWordB, rx_lit ''os.'',
               RGroup 1 (rx_alts (rx_lit ''remove'') [rx_lit ''unlink'', rx_lit ''rmdir'']),
               spaces, rx_lit ''('', spaces, quote_class, rx_lit ''/''],
        ''code.fs_delete_abs'', ''deleting an absolute path (e.g. /etc/*) is forbidden'')]"

fun scan_rules :: "(rx \<times> string \<times> string) list \<Rightarrow> string \<Rightarrow> gate_result" where
  "scan_rules [] code = gate_allow"
| "scan_rules ((pattern, rule_id, reason) # rules) code =
     (case rx_search pattern None code of
        None \<Rightarrow> scan_rules rules code
      | Some m \<Rightarrow>
          \<lparr>gr_decision = DENY, gr_reason = Some reason, gr_matched = Some (rf_text m),
           gr_rule = Some rule_id\<rparr>)"

definition scan_code :: "string \<Rightarrow> gate_result" where
  "scan_code code = (if code = [] then gate_allow else scan_rules code_rules code)"

definition check :: "string \<Rightarrow> string \<Rightarrow> py_exc + gate_result" where
  "check text kind =
     (if kind = ''prompt'' then Inr (scan_prompt text)
      else if kind = ''code'' then Inr (scan_code text)
      else Inl (OtherExc ''ValueError'' (''unknown gate kind: '' @ py_repr kind)))"

definition iter_code_rule_ids :: "string list" where
  "iter_code_rule_ids = map (\<lambda>(r, i, m). i) code_rules"

section \<open>Lemmas\<close>

lemma scan_rules_deny_iff:
  "\<not> allowed (scan_rules rs code) \<longleftrightarrow> (\<exists>r i m. (r, i, m) \<in> set rs \<and> rx_search r None code \<noteq> None)"
proof (induction rs code rule: scan_rules.induct)
  case (2 pattern rule_id reason rules code)
  show ?case
  proof (cases "rx_search pattern None code")
    case None
    then show ?thesis using 2 by auto
  next
    case (Some m)
    then have "\<not> allowed (scan_rules ((pattern, rule_id, reason) # rules) code)"
      by (simp add: allowed_def)
    moreover have "(pattern, rule_id, reason) \<in> set ((pattern, rule_id, reason) # rules)" by simp
    ultimately show ?thesis using Some by blast
  qed
qed (simp add: allowed_def gate_allow_def)

text \<open>A pattern that needs a character cannot match the empty text.\<close>

fun needs_char :: "rx \<Rightarrow> bool" where
  "needs_char (RClass f) = True"
| "needs_char (RSeq r q) = (needs_char r \<or> needs_char q)"
| "needs_char (RAlt r q) = (needs_char r \<and> needs_char q)"
| "needs_char (RGroup n r) = needs_char r"
| "needs_char _ = False"

lemma needs_char_lang: "rx_lang r p u v \<Longrightarrow> needs_char r \<Longrightarrow> u \<noteq> []"
  by (induction rule: rx_lang.induct) auto

lemma code_rules_need_char: "(r, i, m) \<in> set code_rules \<Longrightarrow> needs_char r"
  by (auto simp: code_rules_def call_of_def rx_plus_def)

lemma scan_code_deny_iff:
  "\<not> allowed (scan_code code) \<longleftrightarrow>
     (\<exists>r i m. (r, i, m) \<in> set code_rules \<and> rx_search r None code \<noteq> None)"
proof (cases "code = []")
  case True
  have "rx_search r None [] = None" if "(r, i, m) \<in> set code_rules" for r i m
    using rx_search_iff [of r None "[]"] needs_char_lang code_rules_need_char [OF that] by force
  with True show ?thesis
    by (auto simp: scan_code_def allowed_def gate_allow_def)
qed (simp add: scan_code_def scan_rules_deny_iff)

text \<open>
  A pattern whose lookbehinds tolerate a line end matches the same text when the beginning
  and the end of the input become line ends.
\<close>

fun line_safe :: "rx \<Rightarrow> bool" where
  "line_safe (RNotBehind f) = (\<not> f nl)"
| "line_safe (RSeq r q) = (line_safe r \<and> line_safe q)"
| "line_safe (RAlt r q) = (line_safe r \<and> line_safe q)"
| "line_safe (RGroup n r) = line_safe r"
| "line_safe _ = True"

definition line_prev :: "char option \<Rightarrow> char option" where
  "line_prev p = (case p of None \<Rightarrow> Some nl | Some c \<Rightarrow> Some c)"

lemma nl_not_word [simp]: "\<not> is_word nl" "is_space nl"
  by (simp_all add: is_word_def is_digit_def is_upper_def is_lower_def is_space_def nl_def
      char_code_def)

lemma word_boundary_line:
  "word_boundary (line_prev p) (v @ nl # y) = word_boundary p v"
  by (auto simp: word_boundary_def word_at_def line_prev_def first_char_def
      split: option.splits list.splits)

lemma prev_after_line: "prev_after (line_prev p) u = line_prev (prev_after p u)"
  by (simp add: prev_after_def line_prev_def)

lemma rx_lang_lines:
  "rx_lang r p u v \<Longrightarrow> line_safe r \<Longrightarrow> rx_lang r (line_prev p) u (v @ nl # y)"
proof (induction rule: rx_lang.induct)
  case (seq r p u u' v q)
  then show ?case
    by (auto intro!: rx_lang.seq simp: prev_after_line)
next
  case (wordb p v)
  then show ?case by (simp add: rx_lang.wordb word_boundary_line)
next
  case (behind p f v)
  then show ?case by (auto intro!: rx_lang.behind simp: line_prev_def split: option.splits)
qed (auto intro: rx_lang.intros)

lemma code_rules_line_safe: "(r, i, m) \<in> set code_rules \<Longrightarrow> line_safe r"
  by (auto simp: code_rules_def call_of_def spaces_def quote_class_def rx_plus_def)
     (simp_all add: nl_def)

lemma search_in_lines:
  assumes "rx_search r None c \<noteq> None" and "line_safe r"
  shows "rx_search r None (x @ nl # c @ nl # y) \<noteq> None"
proof -
  from assms(1) obtain a u v where c: "c = a @ u @ v" and l: "rx_lang r (prev_after None a) u v"
    using rx_search_iff by blast
  have "prev_after None (x @ nl # a) = line_prev (prev_after None a)"
    by (simp add: prev_after_def line_prev_def)
  with rx_lang_lines [OF l assms(2), of y]
  have "rx_lang r (prev_after None (x @ nl # a)) u (v @ nl # y)" by simp
  then have "rx_search r None ((x @ nl # a) @ u @ (v @ nl # y)) \<noteq> None"
    by (rule rx_search_found)
  then show ?thesis by (simp add: c)
qed

lemma rx_lang_lit_nocase: "rx_lang (rx_lit_nocase s) p u v \<longleftrightarrow> str_lower u = str_lower s"
  by (induction s arbitrary: p u v rule: rx_lit_nocase.induct)
     (auto simp: rx_lang_class_seq rx_lang_simps(1,2) str_lower_def map_eq_Cons_conv)

lemma split_six:
  "(\<exists>a b. u = a @ b \<and> a = s1 \<and> (\<exists>c d. b = c @ d \<and> P c \<and> (\<exists>e f. d = e @ f \<and> Q e \<and>
      (\<exists>g h. f = g @ h \<and> P g \<and> (\<exists>i j. h = i @ j \<and> i = s2 \<and>
        (\<exists>k l. j = k @ l \<and> R k \<and> l = s3))))))
   \<longleftrightarrow> (\<exists>c e g k. u = s1 @ c @ e @ g @ s2 @ k @ s3 \<and> P c \<and> P g \<and> Q e \<and> R k)"
  (is "?L \<longleftrightarrow> ?R")
proof
  assume ?L
  then obtain c e g k where "u = s1 @ c @ e @ g @ s2 @ k @ s3" "P c" "Q e" "P g" "R k"
    by (elim exE conjE) (hypsubst, rule that, (assumption | rule refl)+)
  then show ?R by (intro exI conjI)
next
  assume ?R
  then show ?L by (elim exE conjE) (intro exI conjI, (assumption | rule refl)+)
qed

lemma split_around:
  "(\<exists>x u v. text = x @ u @ v \<and> (\<exists>c e g k. u = s1 @ c @ e @ g @ s2 @ k @ s3 \<and> P c \<and> Q g \<and> R e \<and> S k))
   \<longleftrightarrow> (\<exists>x c e g k v. text = x @ s1 @ c @ e @ g @ s2 @ k @ s3 @ v \<and> P c \<and> Q g \<and> R e \<and> S k)"
proof
  assume "\<exists>x u v. text = x @ u @ v \<and> (\<exists>c e g k. u = s1 @ c @ e @ g @ s2 @ k @ s3 \<and> P c \<and> Q g \<and> R e \<and> S k)"
  then obtain x v c e g k where "text = x @ (s1 @ c @ e @ g @ s2 @ k @ s3) @ v" "P c" "Q g" "R e" "S k"
    by blast
  then show "\<exists>x c e g k v. text = x @ s1 @ c @ e @ g @ s2 @ k @ s3 @ v \<and> P c \<and> Q g \<and> R e \<and> S k"
    by (intro exI [of _ x] exI [of _ c] exI [of _ e] exI [of _ g] exI [of _ k] exI [of _ v]) simp
next
  assume "\<exists>x c e g k v. text = x @ s1 @ c @ e @ g @ s2 @ k @ s3 @ v \<and> P c \<and> Q g \<and> R e \<and> S k"
  then obtain x c e g k v where *: "text = x @ s1 @ c @ e @ g @ s2 @ k @ s3 @ v" "P c" "Q g" "R e" "S k"
    by blast
  show "\<exists>x u v. text = x @ u @ v \<and> (\<exists>c e g k. u = s1 @ c @ e @ g @ s2 @ k @ s3 \<and> P c \<and> Q g \<and> R e \<and> S k)"
    by (rule exI [of _ x], rule exI [of _ "s1 @ c @ e @ g @ s2 @ k @ s3"], rule exI [of _ v])
       (use * in auto)
qed

lemma prompt_tag_lang:
  "rx_lang prompt_tag_pattern p u v \<longleftrightarrow> (\<exists>w1 kind w2 body.
     u = ''['' @ w1 @ kind @ w2 @ '':'' @ body @ '']''
     \<and> list_all is_space w1 \<and> list_all is_space w2
     \<and> str_lower kind \<in> set (map str_lower tag_kinds) \<and> CHR '']'' \<notin> set body)"
proof -
  have kind: "rx_lang (rx_alts (rx_lit_nocase ''SHELL'')
        [rx_lit_nocase ''KERNEL'', rx_lit_nocase ''NET'', rx_lit_nocase ''SUDO'',
         rx_lit_nocase ''EXFIL'', rx_lit_nocase ''EXEC'']) q k w
      \<longleftrightarrow> str_lower k \<in> set (map str_lower tag_kinds)" for q k w
    by (simp only: rx_alts.simps rx_lang_simps(4) rx_lang_lit_nocase tag_kinds_def list.simps
        list.set insert_iff empty_iff simp_thms)
  have body: "(\<forall>c \<in> set b. c \<noteq> CHR '']'') \<longleftrightarrow> CHR '']'' \<notin> set b" for b by auto
  show ?thesis
    unfolding prompt_tag_pattern_def rx_seq.simps rx_lang_simps(3,5,7) rx_lang_lit kind body
      list_all_iff [symmetric]
    by (rule split_six)
qed

section \<open>Properties\<close>

text \<open>
  The prompt gate denies exactly the prompts that contain a forbidden tag: an opening
  bracket, white space, one of the six kinds in any mixture of cases, white space, a colon,
  any text without a closing bracket, and a closing bracket, at any place in the prompt.
\<close>

theorem prompt_gate_exact:
  "\<not> allowed (scan_prompt text) \<longleftrightarrow>
     (\<exists>x w1 kind w2 body y.
        text = x @ ''['' @ w1 @ kind @ w2 @ '':'' @ body @ '']'' @ y
        \<and> list_all is_space w1 \<and> list_all is_space w2
        \<and> str_lower kind \<in> set (map str_lower tag_kinds) \<and> CHR '']'' \<notin> set body)"
proof -
  have "\<not> allowed (scan_prompt text) \<longleftrightarrow> rx_search prompt_tag_pattern None text \<noteq> None"
    by (auto simp: scan_prompt_def allowed_def gate_allow_def split: option.splits)
  also have "\<dots> \<longleftrightarrow> (\<exists>x u v. text = x @ u @ v \<and> rx_lang prompt_tag_pattern (prev_after None x) u v)"
    by (rule rx_search_iff)
  also have "\<dots> \<longleftrightarrow> (\<exists>x w1 kind w2 body y.
        text = x @ ''['' @ w1 @ kind @ w2 @ '':'' @ body @ '']'' @ y
        \<and> list_all is_space w1 \<and> list_all is_space w2
        \<and> str_lower kind \<in> set (map str_lower tag_kinds) \<and> CHR '']'' \<notin> set body)"
    unfolding prompt_tag_lang by (rule split_around)
  finally show ?thesis .
qed


text \<open>
  Surrounding lines cannot hide a blocked construct: code that the gate denies is still
  denied as a block of lines inside any larger program.
\<close>

theorem code_gate_embedding:
  assumes "\<not> allowed (scan_code code)"
  shows "\<not> allowed (scan_code (before @ nl # code @ nl # after))"
proof -
  from assms obtain r i m where rule: "(r, i, m) \<in> set code_rules" and "rx_search r None code \<noteq> None"
    by (auto simp: scan_code_deny_iff)
  then have "rx_search r None (before @ nl # code @ nl # after) \<noteq> None"
    using search_in_lines code_rules_line_safe by blast
  with rule show ?thesis by (auto simp: scan_code_deny_iff)
qed

theorem code_gate_embedding_witness:
  "\<not> allowed (scan_code (''import math'' @ nl # ''eval (y)'' @ nl # ''print(1)''))"
proof -
  have "\<not> allowed (scan_code ''eval (y)'')" by code_simp
  then show ?thesis by (rule code_gate_embedding)
qed

end
