(* ===== verification/Extract.thy ===== *)
theory Extract
  imports Regex
begin

text \<open>
  Code extraction from an LLM reply (\<open>gcos/sandbox/extract.py\<close>): all fenced blocks in
  order, sorted by the preference of their label, and the body of the first.
\<close>

section \<open>The extractor\<close>

definition fence_mark :: string where
  "fence_mark = [CHR 0x60, CHR 0x60, CHR 0x60]"

definition label_char :: "char \<Rightarrow> bool" where
  "label_char c = (is_upper c \<or> is_lower c \<or> is_digit c \<or> c = CHR ''_'' \<or> c = CHR ''+'' \<or> c = CHR ''-'')"

text \<open>Group 1 is the label, group 2 the body.\<close>

definition fence_pattern :: rx where
  "fence_pattern = rx_seq
     [rx_lit fence_mark, RGroup 1 (RStar label_char), RStar is_space, RClass (\<lambda>c. c = nl),
      RGroup 2 (RLazy (\<lambda>c. True)), rx_lit fence_mark]"

definition preferred :: "string \<Rightarrow> nat" where
  "preferred lang =
     (if lang = ''python'' then 1 else if lang = ''py'' then 2 else if lang = [] then 3 else 99)"

definition extract_python :: "string \<Rightarrow> string option" where
  "extract_python text =
     (if text = [] then None
      else
        case sort_key (\<lambda>m. preferred (str_lower (group_of 1 m))) (rx_finditer fence_pattern None text) of
          [] \<Rightarrow> None
        | m # _ \<Rightarrow> Some (str_strip_nl (group_of 2 m)))"

text \<open>A fenced block as a reply contains it.\<close>

definition fenced :: "string \<Rightarrow> string \<Rightarrow> string" where
  "fenced lang body = fence_mark @ lang @ [nl] @ body @ fence_mark"

section \<open>Lemmas\<close>

definition tick_char :: char where
  "tick_char = CHR 0x60"

lemma tick_facts [simp]:
  "\<not> is_space tick_char" "\<not> label_char tick_char" "tick_char \<noteq> nl" "nl \<noteq> tick_char"
  "\<not> label_char nl" "is_space nl" "fence_mark = [tick_char, tick_char, tick_char]"
  by (simp_all add: tick_char_def fence_mark_def is_space_def label_char_def is_upper_def is_lower_def
      is_digit_def char_code_def nl_def)

lemma no_fence_here: "s = [] \<or> hd s \<noteq> tick_char \<Longrightarrow> rx_at fence_pattern p s = None"
  by (cases s) (auto simp: rx_at_def fence_pattern_def)

lemma search_skip:
  "tick_char \<notin> set pre \<Longrightarrow> \<exists>p'. rx_search fence_pattern p (pre @ s) = rx_search fence_pattern p' s"
proof (induction pre arbitrary: p)
  case (Cons c cs)
  then have "rx_at fence_pattern p (c # cs @ s) = None"
    by (intro no_fence_here) auto
  with Cons show ?case by auto
qed auto

lemma no_fence_search: "tick_char \<notin> set s \<Longrightarrow> rx_search fence_pattern p s = None"
proof (induction s arbitrary: p)
  case Nil
  then show ?case by (simp add: no_fence_here)
next
  case (Cons c cs)
  then have "rx_at fence_pattern p (c # cs) = None"
    by (intro no_fence_here) auto
  with Cons show ?case by auto
qed

text \<open>The greedy repetition first tries the longest run.\<close>

lemma star_greedy_run:
  "\<forall>c \<in> set u. f c \<Longrightarrow> \<not> f d \<Longrightarrow>
     \<exists>more. star_greedy f p (u @ d # s) = (prev_after p u, d # s) # more"
proof (induction u arbitrary: p)
  case (Cons c u)
  then obtain more where "star_greedy f (Some c) (u @ d # s) = (prev_after (Some c) u, d # s) # more"
    by auto
  with Cons show ?case by simp
qed simp

text \<open>The lazy repetition stops at the first place where the rest can match.\<close>

lemma star_lazy_first:
  assumes "tick_char \<notin> set body"
  shows "\<exists>more. concat (map (\<lambda>(p', s'). rx_match (rx_lit fence_mark) (p', s', g p' s'))
            (star_lazy (\<lambda>c. True) p (body @ fence_mark @ post)))
          = (Some tick_char, post, g (prev_after p body) (fence_mark @ post)) # more"
  using assms
proof (induction body arbitrary: p)
  case (Cons c body)
  then obtain more where "concat (map (\<lambda>(p', s'). rx_match (rx_lit fence_mark) (p', s', g p' s'))
            (star_lazy (\<lambda>c. True) (Some c) (body @ fence_mark @ post)))
          = (Some tick_char, post, g (prev_after (Some c) body) (fence_mark @ post)) # more"
    by auto
  moreover have "c \<noteq> tick_char" using Cons.prems by auto
  ultimately show ?case by simp
qed simp

lemma seq_first:
  "rx_match r pos = x # xs \<Longrightarrow> rx_match q x = y # ys \<Longrightarrow> \<exists>zs. rx_match (RSeq r q) pos = y # zs"
  by simp

lemma seq_second:
  "rx_match r pos = [x, x'] \<Longrightarrow> rx_match q x = [] \<Longrightarrow> rx_match q x' = y # ys \<Longrightarrow>
     \<exists>zs. rx_match (RSeq r q) pos = y # zs"
  by simp

text \<open>What the pattern captures at a fenced block.\<close>

definition good_block :: "string \<Rightarrow> string \<Rightarrow> bool" where
  "good_block lang body \<longleftrightarrow>
     list_all label_char lang \<and> tick_char \<notin> set body \<and> (body = [] \<or> \<not> is_space (hd body))"

lemma match_body:
  assumes "tick_char \<notin> set body"
  shows "\<exists>zs. rx_match (RSeq (RGroup 2 (RLazy (\<lambda>c. True))) (rx_lit fence_mark))
       (p, body @ fence_mark @ post, g) = (Some tick_char, post, (2, body) # g) # zs"
proof -
  let ?s = "body @ fence_mark @ post"
  let ?g = "\<lambda>p' s'. (2::nat, take (length ?s - length s') ?s) # g"
  have "rx_match (RSeq (RGroup 2 (RLazy (\<lambda>c. True))) (rx_lit fence_mark)) (p, ?s, g)
      = concat (map (\<lambda>(p', s'). rx_match (rx_lit fence_mark) (p', s', ?g p' s'))
          (star_lazy (\<lambda>c. True) p ?s))"
    by (simp add: comp_def case_prod_unfold del: tick_facts)
  with star_lazy_first [OF assms, of ?g p post] show ?thesis by simp
qed

lemma match_block:
  assumes "good_block lang body"
  shows "\<exists>zs. rx_match fence_pattern (p, fenced lang body @ post, [])
      = (Some tick_char, post, [(2, body), (1, lang)]) # zs"
proof -
  let ?after = "body @ fence_mark @ post"
  let ?g = "[(1::nat, lang)]"
  let ?body = "RSeq (RGroup 2 (RLazy (\<lambda>c. True))) (rx_lit fence_mark)"
  let ?line = "RSeq (RClass (\<lambda>c. c = nl)) ?body"
  have lab: "\<forall>c \<in> set lang. label_char c" and nt: "tick_char \<notin> set body"
    using assms by (simp_all add: good_block_def list_all_iff)
  obtain e rest where er: "?after = e # rest" "\<not> is_space e"
    using assms by (cases body) (auto simp: good_block_def)
  then have e: "e \<noteq> nl" by auto
  from match_body [OF nt] obtain zs where
    "rx_match ?body (Some nl, ?after, ?g) = (Some tick_char, post, (2, body) # ?g) # zs"
    by blast
  then have line: "\<exists>zs. rx_match ?line (q, nl # ?after, ?g) = (Some tick_char, post, (2, body) # ?g) # zs" for q
    by (intro seq_first [of _ _ "(Some nl, ?after, ?g)" "[]"]) simp_all
  have blank: "\<exists>zs. rx_match (RSeq (RStar is_space) ?line) (q, nl # ?after, ?g)
      = (Some tick_char, post, (2, body) # ?g) # zs" for q
  proof -
    obtain zs where l: "rx_match ?line (q, nl # ?after, ?g) = (Some tick_char, post, (2, body) # ?g) # zs"
      using line by blast
    have "rx_match (RStar is_space) (q, nl # ?after, ?g) = [(Some nl, ?after, ?g), (q, nl # ?after, ?g)]"
      using er by (simp del: tick_facts(7))
    moreover have "rx_match ?line (Some nl, ?after, ?g) = []"
      using er e by (simp del: tick_facts(7))
    ultimately show ?thesis using l by (rule seq_second)
  qed
  have label: "\<exists>zs. rx_match (RSeq (RGroup 1 (RStar label_char)) (RSeq (RStar is_space) ?line))
      (q, lang @ nl # ?after, []) = (Some tick_char, post, (2, body) # ?g) # zs" for q
  proof -
    obtain more where "star_greedy label_char q (lang @ nl # ?after) = (prev_after q lang, nl # ?after) # more"
      using star_greedy_run [OF lab, of nl q ?after] by auto
    then obtain xs where "rx_match (RGroup 1 (RStar label_char)) (q, lang @ nl # ?after, [])
        = (prev_after q lang, nl # ?after, ?g) # xs"
      by (simp del: tick_facts(7))
    moreover obtain zs where "rx_match (RSeq (RStar is_space) ?line) (prev_after q lang, nl # ?after, ?g)
      = (Some tick_char, post, (2, body) # ?g) # zs"
      using blank by blast
    ultimately show ?thesis by (rule seq_first)
  qed
  obtain zs where "rx_match (RSeq (RGroup 1 (RStar label_char)) (RSeq (RStar is_space) ?line))
      (Some tick_char, lang @ nl # ?after, []) = (Some tick_char, post, (2, body) # ?g) # zs"
    using label by blast
  moreover have "rx_match (rx_lit fence_mark) (p, fenced lang body @ post, [])
      = [(Some tick_char, lang @ nl # ?after, [])]"
    by (simp add: fenced_def)
  ultimately show ?thesis
    unfolding fence_pattern_def rx_seq.simps by (intro seq_first) auto
qed

definition block_found :: "string \<Rightarrow> string \<Rightarrow> string \<Rightarrow> rx_found" where
  "block_found lang body post =
     \<lparr>rf_text = fenced lang body, rf_groups = [(2, body), (1, lang)], rf_prev = Some tick_char,
      rf_rest = post\<rparr>"

lemma search_block:
  assumes "tick_char \<notin> set pre" and "good_block lang body"
  shows "rx_search fence_pattern p (pre @ fenced lang body @ post) = Some (block_found lang body post)"
proof -
  have at: "rx_at fence_pattern q (fenced lang body @ post) = Some (block_found lang body post)" for q
    using match_block [OF assms(2), of q post] by (auto simp: rx_at_def block_found_def)
  then have "rx_search fence_pattern q (fenced lang body @ post) = Some (block_found lang body post)" for q
    by (cases "fenced lang body @ post") (simp_all del: append_is_Nil_conv)
  with search_skip [OF assms(1), of p "fenced lang body @ post"] show ?thesis by auto
qed

text \<open>A reply: text, then blocks, each followed by text.\<close>

definition reply_of :: "string \<Rightarrow> (string \<times> string \<times> string) list \<Rightarrow> string" where
  "reply_of pre blocks = pre @ concat (map (\<lambda>(l, c, t). fenced l c @ t) blocks)"

definition good_reply :: "string \<Rightarrow> (string \<times> string \<times> string) list \<Rightarrow> bool" where
  "good_reply pre blocks \<longleftrightarrow> tick_char \<notin> set pre
     \<and> list_all (\<lambda>(l, c, t). good_block l c \<and> tick_char \<notin> set t) blocks"

lemma finditer_blocks:
  "good_reply pre blocks \<Longrightarrow>
     map (\<lambda>m. (group_of 1 m, group_of 2 m)) (rx_finditer fence_pattern p (reply_of pre blocks))
       = map (\<lambda>(l, c, t). (l, c)) blocks"
proof (induction blocks arbitrary: pre p)
  case Nil
  then show ?case
    by (simp add: rx_finditer.simps reply_of_def good_reply_def no_fence_search)
next
  case (Cons b blocks)
  obtain l c t where b: "b = (l, c, t)" by (metis surj_pair)
  let ?post = "reply_of t blocks"
  have eq: "reply_of pre (b # blocks) = pre @ fenced l c @ ?post"
    by (simp add: reply_of_def b)
  have s: "rx_search fence_pattern p (reply_of pre (b # blocks)) = Some (block_found l c ?post)"
    unfolding eq using Cons.prems by (intro search_block) (simp_all add: good_reply_def b)
  have shorter: "length ?post < length (reply_of pre (b # blocks))"
    by (simp add: eq fenced_def)
  have "good_reply t blocks" using Cons.prems by (simp add: good_reply_def b)
  from Cons.IH [OF this, of "Some tick_char"] show ?case
    using s shorter by (subst rx_finditer.simps) (simp add: block_found_def group_of_def b)
qed

lemma map_insort_key: "map f (insort_key (\<lambda>x. k (f x)) x xs) = insort_key k (f x) (map f xs)"
  by (induction xs) auto

lemma map_sort_key: "map f (sort_key (\<lambda>x. k (f x)) xs) = sort_key k (map f xs)"
  by (induction xs) (simp_all add: map_insort_key)

section \<open>Properties\<close>

text \<open>
  Extraction and fencing are inverse. For a reply made of text and fenced blocks (labels
  of label characters, bodies without backticks that do not start with white space)
  \<open>extract_python\<close> returns the body of the block whose label is most preferred (python,
  then py, then unlabelled, then any other label), the first of these in the reply, without
  the line ends around it; it returns nothing only if there is no block at all. (The
  documentation says that a reply whose only blocks carry other labels yields nothing.)
\<close>

theorem extract_prefers_python:
  assumes "good_reply pre blocks"
  shows "extract_python (reply_of pre blocks) =
    (case sort_key (\<lambda>(l, c, t). preferred (str_lower l)) blocks of
       [] \<Rightarrow> None
     | (l, c, t) # _ \<Rightarrow> Some (str_strip_nl c))"
proof -
  let ?ms = "rx_finditer fence_pattern None (reply_of pre blocks)"
  let ?k = "\<lambda>(l, c). preferred (str_lower l)"
  have "map (\<lambda>m. (group_of 1 m, group_of 2 m)) (sort_key (\<lambda>m. preferred (str_lower (group_of 1 m))) ?ms)
      = sort_key ?k (map (\<lambda>m. (group_of 1 m, group_of 2 m)) ?ms)"
    using map_sort_key [of "\<lambda>m. (group_of 1 m, group_of 2 m)" ?k ?ms] by simp
  also have "\<dots> = sort_key ?k (map (\<lambda>(l, c, t). (l, c)) blocks)"
    using finditer_blocks [OF assms] by simp
  also have "\<dots> = map (\<lambda>(l, c, t). (l, c)) (sort_key (\<lambda>(l, c, t). preferred (str_lower l)) blocks)"
    using map_sort_key [of "\<lambda>(l, c, t). (l, c)" ?k blocks] by (simp add: case_prod_unfold)
  finally have eq: "map (\<lambda>m. (group_of 1 m, group_of 2 m))
        (sort_key (\<lambda>m. preferred (str_lower (group_of 1 m))) ?ms)
      = map (\<lambda>(l, c, t). (l, c)) (sort_key (\<lambda>(l, c, t). preferred (str_lower l)) blocks)" .
  show ?thesis
  proof (cases "sort_key (\<lambda>(l, c, t). preferred (str_lower l)) blocks")
    case Nil
    with eq show ?thesis by (simp add: extract_python_def)
  next
    case (Cons b bs)
    then have "blocks \<noteq> []" by auto
    then have "reply_of pre blocks \<noteq> []"
      by (cases blocks) (auto simp: reply_of_def fenced_def)
    with eq Cons show ?thesis
      by (cases "sort_key (\<lambda>m. preferred (str_lower (group_of 1 m))) ?ms")
         (auto simp: extract_python_def split: prod.splits)
  qed
qed

theorem extract_prefers_python_witness:
  "extract_python (reply_of ''Sure: '' [(''bash'', ''ls'', ''or ''), (''Python'', ''print(1)'' @ [nl], '''')])
     = Some ''print(1)''
   \<and> extract_python (reply_of [] [(''bash'', ''ls'', [])]) = Some ''ls''"
proof -
  have good: "good_reply ''Sure: '' [(''bash'', ''ls'', ''or ''), (''Python'', ''print(1)'' @ [nl], '''')]"
    "good_reply [] [(''bash'', ''ls'', [])]"
    by (simp_all add: good_reply_def good_block_def label_char_def is_upper_def is_lower_def is_digit_def
        is_space_def char_code_def tick_char_def nl_def)
  have sorted: "preferred (str_lower ''bash'') = 99" "preferred (str_lower ''Python'') = 1"
    by code_simp+
  have strip: "str_strip_nl (''print(1)'' @ [nl]) = ''print(1)''" "str_strip_nl ''ls'' = ''ls''"
    by (simp_all add: str_strip_nl_def rstrip_by_def lstrip_by_def nl_def)
  show ?thesis
    using extract_prefers_python [OF good(1)] extract_prefers_python [OF good(2)] sorted strip by simp
qed

end
