(* ===== verification/Cgroup.thy ===== *)
theory Cgroup
  imports Py_Text "HOL-Library.AList"
begin

text \<open>
  Resource control through cgroup v2 (\<open>gcos/osprims/cgroup.py\<close>) and the seccomp profile
  of the sandbox (\<open>gcos/osprims/seccomp.py\<close>). The kernel's file system is a parameter:
  which paths can be created and written. The state is the association list of the values
  written so far.

  In Python \<open>priority_to_weight\<close> computes \<open>9990 * (p / 9.0)\<close> in binary floating
  point and truncates; the model computes in exact arithmetic. For the ten values of
  \<open>p\<close> the product is exactly \<open>1110 * p\<close>, which a float represents.
\<close>

section \<open>Weights\<close>

definition clamp_priority :: "int \<Rightarrow> int" where
  "clamp_priority p = max 0 (min 9 p)"

definition priority_to_weight :: "int \<Rightarrow> int" where
  "priority_to_weight p =
     \<lfloor>of_int 10 + of_int (10000 - 10) * (of_int (clamp_priority p) / (9::real))\<rfloor>"

definition priority_to_cpu_shares :: "int \<Rightarrow> int" where
  "priority_to_cpu_shares p = 256 * (clamp_priority p + 1)"

section \<open>The cgroup tree\<close>

text \<open>\<open>cf_available\<close>: \<open>os_caps().cgroup_writable\<close>.\<close>

record cg_host =
  cf_available :: bool
  cf_can_mkdir :: "string \<Rightarrow> bool"
  cf_can_write :: "string \<Rightarrow> bool"

type_synonym cg_fs = "(string \<times> string) list"

definition gcos_root :: string where
  "gcos_root = ''/sys/fs/cgroup/gcos''"

definition path_join :: "string \<Rightarrow> string \<Rightarrow> string" where
  "path_join a b = a @ ''/'' @ b"

definition cg_write :: "cg_host \<Rightarrow> string \<Rightarrow> string \<Rightarrow> cg_fs \<Rightarrow> bool \<times> cg_fs" where
  "cg_write h path v fs =
     (if cf_can_write h path then (True, AList.update path v fs) else (False, fs))"

definition ensure_root :: "cg_host \<Rightarrow> cg_fs \<Rightarrow> bool \<times> cg_fs" where
  "ensure_root h fs =
     (if \<not> cf_available h then (False, fs)
      else if \<not> cf_can_mkdir h gcos_root then (False, fs)
      else
        let subtree = path_join gcos_root ''cgroup.subtree_control''
        in (True, fold (\<lambda>ctrl f. snd (cg_write h subtree ctrl f)) [''+cpu'', ''+memory'', ''+pids''] fs))"

record cgroup =
  cg_name :: string
  cg_path :: string
  cg_enforced :: bool
  cg_cpu_enforced :: bool

definition set_weight :: "cg_host \<Rightarrow> int \<Rightarrow> cgroup \<Rightarrow> cg_fs \<Rightarrow> bool \<times> cg_fs" where
  "set_weight h weight g fs =
     (if \<not> cg_enforced g then (False, fs)
      else cg_write h (path_join (cg_path g) ''cpu.weight'') (show_int weight) fs)"

definition set_weight_from_priority :: "cg_host \<Rightarrow> int \<Rightarrow> cgroup \<Rightarrow> cg_fs \<Rightarrow> bool \<times> cg_fs" where
  "set_weight_from_priority h p g fs = set_weight h (priority_to_weight p) g fs"

definition write_opt :: "cg_host \<Rightarrow> cgroup \<Rightarrow> string \<Rightarrow> string option \<Rightarrow> cg_fs \<Rightarrow> cg_fs" where
  "write_opt h g knob v fs =
     (case v of None \<Rightarrow> fs | Some s \<Rightarrow> snd (cg_write h (path_join (cg_path g) knob) s fs))"

definition cgroup_init ::
  "cg_host \<Rightarrow> string \<Rightarrow> int option \<Rightarrow> string option \<Rightarrow> int option \<Rightarrow> int option \<Rightarrow> cg_fs \<Rightarrow> cgroup \<times> cg_fs"
  where
  "cgroup_init h name weight cpu_max mem_max pids_max fs =
     (let g0 = \<lparr>cg_name = name, cg_path = path_join gcos_root name, cg_enforced = False,
                cg_cpu_enforced = False\<rparr>;
          (ok, fs1) = ensure_root h fs
      in if \<not> ok then (g0, fs1)
         else if \<not> cf_can_mkdir h (cg_path g0) then (g0, fs1)
         else
           let g1 = g0\<lparr>cg_enforced := True\<rparr>;
               (g2, fs2) = (case weight of
                  None \<Rightarrow> (g1, fs1)
                | Some wt \<Rightarrow> (g1\<lparr>cg_cpu_enforced := fst (set_weight h wt g1 fs1)\<rparr>, snd (set_weight h wt g1 fs1)));
               fs3 = write_opt h g2 ''cpu.max'' cpu_max fs2;
               fs4 = write_opt h g2 ''memory.max'' (map_option show_int mem_max) fs3
           in (g2, write_opt h g2 ''pids.max'' (map_option show_int pids_max) fs4))"

definition add_pid :: "cg_host \<Rightarrow> int \<Rightarrow> cgroup \<Rightarrow> cg_fs \<Rightarrow> bool \<times> cg_fs" where
  "add_pid h p g fs =
     (if \<not> cg_enforced g then (False, fs)
      else cg_write h (path_join (cg_path g) ''cgroup.procs'') (show_int p) fs)"

definition add_self :: "cg_host \<Rightarrow> int \<Rightarrow> cgroup \<Rightarrow> cg_fs \<Rightarrow> bool \<times> cg_fs" where
  "add_self h self_pid g fs = add_pid h self_pid g fs"

text \<open>
  The readings of \<open>cpu.stat\<close> and \<open>memory.current\<close>: \<open>contents\<close> is the text of a file, if
  it can be read. A malformed \<open>cpu.stat\<close> raises, a malformed \<open>memory.current\<close> does not.
\<close>

definition cpu_usage_us :: "(string \<Rightarrow> string option) \<Rightarrow> cgroup \<Rightarrow> py_exc + int option" where
  "cpu_usage_us contents g =
     (if \<not> cg_enforced g then Inr None
      else case contents (path_join (cg_path g) ''cpu.stat'') of
             None \<Rightarrow> Inr None
           | Some txt \<Rightarrow>
               (case find (starts_with ''usage_usec'') (splitlines txt) of
                  None \<Rightarrow> Inr None
                | Some line \<Rightarrow>
                    (case str_split line of
                       w # v # ws \<Rightarrow> andthen (py_int v) (\<lambda>n. Inr (Some n))
                     | _ \<Rightarrow> Inl (OtherExc ''IndexError'' ''list index out of range''))))"

definition memory_current :: "(string \<Rightarrow> string option) \<Rightarrow> cgroup \<Rightarrow> int option" where
  "memory_current contents g =
     (if \<not> cg_enforced g then None
      else case contents (path_join (cg_path g) ''memory.current'') of
             None \<Rightarrow> None
           | Some txt \<Rightarrow> (case py_int (str_strip txt) of Inl e \<Rightarrow> None | Inr n \<Rightarrow> Some n))"

text \<open>\<open>remove\<close>: the directory and its knobs go, if the kernel lets them (\<open>vacant\<close>: it holds no process).\<close>

definition cg_remove :: "(string \<Rightarrow> bool) \<Rightarrow> cgroup \<Rightarrow> cg_fs \<Rightarrow> cg_fs" where
  "cg_remove vacant g fs =
     (if cg_enforced g \<and> vacant (cg_path g)
      then filter (\<lambda>(p, v). \<not> starts_with (path_join (cg_path g) []) p) fs else fs)"

text \<open>\<open>place_daemon\<close>; \<open>self_pid\<close> is \<open>os.getpid()\<close>.\<close>

definition place_daemon ::
  "cg_host \<Rightarrow> int \<Rightarrow> int option \<Rightarrow> int option \<Rightarrow> string option \<Rightarrow> cg_fs \<Rightarrow> cgroup option \<times> cg_fs" where
  "place_daemon h self_pid pids_max memory_max cpu_max fs =
     (if \<not> cf_available h then (None, fs)
      else
        let (g, fs1) = cgroup_init h ''daemon'' None cpu_max memory_max pids_max fs
        in if \<not> cg_enforced g then (None, fs1)
           else (Some g, snd (add_pid h self_pid g fs1)))"

section \<open>Seccomp\<close>

definition dangerous_syscalls :: "string list" where
  "dangerous_syscalls =
     [''socket'', ''socketcall'', ''connect'', ''bind'', ''listen'', ''accept'', ''accept4'',
      ''sendto'', ''recvfrom'', ''sendmsg'', ''recvmsg'',
      ''ptrace'', ''process_vm_readv'', ''process_vm_writev'',
      ''mount'', ''umount'', ''umount2'', ''pivot_root'', ''chroot'',
      ''setns'', ''unshare'',
      ''init_module'', ''finit_module'', ''delete_module'',
      ''kexec_load'', ''kexec_file_load'', ''reboot'',
      ''io_uring_setup'', ''io_uring_enter'', ''io_uring_register'',
      ''bpf'', ''perf_event_open'']"

record syscall_rule =
  sr_names :: "string list"
  sr_action :: string
  sr_errno :: int

record seccomp_profile =
  sp_default_action :: string
  sp_arch_map :: "(string \<times> string list) list"
  sp_syscalls :: "syscall_rule list"

definition docker_seccomp_profile :: "string \<Rightarrow> seccomp_profile" where
  "docker_seccomp_profile default_action =
     \<lparr>sp_default_action = default_action,
      sp_arch_map = [(''SCMP_ARCH_X86_64'', [''SCMP_ARCH_X86'', ''SCMP_ARCH_X32'']),
                     (''SCMP_ARCH_AARCH64'', [''SCMP_ARCH_ARM''])],
      sp_syscalls = [\<lparr>sr_names = dangerous_syscalls, sr_action = ''SCMP_ACT_ERRNO'', sr_errno = 1\<rparr>]\<rparr>"

text \<open>
  \<open>self_lockdown\<close>: the syscalls the installed filter answers with an error; \<open>known\<close>
  tells which names the architecture has. \<open>None\<close>: no filter was installed.
\<close>

definition self_lockdown :: "bool \<Rightarrow> bool \<Rightarrow> (string \<Rightarrow> bool) \<Rightarrow> string list option \<Rightarrow> string list option"
  where
  "self_lockdown linux binding known allow =
     (if \<not> linux then None
      else if \<not> binding then None
      else Some (filter known
        (case allow of None \<Rightarrow> dangerous_syscalls | Some xs \<Rightarrow> if xs = [] then dangerous_syscalls else xs)))"

text \<open>How a filter decides a syscall: the first rule that names it, else the default.\<close>

definition syscall_action :: "seccomp_profile \<Rightarrow> string \<Rightarrow> string" where
  "syscall_action prof name =
     (case find (\<lambda>r. name \<in> set (sr_names r)) (sp_syscalls prof) of
        None \<Rightarrow> sp_default_action prof
      | Some r \<Rightarrow> sr_action r)"

section \<open>Lemmas\<close>

lemma clamp_cases: "clamp_priority p \<in> {0, 1, 2, 3, 4, 5, 6, 7, 8, 9}"
  by (auto simp: clamp_priority_def max_def min_def)

lemma priority_to_weight_exact: "priority_to_weight p = 10 + 1110 * clamp_priority p"
proof -
  have "of_int 10 + of_int (10000 - 10) * (of_int (clamp_priority p) / (9::real))
      = of_int (10 + 1110 * clamp_priority p)"
    by simp
  then show ?thesis
    unfolding priority_to_weight_def by (simp only: floor_of_int)
qed

lemma cg_write_lookup:
  "fst (cg_write h p v fs) \<Longrightarrow> map_of (snd (cg_write h p v fs)) p = Some v"
  by (simp add: cg_write_def update_conv' split: if_splits)

lemma cg_write_other:
  "q \<noteq> p \<Longrightarrow> map_of (snd (cg_write h p v fs)) q = map_of fs q"
  by (simp add: cg_write_def update_conv' split: if_splits)

section \<open>Properties\<close>

text \<open>
  Priorities become CPU weights in the range the kernel accepts: both maps clamp the
  priority to 0..9, are monotone, and strictly so inside that range; weights lie in
  10..10000 and Docker shares in 256..2560.
\<close>

theorem priority_weights:
  "priority_to_weight p \<in> {10..10000} \<and> priority_to_cpu_shares p \<in> {256..2560}
   \<and> (clamp_priority p < clamp_priority q \<longleftrightarrow> priority_to_weight p < priority_to_weight q)
   \<and> (clamp_priority p < clamp_priority q \<longleftrightarrow> priority_to_cpu_shares p < priority_to_cpu_shares q)"
  using clamp_cases [of p]
  by (auto simp: priority_to_weight_exact priority_to_cpu_shares_def)

text \<open>
  A cgroup reports honestly what the kernel took: when construction succeeds in creating
  the directory, the CPU weight counts as enforced exactly if the write of the knob
  succeeded, and then the knob holds the requested weight; without delegation nothing is
  written at all and nothing counts as enforced.
\<close>

theorem cgroup_reports_truthfully:
  assumes "cgroup_init h name (Some wt) None None None fs = (g, fs')"
  shows "(cg_cpu_enforced g \<longrightarrow> cg_enforced g
           \<and> map_of fs' (path_join (cg_path g) ''cpu.weight'') = Some (show_int wt))
    \<and> (cg_enforced g \<longrightarrow> cg_cpu_enforced g = cf_can_write h (path_join (cg_path g) ''cpu.weight''))
    \<and> (\<not> cf_available h \<longrightarrow> fs' = fs \<and> \<not> cg_enforced g)"
  using assms cg_write_lookup
  by (auto simp: cgroup_init_def ensure_root_def write_opt_def set_weight_def Let_def
      cg_write_def update_conv' split: if_splits prod.splits)

theorem cgroup_reports_truthfully_witness:
  "map_of (snd (cgroup_init \<lparr>cf_available = True, cf_can_mkdir = (\<lambda>_. True), cf_can_write = (\<lambda>_. True)\<rparr>
       ''agent-3'' (Some 5560) None None None []))
     (path_join (path_join gcos_root ''agent-3'') ''cpu.weight'') = Some (show_int 5560)"
proof -
  let ?h = "\<lparr>cf_available = True, cf_can_mkdir = (\<lambda>_. True), cf_can_write = (\<lambda>_. True)\<rparr>"
  obtain g fs where i: "cgroup_init ?h ''agent-3'' (Some 5560) None None None [] = (g, fs)"
    by (metis surj_pair)
  have "cg_cpu_enforced g" "cg_path g = path_join gcos_root ''agent-3''"
    using i by (auto simp: cgroup_init_def ensure_root_def write_opt_def set_weight_def Let_def
        cg_write_def split: prod.splits)
  with cgroup_reports_truthfully [OF i] i show ?thesis by simp
qed

text \<open>
  The container profile answers exactly the listed syscalls with an error and allows
  every other one.
\<close>

theorem seccomp_profile_denies:
  "syscall_action (docker_seccomp_profile ''SCMP_ACT_ALLOW'') name =
     (if name \<in> set dangerous_syscalls then ''SCMP_ACT_ERRNO'' else ''SCMP_ACT_ALLOW'')
   \<and> ''socket'' \<in> set dangerous_syscalls \<and> ''ptrace'' \<in> set dangerous_syscalls
   \<and> ''read'' \<notin> set dangerous_syscalls"
  by (simp add: syscall_action_def docker_seccomp_profile_def) (simp add: dangerous_syscalls_def)

end
