(* ===== verification/Coder.thy ===== *)
theory Coder
  imports Executor Policy_Gate Extract Cgroup
begin

text \<open>
  The coder step (\<open>gcos/coder.py\<close>): prompt gate, request, extraction, code gate,
  sandbox. Unlike the plain step it assembles the messages outside its exception handler, so
  an exception of the pager, and one of the sandbox, leaves the step.
\<close>

section \<open>The coder step\<close>

text \<open>The dash in the fourth paragraph is one character outside ASCII; it is written as \<open>CHR 0x97\<close>.\<close>

definition coder_system :: string where
  "coder_system = join_with [nl]
     [''You are a Python coder agent running inside GCOS, a sandboxed agent OS.'',
      ''When given a task, reply with exactly one fenced Python block:'',
      '''',
      ''    '' @ fence_mark @ ''python'',
      ''    # your code here'',
      ''    print(...)'',
      ''    '' @ fence_mark,
      '''',
      ''Constraints (enforced by the kernel '' @ [CHR 0x97] @ '' violations are auto-rejected):'',
      ''  - No network calls, no subprocess, no os.system, no eval/exec.'',
      ''  - Use only the Python standard library.'',
      ''  - Read from stdin is unavailable; write your answer to stdout via print().'',
      ''  - Keep the code short and self-contained.'']"

definition has_coder_system_pinned :: "agent \<Rightarrow> bool" where
  "has_coder_system_pinned a =
     list_ex (\<lambda>p. cp_role p = ''system'' \<and> cp_pinned p) (acb_context_pages a)"

definition ensure_coder_system_pinned :: "step_state \<Rightarrow> step_state" where
  "ensure_coder_system_pinned st =
     (if \<not> has_coder_system_pinned (fst st)
      then ((fst st)\<lparr>acb_context_pages :=
              new_page ''system'' coder_system 0 True False (now_of (snd st))
              # acb_context_pages (fst st)\<rparr>, tick (snd st))
      else st)"

definition format_sandbox_result :: "string \<Rightarrow> sandbox_result \<Rightarrow> string" where
  "format_sandbox_result reply out =
     join_with [nl]
       ([str_rstrip reply, '''', ''--- sandbox: '' @ short_summary out @ '' ---'']
        @ (if sb_stdout out \<noteq> '''' then [''[stdout]'', str_rstrip (sb_stdout out)] else [])
        @ (if sb_stderr out \<noteq> '''' then [''[stderr]'', str_rstrip (sb_stderr out)] else []))"

text \<open>\<open>sandbox or make_runner()\<close> and \<open>run_python\<close>; the run is recorded.\<close>

definition do_sandbox ::
  "env \<Rightarrow> string \<Rightarrow> real \<Rightarrow> int \<Rightarrow> step_state \<Rightarrow> step_state \<times> (py_exc + sandbox_result)" where
  "do_sandbox env code timeout shares st =
     (case e_sandbox env of
        Inl e \<Rightarrow> (st, Inl e)
      | Inr run \<Rightarrow>
          ((fst st, (snd st)\<lparr>w_ran := w_ran (snd st) @ [(code, timeout, shares)]\<rparr>),
           run (length (w_ran (snd st))) code timeout shares))"

definition opt_str :: "string option \<Rightarrow> string" where
  "opt_str x = (case x of None \<Rightarrow> ''None'' | Some s \<Rightarrow> s)"

definition opt_repr :: "string option \<Rightarrow> string" where
  "opt_repr x = (case x of None \<Rightarrow> ''None'' | Some s \<Rightarrow> py_repr s)"

text \<open>Steps 3 to 6: extraction, capability, code gate, sandbox.\<close>

definition coder_act :: "env \<Rightarrow> string \<Rightarrow> step_state \<Rightarrow> step_state \<times> (py_exc + bool)" where
  "coder_act env reply st =
     (case extract_python reply of
        None \<Rightarrow> (do_move DONE (set_result reply st), Inr False)
      | Some code \<Rightarrow>
          if code = '''' then (do_move DONE (set_result reply st), Inr False)
          else if \<not> can_exec_code (acb_capability (fst st)) then
            (do_move DONE (set_result (reply @ [nl, nl]
                @ ''--- sandbox: SKIPPED (capability.can_exec_code=False) ---'') st), Inr False)
          else
            let gate = scan_code code
            in if \<not> allowed gate then
                 (let a1 = set_error (''policy_gate.code: '' @ opt_str (gr_reason gate) @ '' (matched ''
                             @ opt_repr (gr_matched gate) @ '', rule='' @ opt_str (gr_rule gate) @ '')'')
                             (fst st)
                  in (do_move ERROR (set_result (reply @ [nl, nl] @ ''--- sandbox: BLOCKED (''
                        @ opt_str (gr_rule gate) @ '') ---'') (a1, snd st)), Inr False))
               else
                 let out = do_sandbox env code (min (acb_timeout_s (fst st)) 10)
                             (priority_to_cpu_shares (acb_priority (fst st))) st
                 in case snd out of
                      Inl e \<Rightarrow> (fst out, Inl e)
                    | Inr sb \<Rightarrow>
                        (let st2 = set_result (format_sandbox_result reply sb) (fst out)
                         in if sb_ok sb then (do_move DONE st2, Inr False)
                            else (do_move ERROR
                                    (set_error (''sandbox: '' @ short_summary sb) (fst st2), snd st2),
                                  Inr False)))"

definition coder_finish :: "env \<Rightarrow> chat_result \<Rightarrow> step_state \<Rightarrow> step_state \<times> (py_exc + bool)" where
  "coder_finish env r st =
     (let a1 = charge r (fst st)
      in if acb_state a1 = ZOMBIE then ((a1, snd st), Inr False)
         else coder_act env (cr_content r)
                (record_exchange (acb_llm_calls_used a1 = 1) r (a1, snd st)))"

text \<open>The state in which the messages are assembled.\<close>

definition coder_ready :: "step_state \<Rightarrow> step_state" where
  "coder_ready st = ensure_coder_system_pinned (do_move RUNNING st)"

definition run_coder_step :: "env \<Rightarrow> step_state \<Rightarrow> step_state \<times> (py_exc + bool)" where
  "run_coder_step env st =
     (case client_or_solar env of
        Inl e \<Rightarrow> (st, Inl e)
      | Inr c \<Rightarrow>
          if is_terminal (fst st) then (st, Inr False)
          else
            let gate = scan_prompt (acb_prompt (fst st))
            in if \<not> allowed gate then
                 (do_fail ERROR (''policy_gate.prompt: '' @ opt_str (gr_reason gate) @ '' (matched ''
                    @ opt_repr (gr_matched gate) @ '')'') st, Inr False)
               else if acb_quota_remaining (fst st) \<le> 0 then (do_fail ERROR quota_exhausted st, Inr False)
               else
                 let st1 = coder_ready st;
                     built = assemble (with_client c env) (fst (pager_for st1))
                               (Some (acb_prompt (fst st))) (fst st1, snd (pager_for st1))
                 in case snd built of
                      Inl e \<Rightarrow> (fst built, Inl e)
                    | Inr ms \<Rightarrow>
                        (let out = do_chat env c ms (min (max_tokens (acb_capability (fst st))) 1024)
                                     (acb_timeout_s (fst st)) (fst built)
                         in case snd out of
                              Inl e \<Rightarrow> (fail_with e (fst out), Inr False)
                            | Inr r \<Rightarrow> coder_finish env r (fst out)))"

section \<open>Lemmas\<close>

lemma do_sandbox_agent [simp]:
  "fst (fst (do_sandbox env code t sh st)) = fst st"
  "w_quota (snd (fst (do_sandbox env code t sh st))) = w_quota (snd st)"
  by (simp_all add: do_sandbox_def split: sum.splits)

text \<open>The outcomes of \<open>coder_act\<close>: raised from the sandbox, or finished; and the runs it adds.\<close>

lemma coder_act_agent:
  assumes "coder_act env reply st = (st', r)"
  shows "step_frame (fst st) (fst st')
    \<and> acb_llm_calls_used (fst st') = acb_llm_calls_used (fst st)
    \<and> acb_quota_remaining (fst st') = acb_quota_remaining (fst st)
    \<and> (is_terminal (fst st) \<longrightarrow> acb_state (fst st') = acb_state (fst st))
    \<and> (r = Inr False \<and> is_terminal (fst st') \<or> (\<exists>e. r = Inl e))
    \<and> w_quota (snd st') = w_quota (snd st)"
  using assms
  by (auto simp: coder_act_def Let_def step_frame_def set_result_def move_state is_terminal_def
      split: option.splits if_splits sum.splits)

lemma coder_act_runs:
  assumes "coder_act env reply st = (st', r)"
  shows "w_ran (snd st') = w_ran (snd st)
    \<or> (\<exists>code t. extract_python reply = Some code \<and> code \<noteq> '''' \<and> allowed (scan_code code)
         \<and> can_exec_code (acb_capability (fst st)) \<and> t \<le> 10
         \<and> w_ran (snd st') = w_ran (snd st)
              @ [(code, t, priority_to_cpu_shares (acb_priority (fst st)))])"
  using assms
  by (auto simp: coder_act_def Let_def do_sandbox_def
      split: option.splits if_splits sum.splits)

lemma coder_ready_simps [simp]:
  "quiet (fst st) (fst (coder_ready st))" "w_ran (snd (coder_ready st)) = w_ran (snd st)"
  "w_quota (snd (coder_ready st)) = w_quota (snd st)" "w_calls (snd (coder_ready st)) = w_calls (snd st)"
  "acb_pager (fst (coder_ready st)) = acb_pager (fst st)"
  by (auto simp: coder_ready_def ensure_coder_system_pinned_def quiet_def step_frame_def move_state)

text \<open>The step, once the gates before the request are passed.\<close>

definition coder_built :: "client \<Rightarrow> env \<Rightarrow> step_state \<Rightarrow> step_state \<times> (py_exc + chat_message list)" where
  "coder_built c env st =
     assemble (with_client c env) (fst (pager_for (coder_ready st))) (Some (acb_prompt (fst st)))
       (fst (coder_ready st), snd (pager_for (coder_ready st)))"

lemma coder_built_keeps:
  "quiet (fst st) (fst (fst (coder_built c env st)))"
  "w_ran (snd (fst (coder_built c env st))) = w_ran (snd st)"
  using quiet_trans [OF coder_ready_simps(1)
      quiet_paged [OF assemble_paged [of "(fst (coder_ready st), snd (pager_for (coder_ready st)))", simplified]]]
  by (simp_all add: coder_built_def assemble_ran)

lemma run_coder_step_cases:
  obtains (no_client) e where "client_or_solar env = Inl e" "run_coder_step env st = (st, Inl e)"
  | (ended) "is_terminal (fst st)" "run_coder_step env st = (st, Inr False)"
  | (denied) e where "\<not> is_terminal (fst st)" "\<not> allowed (scan_prompt (acb_prompt (fst st)))"
      "run_coder_step env st = (do_fail ERROR e st, Inr False)"
  | (exhausted) "\<not> is_terminal (fst st)" "acb_quota_remaining (fst st) \<le> 0"
      "run_coder_step env st = (do_fail ERROR quota_exhausted st, Inr False)"
  | (paging) c e where "\<not> is_terminal (fst st)" "0 < acb_quota_remaining (fst st)"
      "run_coder_step env st = (fst (coder_built c env st), Inl e)"
  | (refused) c e ms x y where "\<not> is_terminal (fst st)" "0 < acb_quota_remaining (fst st)"
      "run_coder_step env st = (fail_with e (fst (do_chat env c ms x y (fst (coder_built c env st)))), Inr False)"
  | (answered) c r ms x y where "\<not> is_terminal (fst st)" "0 < acb_quota_remaining (fst st)"
      "allowed (scan_prompt (acb_prompt (fst st)))"
      "run_coder_step env st = coder_finish env r (fst (do_chat env c ms x y (fst (coder_built c env st))))"
proof (cases "client_or_solar env")
  case (Inl e)
  then show ?thesis using no_client by (simp add: run_coder_step_def)
next
  case (Inr c)
  consider "is_terminal (fst st)"
    | "\<not> is_terminal (fst st)" "\<not> allowed (scan_prompt (acb_prompt (fst st)))"
    | "\<not> is_terminal (fst st)" "allowed (scan_prompt (acb_prompt (fst st)))" "acb_quota_remaining (fst st) \<le> 0"
    | "\<not> is_terminal (fst st)" "allowed (scan_prompt (acb_prompt (fst st)))" "0 < acb_quota_remaining (fst st)"
    by linarith
  then show ?thesis
  proof cases
    case 1
    then show ?thesis using ended Inr by (simp add: run_coder_step_def)
  next
    case 2
    then show ?thesis using denied Inr by (simp add: run_coder_step_def Let_def)
  next
    case 3
    then show ?thesis using exhausted Inr by (simp add: run_coder_step_def Let_def)
  next
    case 4
    let ?mt = "min (max_tokens (acb_capability (fst st))) 1024" and ?to = "acb_timeout_s (fst st)"
    have eq: "run_coder_step env st =
        (case snd (coder_built c env st) of
           Inl e \<Rightarrow> (fst (coder_built c env st), Inl e)
         | Inr ms \<Rightarrow>
             (case snd (do_chat env c ms ?mt ?to (fst (coder_built c env st))) of
                Inl e \<Rightarrow> (fail_with e (fst (do_chat env c ms ?mt ?to (fst (coder_built c env st)))), Inr False)
              | Inr r \<Rightarrow> coder_finish env r (fst (do_chat env c ms ?mt ?to (fst (coder_built c env st))))))"
      using 4 Inr by (simp add: run_coder_step_def coder_built_def Let_def split: sum.split)
    show ?thesis
    proof (cases "snd (coder_built c env st)")
      case (Inl e)
      with eq 4 paging show ?thesis by simp
    next
      case (Inr ms)
      then show ?thesis
        using eq 4 refused answered
        by (cases "snd (do_chat env c ms ?mt ?to (fst (coder_built c env st)))")
           (simp_all del: do_chat_simps)
    qed
  qed
qed

lemma run_coder_step_ok: "step_ok st (run_coder_step env st)"
proof (cases rule: run_coder_step_cases [of env st])
  case (answered c r ms x y)
  let ?out = "fst (do_chat env c ms x y (fst (coder_built c env st)))"
  have q: "quiet (fst st) (fst ?out)"
    using quiet_trans [OF coder_built_keeps(1) quiet_intros(3)] by simp
  show ?thesis
  proof (cases "acb_state (fst ?out) = ZOMBIE")
    case True
    have eq: "run_coder_step env st = ((charge r (fst ?out), snd ?out), Inr False)"
      using answered True by (simp add: coder_finish_def Let_def)
    have "is_terminal (fst ?out)" using True by (simp add: is_terminal_def)
    then show ?thesis
      unfolding eq
      by (intro step_ok_charged [OF q, of r]) (use answered in \<open>simp_all del: do_chat_simps\<close>)
  next
    case False
    let ?st1 = "record_exchange (acb_llm_calls_used (charge r (fst ?out)) = 1) r (charge r (fst ?out), snd ?out)"
    obtain st' b where act: "coder_act env (cr_content r) ?st1 = (st', b)"
      by (metis surj_pair)
    have eq: "run_coder_step env st = (st', b)"
      using answered False act by (simp add: coder_finish_def Let_def del: do_chat_simps)
    note k = coder_act_agent [OF act]
    have "step_frame (charge r (fst ?out)) (fst ?st1)"
      using record_exchange_simps(11) [of "(charge r (fst ?out), snd ?out)"] by (simp only: fst_conv)
    moreover have "step_frame (fst ?st1) (fst st')" using k by blast
    ultimately have frame: "step_frame (charge r (fst ?out)) (fst st')" by (rule step_frame_trans)
    have counts: "acb_llm_calls_used (fst st') = acb_llm_calls_used (fst ?out) + 1"
      "acb_quota_remaining (fst st') = acb_quota_remaining (fst ?out) - 1"
      using k by simp_all
    from k show ?thesis
    proof (elim conjE disjE)
      assume "b = Inr False" "is_terminal (fst st')"
      then show ?thesis
        unfolding eq using step_ok_charged [OF q frame answered(1,2) counts, of False] by simp
    next
      assume "\<exists>e. b = Inl e"
      then obtain e where "b = Inl e" by blast
      have "step_frame (fst st) (fst st')"
        using q frame charge_simps(12) unfolding quiet_def by (blast intro: step_frame_trans)
      with counts q answered(1,2) \<open>b = Inl e\<close> show ?thesis
        unfolding eq by (simp add: step_ok_def quiet_def calls_between_def Let_def)
    qed
  qed
next
  case (refused c e ms x y)
  let ?out = "fst (do_chat env c ms x y (fst (coder_built c env st)))"
  have "quiet (fst st) (fst ?out)"
    using quiet_trans [OF coder_built_keeps(1) quiet_intros(3)] by simp
  then have "quiet (fst st) (fst (fail_with e ?out))"
    using quiet_fail by (rule quiet_trans)
  then show ?thesis unfolding refused(3) by (intro step_ok_stop) simp_all
qed (simp_all add: step_ok_raise step_ok_stop step_ok_fail coder_built_keeps)

interpretation coder: step_runner "run_coder_step env" for env
  by (rule step_runnerI) (rule run_coder_step_ok)

lemma coder_finish_runs:
  assumes "coder_finish env r st = (st', b)"
  shows "w_ran (snd st') = w_ran (snd st)
    \<or> (\<exists>code t. extract_python (cr_content r) = Some code \<and> code \<noteq> '''' \<and> allowed (scan_code code)
         \<and> can_exec_code (acb_capability (fst st)) \<and> t \<le> 10 \<and> acb_state (fst st) \<noteq> ZOMBIE
         \<and> w_ran (snd st') = w_ran (snd st)
              @ [(code, t, priority_to_cpu_shares (acb_priority (fst st)))])"
proof (cases "acb_state (fst st) = ZOMBIE")
  case True
  with assms show ?thesis by (auto simp: coder_finish_def Let_def)
next
  case False
  with assms have "coder_act env (cr_content r)
      (record_exchange (acb_llm_calls_used (charge r (fst st)) = 1) r (charge r (fst st), snd st)) = (st', b)"
    by (simp add: coder_finish_def Let_def)
  from coder_act_runs [OF this] False show ?thesis by simp
qed

section \<open>Properties\<close>


definition coder_agent :: agent where
  "coder_agent = (new_agent 5 ''c'' ''add'' 0)\<lparr>acb_capability := cap_coder\<rparr>"

definition lab :: env where
  "lab = (calm (answer (fenced ''python'' ''print(1)'')))
     \<lparr>e_sandbox := Inr (\<lambda>n code t sh. Inr \<lparr>sb_stdout = ''1'', sb_stderr = '''', sb_exit_code = 0,
        sb_duration_s = 1, sb_killed_by_timeout = False, sb_runner = ''docker''\<rparr>)\<rparr>"


text \<open>
  A denied prompt costs nothing: a live coder agent whose prompt contains a forbidden tag
  ends in ERROR with no LLM request, no charge against its own budget or the shared quota, no
  code run, and its pages untouched.
\<close>

theorem denied_prompt_costs_nothing:
  assumes "\<not> is_terminal (fst st)" and "\<not> allowed (scan_prompt (acb_prompt (fst st)))"
    and "client_or_solar env = Inr c"
  shows "\<exists>st'. run_coder_step env st = (st', Inr False) \<and> acb_state (fst st') = ERROR
    \<and> acb_quota_remaining (fst st') = acb_quota_remaining (fst st)
    \<and> acb_llm_calls_used (fst st') = acb_llm_calls_used (fst st)
    \<and> acb_context_pages (fst st') = acb_context_pages (fst st)
    \<and> w_calls (snd st') = w_calls (snd st) \<and> w_quota (snd st') = w_quota (snd st)
    \<and> w_ran (snd st') = w_ran (snd st)"
  using assms by (simp add: run_coder_step_def Let_def move_state)

theorem denied_prompt_costs_nothing_witness:
  "\<exists>st'. run_coder_step lab (coder_agent\<lparr>acb_prompt := ''[Shell: ls]''\<rparr>, fresh_world 5) = (st', Inr False)
     \<and> acb_state (fst st') = ERROR \<and> w_calls (snd st') = 0"
proof -
  have "\<not> is_terminal (coder_agent\<lparr>acb_prompt := ''[Shell: ls]''\<rparr>)"
    by (simp add: coder_agent_def new_agent_def is_terminal_def)
  moreover have "\<not> allowed (scan_prompt ''[Shell: ls]'')" by code_simp
  moreover have "\<exists>c. client_or_solar lab = Inr c"
    by (simp add: client_or_solar_def lab_def calm_def)
  ultimately show ?thesis
    using denied_prompt_costs_nothing [of "(coder_agent\<lparr>acb_prompt := ''[Shell: ls]''\<rparr>, fresh_world 5)" lab]
    by (auto simp: fresh_world_def coder_agent_def)
qed

end
