(* ===== verification/Agent_Loop.thy ===== *)
theory Agent_Loop
  imports Executor
begin

text \<open>
  The multi-step agent (\<open>gcos/agent_loop.py\<close>): the arithmetic and note tools, the
  protocol of the replies, one step of the think, act, observe loop, and its messages. The
  parser of Python expressions, floating-point powers and the text of a float are parameters
  (\<open>e_calc\<close>); floats are exact reals.
\<close>

section \<open>The tools\<close>

fun num_real :: "py_num \<Rightarrow> real" where
  "num_real (PInt i) = of_int i"
| "num_real (PFloat x) = x"

definition zero_division :: py_exc where
  "zero_division = OtherExc ''ZeroDivisionError'' ''division by zero''"

definition num_arith :: "(int \<Rightarrow> int \<Rightarrow> int) \<Rightarrow> (real \<Rightarrow> real \<Rightarrow> real) \<Rightarrow> py_num \<Rightarrow> py_num \<Rightarrow> py_num" where
  "num_arith f g x y =
     (case (x, y) of (PInt i, PInt j) \<Rightarrow> PInt (f i j) | _ \<Rightarrow> PFloat (g (num_real x) (num_real y)))"

definition num_pow :: "calc_env \<Rightarrow> py_num \<Rightarrow> py_num \<Rightarrow> py_exc + py_num" where
  "num_pow ce x y =
     (case (x, y) of
        (PInt i, PInt j) \<Rightarrow> if 0 \<le> j then Inr (PInt (i ^ nat j)) else ce_pow ce (of_int i) (of_int j)
      | _ \<Rightarrow> ce_pow ce (num_real x) (num_real y))"

text \<open>The table \<open>_ALLOWED_OPS\<close> on two operands; \<open>None\<close>: not in the table.\<close>

fun bin_op :: "calc_env \<Rightarrow> py_op \<Rightarrow> (py_num \<Rightarrow> py_num \<Rightarrow> py_exc + py_num) option" where
  "bin_op ce OpAdd = Some (\<lambda>x y. Inr (num_arith (+) (+) x y))"
| "bin_op ce OpSub = Some (\<lambda>x y. Inr (num_arith (-) (-) x y))"
| "bin_op ce OpMult = Some (\<lambda>x y. Inr (num_arith (*) (*) x y))"
| "bin_op ce OpDiv = Some (\<lambda>x y.
     if num_real y = 0 then Inl zero_division else Inr (PFloat (num_real x / num_real y)))"
| "bin_op ce OpFloorDiv = Some (\<lambda>x y.
     if num_real y = 0 then Inl zero_division
     else Inr (num_arith (div) (\<lambda>a b. of_int \<lfloor>a / b\<rfloor>) x y))"
| "bin_op ce OpMod = Some (\<lambda>x y.
     if num_real y = 0 then Inl zero_division
     else Inr (num_arith (mod) (\<lambda>a b. a - b * of_int \<lfloor>a / b\<rfloor>) x y))"
| "bin_op ce OpPow = Some (num_pow ce)"
| "bin_op ce _ = None"

fun un_op :: "py_op \<Rightarrow> (py_num \<Rightarrow> py_num) option" where
  "un_op OpUSub = Some (\<lambda>x. case x of PInt i \<Rightarrow> PInt (- i) | PFloat r \<Rightarrow> PFloat (- r))"
| "un_op OpUAdd = Some (\<lambda>x. x)"
| "un_op _ = None"

definition unsupported :: py_exc where
  "unsupported = OtherExc ''ValueError'' ''unsupported expression''"

text \<open>\<open>ev\<close>: operands from left to right, the first exception wins.\<close>

fun calc_ev :: "calc_env \<Rightarrow> py_ast \<Rightarrow> py_exc + py_num" where
  "calc_ev ce (ANum n) = Inr n"
| "calc_ev ce (ABin p l r) =
     (case bin_op ce p of
        None \<Rightarrow> Inl unsupported
      | Some f \<Rightarrow>
          (case calc_ev ce l of
             Inl e \<Rightarrow> Inl e
           | Inr x \<Rightarrow> (case calc_ev ce r of Inl e \<Rightarrow> Inl e | Inr y \<Rightarrow> f x y)))"
| "calc_ev ce (AUn p x) =
     (case un_op p of
        None \<Rightarrow> Inl unsupported
      | Some f \<Rightarrow> (case calc_ev ce x of Inl e \<Rightarrow> Inl e | Inr y \<Rightarrow> Inr (f y)))"
| "calc_ev ce AOther = Inl unsupported"

definition num_str :: "calc_env \<Rightarrow> py_num \<Rightarrow> string" where
  "num_str ce n = (case n of PInt i \<Rightarrow> show_int i | PFloat x \<Rightarrow> ce_show ce x)"

definition safe_calc :: "calc_env \<Rightarrow> string \<Rightarrow> string" where
  "safe_calc ce expr =
     (case (case ce_parse ce (str_strip expr) of Inl e \<Rightarrow> Inl e | Inr tree \<Rightarrow> calc_ev ce tree) of
        Inl e \<Rightarrow> ''calc error: '' @ exc_str e
      | Inr n \<Rightarrow> num_str ce n)"

definition run_tool :: "calc_env \<Rightarrow> string \<Rightarrow> string \<Rightarrow> string" where
  "run_tool ce name arg =
     (if name = ''calc'' then safe_calc ce arg
      else if name = ''note'' then ''noted: '' @ take 120 (str_strip arg)
      else ''error: unknown tool '' @ [CHR 0x27] @ name @ [CHR 0x27])"

section \<open>The protocol\<close>

datatype action = ActFinal string | ActTool string string

fun parse_lines :: "string list \<Rightarrow> action option" where
  "parse_lines [] = None"
| "parse_lines (line # rest) =
     (let s = str_strip line
      in if starts_with ''FINAL:'' (str_upper s) then Some (ActFinal (str_strip (drop 6 s)))
         else if starts_with ''TOOL:'' (str_upper s) then
           (let (name, arg) = partition_blank (str_strip (drop 5 s))
            in Some (ActTool (str_lower (str_strip name)) (str_strip arg)))
         else parse_lines rest)"

definition parse_action :: "string \<Rightarrow> action" where
  "parse_action content =
     (case parse_lines (splitlines content) of
        None \<Rightarrow> ActFinal (str_strip content)
      | Some act \<Rightarrow> act)"

section \<open>The step\<close>

definition react_system :: string where
  "react_system =
     ''You are a GCOS agent that solves a task in steps. On each step reply with ''
     @ ''exactly one line, either:'' @ [nl]
     @ ''  TOOL: <name> <arg>   to use a tool (tools: calc <expr>, note <text>)'' @ [nl]
     @ ''  FINAL: <answer>      when you are done.'' @ [nl]
     @ ''Use calc for arithmetic. Keep going until you can give FINAL.''"

text \<open>\<open>pcb.scratch.setdefault("react", ...)\<close>.\<close>

definition react_state_of :: "agent \<Rightarrow> react_state" where
  "react_state_of a =
     (case acb_scratch a of None \<Rightarrow> \<lparr>rs_step = 0, rs_observations = []\<rparr> | Some s \<Rightarrow> s)"

definition set_react :: "react_state \<Rightarrow> step_state \<Rightarrow> step_state" where
  "set_react s st = ((fst st)\<lparr>acb_scratch := Some s\<rparr>, snd st)"

definition react_messages ::
  "env \<Rightarrow> step_state \<Rightarrow> step_state \<times> (py_exc + chat_message list)" where
  "react_messages env st =
     (case acb_pager (fst st) of
        Some pg \<Rightarrow>
          (let extra = (if rs_step (react_state_of (fst st)) = 0 then Some (acb_prompt (fst st)) else None);
               out = assemble env pg extra st
           in (fst out, case snd out of
                 Inl e \<Rightarrow> Inl e
               | Inr ms \<Rightarrow> Inr (mk_message ''system'' react_system # ms)))
      | None \<Rightarrow>
          (st, Inr (mk_message ''system'' react_system
             # (if acb_context_pages (fst st) \<noteq> [] then map page_message (acb_context_pages (fst st))
                else [mk_message ''user'' (acb_prompt (fst st))]))))"

text \<open>After a successful request: record it, then finish or use the tool.\<close>

definition react_finish :: "env \<Rightarrow> chat_result \<Rightarrow> step_state \<Rightarrow> step_state \<times> (py_exc + bool)" where
  "react_finish env r st =
     (let a1 = charge r (fst st)
      in if acb_state a1 = ZOMBIE then ((a1, snd st), Inr False)
         else
           let rs = react_state_of a1;
               st1 = record_exchange (rs_step rs = 0) r (a1, snd st);
               rs1 = rs\<lparr>rs_step := rs_step rs + 1\<rparr>;
               st2 = set_react rs1 st1
           in case parse_action (cr_content r) of
                ActFinal ans \<Rightarrow> (do_move DONE (set_result ans st2), Inr False)
              | ActTool name arg \<Rightarrow>
                  (let obs = run_tool (e_calc env) name arg;
                       rs2 = rs1\<lparr>rs_observations := rs_observations rs1
                               @ [name @ ''('' @ arg @ '') -> '' @ obs]\<rparr>
                   in (push_page ''user'' (''OBSERVATION: '' @ obs) 0 (set_react rs2 st2), Inr True)))"

definition run_react_step :: "env \<Rightarrow> step_state \<Rightarrow> step_state \<times> (py_exc + bool)" where
  "run_react_step env st =
     (if is_terminal (fst st) then (st, Inr False)
      else if acb_quota_remaining (fst st) \<le> 0 then (do_fail ERROR quota_exhausted st, Inr False)
      else
        let st0 = set_react (react_state_of (fst st)) st
        in if max_tool_calls (acb_capability (fst st)) \<le> rs_step (react_state_of (fst st)) then
             (do_fail ERROR (''exceeded max_tool_calls=''
                @ show_int (max_tool_calls (acb_capability (fst st)))) st0, Inr False)
           else
             let st1 = (if acb_state (fst st0) \<noteq> RUNNING then do_move RUNNING st0 else st0)
             in case client_or_solar env of
                  Inl e \<Rightarrow> (st1, Inl e)
                | Inr c \<Rightarrow>
                    (let built = react_messages (with_client c env) st1
                     in case snd built of
                          Inl e \<Rightarrow> (fst built, Inl e)
                        | Inr ms \<Rightarrow>
                            (let out = do_chat env c ms (min (max_tokens (acb_capability (fst st))) 512)
                                         (acb_timeout_s (fst st)) (fst built)
                             in case snd out of
                                  Inl e \<Rightarrow> (fail_with e (fst out), Inr False)
                                | Inr r \<Rightarrow> react_finish env r (fst out))))"

section \<open>Lemmas\<close>

lemma set_react_simps [simp]:
  "acb_llm_calls_used (fst (set_react s st)) = acb_llm_calls_used (fst st)"
  "acb_quota_remaining (fst (set_react s st)) = acb_quota_remaining (fst st)"
  "acb_state (fst (set_react s st)) = acb_state (fst st)"
  "acb_result (fst (set_react s st)) = acb_result (fst st)"
  "acb_scratch (fst (set_react s st)) = Some s"
  "is_terminal (fst (set_react s st)) = is_terminal (fst st)"
  "step_frame (fst st) (fst (set_react s st))" "quiet (fst st) (fst (set_react s st))"
  "snd (set_react s st) = snd st"
  by (simp_all add: set_react_def is_terminal_def step_frame_def quiet_def)

lemma react_messages_keeps:
  "paged (fst st) (fst (fst (react_messages env st)))"
  "w_ran (snd (fst (react_messages env st))) = w_ran (snd st)"
  by (simp_all add: react_messages_def assemble_paged assemble_ran Let_def split: option.splits)

text \<open>The state in which the messages are assembled.\<close>

definition react_ready :: "step_state \<Rightarrow> step_state" where
  "react_ready st = running (set_react (react_state_of (fst st)) st)"

lemma react_ready_simps [simp]:
  "quiet (fst st) (fst (react_ready st))" "w_ran (snd (react_ready st)) = w_ran (snd st)"
  "acb_scratch (fst (react_ready st)) = Some (react_state_of (fst st))"
proof -
  show "quiet (fst st) (fst (react_ready st))"
    unfolding react_ready_def by (rule quiet_trans [OF set_react_simps(8) running_simps(1)])
  show "acb_scratch (fst (react_ready st)) = Some (react_state_of (fst st))"
    by (simp add: react_ready_def running_def)
qed (simp add: react_ready_def)

lemma run_react_step_cases:
  obtains (ended) "is_terminal (fst st)" "run_react_step env st = (st, Inr False)"
  | (exhausted) "\<not> is_terminal (fst st)" "acb_quota_remaining (fst st) \<le> 0"
      "run_react_step env st = (do_fail ERROR quota_exhausted st, Inr False)"
  | (too_many) e where "\<not> is_terminal (fst st)" "0 < acb_quota_remaining (fst st)"
      "max_tool_calls (acb_capability (fst st)) \<le> rs_step (react_state_of (fst st))"
      "run_react_step env st = (do_fail ERROR e (set_react (react_state_of (fst st)) st), Inr False)"
  | (no_client) e where "\<not> is_terminal (fst st)" "run_react_step env st = (react_ready st, Inl e)"
      "client_or_solar env = Inl e"
  | (paging) c e where "\<not> is_terminal (fst st)"
      "run_react_step env st = (fst (react_messages (with_client c env) (react_ready st)), Inl e)"
  | (refused) c e ms x y where "\<not> is_terminal (fst st)" "0 < acb_quota_remaining (fst st)"
      "run_react_step env st = (fail_with e (fst (do_chat env c ms x y
         (fst (react_messages (with_client c env) (react_ready st))))), Inr False)"
  | (answered) c r ms x y where "\<not> is_terminal (fst st)" "0 < acb_quota_remaining (fst st)"
      "rs_step (react_state_of (fst st)) < max_tool_calls (acb_capability (fst st))"
      "run_react_step env st = react_finish env r (fst (do_chat env c ms x y
         (fst (react_messages (with_client c env) (react_ready st)))))"
proof -
  consider "is_terminal (fst st)"
    | "\<not> is_terminal (fst st)" "acb_quota_remaining (fst st) \<le> 0"
    | "\<not> is_terminal (fst st)" "0 < acb_quota_remaining (fst st)"
        "max_tool_calls (acb_capability (fst st)) \<le> rs_step (react_state_of (fst st))"
    | "\<not> is_terminal (fst st)" "0 < acb_quota_remaining (fst st)"
        "rs_step (react_state_of (fst st)) < max_tool_calls (acb_capability (fst st))"
    by linarith
  then show ?thesis
  proof cases
    case 1
    then show ?thesis using ended by (simp add: run_react_step_def)
  next
    case 2
    then show ?thesis using exhausted by (simp add: run_react_step_def)
  next
    case 3
    then show ?thesis using too_many by (simp add: run_react_step_def Let_def)
  next
    case 4
    show ?thesis
    proof (cases "client_or_solar env")
      case (Inl e)
      with 4 no_client show ?thesis
        by (simp add: run_react_step_def react_ready_def running_def Let_def)
    next
      case (Inr c)
      let ?built = "react_messages (with_client c env) (react_ready st)"
      let ?out = "\<lambda>ms. do_chat env c ms (min (max_tokens (acb_capability (fst st))) 512)
                          (acb_timeout_s (fst st)) (fst ?built)"
      have eq: "run_react_step env st =
          (case snd ?built of
             Inl e \<Rightarrow> (fst ?built, Inl e)
           | Inr ms \<Rightarrow> (case snd (?out ms) of
                Inl e \<Rightarrow> (fail_with e (fst (?out ms)), Inr False)
              | Inr r \<Rightarrow> react_finish env r (fst (?out ms))))"
        using 4 Inr by (simp add: run_react_step_def react_ready_def running_def Let_def split: sum.split)
      show ?thesis
      proof (cases "snd ?built")
        case (Inl e)
        with eq 4 paging show ?thesis by simp
      next
        case (Inr ms)
        then show ?thesis
          using eq 4 refused answered by (cases "snd (?out ms)") (simp_all del: do_chat_simps)
      qed
    qed
  qed
qed

text \<open>What a successful request does to the agent.\<close>

lemma react_finish_spec:
  assumes "react_finish env r st = (st', b)"
  shows "step_frame (charge r (fst st)) (fst st')
    \<and> acb_llm_calls_used (fst st') = acb_llm_calls_used (fst st) + 1
    \<and> acb_quota_remaining (fst st') = acb_quota_remaining (fst st) - 1
    \<and> (acb_state (fst st) = ZOMBIE \<and> b = Inr False \<and> is_terminal (fst st') \<and> acb_result (fst st') = acb_result (fst st)
       \<or> acb_state (fst st) \<noteq> ZOMBIE \<and> b = Inr False \<and> is_terminal (fst st')
       \<or> acb_state (fst st) \<noteq> ZOMBIE \<and> b = Inr True \<and> is_terminal (fst st') = is_terminal (fst st)
         \<and> acb_scratch (fst st') \<noteq> None
         \<and> rs_step (react_state_of (fst st')) = rs_step (react_state_of (fst st)) + 1)
    \<and> w_ran (snd st') = w_ran (snd st) \<and> w_quota (snd st') = w_quota (snd st)"
proof (cases "acb_state (fst st) = ZOMBIE")
  case True
  with assms show ?thesis
    by (auto simp: react_finish_def Let_def is_terminal_def)
next
  case False
  let ?a1 = "charge r (fst st)"
  let ?rs = "react_state_of ?a1"
  let ?st1 = "record_exchange (rs_step ?rs = 0) r (?a1, snd st)"
  let ?rs1 = "?rs\<lparr>rs_step := rs_step ?rs + 1\<rparr>"
  let ?st2 = "set_react ?rs1 ?st1"
  have "step_frame ?a1 (fst ?st1)"
    using record_exchange_simps(11) [of "(?a1, snd st)"] by (simp only: fst_conv)
  then have frame2: "step_frame ?a1 (fst ?st2)"
    using set_react_simps(7) by (rule step_frame_trans)
  have rs: "?rs = react_state_of (fst st)" by (simp add: react_state_of_def)
  show ?thesis
  proof (cases "parse_action (cr_content r)")
    case (ActFinal ans)
    have "st' = do_move DONE (set_result ans ?st2)" "b = Inr False"
      using assms False ActFinal by (simp_all add: react_finish_def Let_def)
    moreover have "step_frame ?a1 (fst (set_result ans ?st2))"
      using frame2 set_result_simps(8) by (rule step_frame_trans)
    then have "step_frame ?a1 (fst (do_move DONE (set_result ans ?st2)))"
      unfolding do_move_simps using step_frame_move by (rule step_frame_trans)
    ultimately show ?thesis using False by simp
  next
    case (ActTool name arg)
    let ?obs = "run_tool (e_calc env) name arg"
    let ?rs2 = "?rs1\<lparr>rs_observations := rs_observations ?rs1 @ [name @ ''('' @ arg @ '') -> '' @ ?obs]\<rparr>"
    let ?st3 = "set_react ?rs2 ?st2"
    have st': "st' = push_page ''user'' (''OBSERVATION: '' @ ?obs) 0 ?st3" and b: "b = Inr True"
      using assms False ActTool by (simp_all add: react_finish_def Let_def)
    have "step_frame ?a1 (fst ?st3)"
      using frame2 set_react_simps(7) by (rule step_frame_trans)
    then have "step_frame ?a1 (fst st')"
      unfolding st' using push_page_simps(11) by (rule step_frame_trans)
    moreover have "rs_step (react_state_of (fst st')) = rs_step (react_state_of (fst st)) + 1"
      unfolding st' by (simp add: rs react_state_of_def [of "fst (push_page _ _ _ _)"])
    moreover have "acb_scratch (fst st') \<noteq> None" unfolding st' by simp
    moreover have "is_terminal (fst st') = is_terminal (fst st)" unfolding st' by simp
    ultimately show ?thesis using False b unfolding st' by simp
  qed
qed

lemma react_out_quiet:
  "quiet (fst st) (fst (fst (do_chat env c ms x y (fst (react_messages env' (react_ready st))))))"
proof -
  have "quiet (fst st) (fst (fst (react_messages env' (react_ready st))))"
    by (rule quiet_trans [OF react_ready_simps(1) quiet_paged [OF react_messages_keeps(1)]])
  from quiet_trans [OF this quiet_intros(3)] show ?thesis by simp
qed

lemma react_out_not_terminal:
  assumes "\<not> is_terminal (fst st)"
    and "acb_state (fst (fst (do_chat env c ms x y (fst (react_messages env' (react_ready st)))))) \<noteq> ZOMBIE"
  shows "\<not> is_terminal (fst (fst (do_chat env c ms x y (fst (react_messages env' (react_ready st))))))"
proof -
  let ?b = "fst (fst (react_messages env' (react_ready st)))"
  have p: "paged (fst (react_ready st)) ?b" by (rule react_messages_keeps(1))
  have "paged (fst (react_ready st)) (fst (fst (do_chat env c ms x y (fst (react_messages env' (react_ready st))))))"
    using paged_kill [OF p] by simp
  from pagedD(16) [OF this] assms show ?thesis
    by (auto simp: react_ready_def running_def)
qed

lemma run_react_step_ok: "step_ok st (run_react_step env st)"
proof (cases rule: run_react_step_cases [of st env])
  case (too_many e)
  let ?st0 = "set_react (react_state_of (fst st)) st"
  have "quiet (fst st) (fst (do_fail ERROR e ?st0))"
    by (rule quiet_trans [OF set_react_simps(8) quiet_do_fail])
  then show ?thesis unfolding too_many(4) by (intro step_ok_stop) simp_all
next
  case (paging c e)
  have "quiet (fst st) (fst (fst (react_messages (with_client c env) (react_ready st))))"
    by (rule quiet_trans [OF react_ready_simps(1) quiet_paged [OF react_messages_keeps(1)]])
  then show ?thesis unfolding paging(2) by (rule step_ok_raise)
next
  case (refused c e ms x y)
  from quiet_trans [OF react_out_quiet quiet_fail] show ?thesis
    unfolding refused(3) by (intro step_ok_stop) simp_all
next
  case (answered c r ms x y)
  let ?out = "fst (do_chat env c ms x y (fst (react_messages (with_client c env) (react_ready st))))"
  obtain st' b where f: "react_finish env r ?out = (st', b)" by (metis surj_pair)
  note k = react_finish_spec [OF f]
  have eq: "run_react_step env st = (st', b)" using answered(4) f by simp
  obtain again where b: "b = Inr again" "is_terminal (fst st') = (\<not> again)"
    using k react_out_not_terminal [OF answered(1), of env c ms x y "with_client c env"] by auto
  show ?thesis
    unfolding eq b(1)
    by (rule step_ok_charged [OF react_out_quiet, where r = r]) (use k b answered in auto)
qed (simp_all add: step_ok_raise step_ok_stop step_ok_fail)

interpretation react: step_runner "run_react_step env" for env
  by (rule step_runnerI) (rule run_react_step_ok)

end
