(* ===== verification/Run_Agent.thy ===== *)
theory Run_Agent
  imports Coder Agent_Loop
begin

text \<open>
  The two entry points of \<open>gcos/executor.py\<close>: \<open>run_step\<close>, which chooses the step
  function by the agent's capabilities, and \<open>run_agent\<close>, which repeats it at most 32
  times. All three step functions meet the contract \<open>step_runner\<close>, hence \<open>run_step\<close>
  does, and what the contract says of the loop holds of \<open>run_agent\<close>.
\<close>

section \<open>Dispatch and loop\<close>

definition run_step :: "env \<Rightarrow> step_state \<Rightarrow> step_state \<times> (py_exc + bool)" where
  "run_step env st =
     (if multi_step (acb_capability (fst st)) then run_react_step env st
      else if can_exec_code (acb_capability (fst st)) then run_coder_step env st
      else run_plain_step env st)"

definition step_safety :: nat where
  "step_safety = 32"

definition run_agent :: "env \<Rightarrow> step_state \<Rightarrow> step_state \<times> py_exc option" where
  "run_agent env st =
     (case client_or_solar env of
        Inl e \<Rightarrow> (st, Some e)
      | Inr c \<Rightarrow> run_steps (run_step (with_client c env)) step_safety st)"

section \<open>Lemmas\<close>

lemma run_step_ok: "step_ok st (run_step env st)"
  by (simp add: run_step_def run_react_step_ok run_coder_step_ok run_plain_step_ok)

interpretation runner: step_runner "run_step env" for env
  by (rule step_runnerI) (rule run_step_ok)

text \<open>A step that leaves an agent killed leaves its result alone.\<close>

lemma coder_act_zombie:
  assumes "coder_act env reply st = (st', r)" and "\<not> is_terminal (fst st)" and "acb_state (fst st') = ZOMBIE"
  shows "acb_result (fst st') = acb_result (fst st)"
  using assms
  by (auto simp: coder_act_def Let_def set_result_def move_state is_terminal_def
      split: option.splits if_splits sum.splits)

lemma coder_out_live:
  assumes "\<not> is_terminal (fst st)"
    and "acb_state (fst (fst (do_chat env c ms x y (fst (coder_built c' env' st))))) \<noteq> ZOMBIE"
  shows "\<not> is_terminal (fst (fst (do_chat env c ms x y (fst (coder_built c' env' st)))))"
proof -
  have "paged (fst (coder_ready st)) (fst (fst (coder_built c' env' st)))"
    unfolding coder_built_def
    using assemble_paged [of "(fst (coder_ready st), snd (pager_for (coder_ready st)))"] by simp
  then have "paged (fst (coder_ready st)) (fst (fst (do_chat env c ms x y (fst (coder_built c' env' st)))))"
    using paged_kill by simp
  moreover have "\<not> is_terminal (fst (coder_ready st))"
    using assms(1) by (simp add: coder_ready_def ensure_coder_system_pinned_def)
  ultimately show ?thesis
    using pagedD(16) assms(2) by blast
qed

lemma plain_finish_zombie:
  "acb_state (fst (plain_finish r st)) = ZOMBIE \<Longrightarrow> acb_result (fst (plain_finish r st)) = acb_result (fst st)"
  by (auto simp: plain_finish_def Let_def move_state split: if_splits)

lemma running_result [simp]: "acb_result (fst (running st)) = acb_result (fst st)"
  by (simp add: running_def)

lemma build_messages_result: "acb_result (fst (fst (build_messages env st))) = acb_result (fst st)"
  by (rule pagedD(7) [OF build_messages_keeps(1)])

lemma run_plain_step_zombie:
  assumes "run_plain_step env st = (st', r)" and "acb_state (fst st') = ZOMBIE"
  shows "acb_result (fst st') = acb_result (fst st)"
proof (cases rule: run_plain_step_cases [of env st])
  case (answered c res ms x y)
  then show ?thesis
    using assms plain_finish_zombie [of res] by (auto simp: build_messages_result)
qed (use assms in \<open>auto simp: build_messages_result\<close>)

lemma coder_built_result: "acb_result (fst (fst (coder_built c env st))) = acb_result (fst st)"
proof -
  have "acb_result (fst (coder_ready st)) = acb_result (fst st)"
    by (simp add: coder_ready_def ensure_coder_system_pinned_def)
  with pagedD(7) [OF assemble_paged [of "(fst (coder_ready st), snd (pager_for (coder_ready st)))"]]
  show ?thesis by (simp add: coder_built_def)
qed

lemma run_coder_step_zombie:
  assumes "run_coder_step env st = (st', r)" and "\<not> is_terminal (fst st)" and "acb_state (fst st') = ZOMBIE"
  shows "acb_result (fst st') = acb_result (fst st)"
proof (cases rule: run_coder_step_cases [of env st])
  case (answered c res ms x y)
  let ?out = "fst (do_chat env c ms x y (fst (coder_built c env st)))"
  have out: "acb_result (fst ?out) = acb_result (fst st)" by (simp add: coder_built_result)
  have fin: "coder_finish env res ?out = (st', r)" using assms(1) answered(4) by simp
  show ?thesis
  proof (cases "acb_state (fst ?out) = ZOMBIE")
    case True
    with fin out show ?thesis by (auto simp: coder_finish_def Let_def)
  next
    case False
    let ?st1 = "record_exchange (acb_llm_calls_used (charge res (fst ?out)) = 1) res
      (charge res (fst ?out), snd ?out)"
    have "coder_act env (cr_content res) ?st1 = (st', r)"
      using fin False by (simp add: coder_finish_def Let_def)
    moreover have "\<not> is_terminal (fst ?st1)"
      using coder_out_live [OF assms(2) False] by simp
    ultimately show ?thesis
      using coder_act_zombie assms(3) out by fastforce
  qed
qed (use assms in \<open>auto simp: coder_built_result\<close>)

lemma react_ready_result: "acb_result (fst (react_ready st)) = acb_result (fst st)"
  by (simp add: react_ready_def)

lemma react_finish_zombie:
  assumes "react_finish env r st = (st', b)" and "acb_state (fst st') = ZOMBIE" and "acb_state (fst st) \<noteq> ZOMBIE"
  shows "acb_result (fst st') = acb_result (fst st)"
  using assms by (auto simp: react_finish_def Let_def move_state split: action.splits if_splits)

lemma run_react_step_zombie:
  assumes "run_react_step env st = (st', r)" and "acb_state (fst st') = ZOMBIE"
  shows "acb_result (fst st') = acb_result (fst st)"
proof (cases rule: run_react_step_cases [of st env])
  case (answered c res ms x y)
  let ?out = "fst (do_chat env c ms x y (fst (react_messages (with_client c env) (react_ready st))))"
  have out: "acb_result (fst ?out) = acb_result (fst st)"
    using pagedD(7) [OF react_messages_keeps(1)] by (simp add: react_ready_result)
  have fin: "react_finish env res ?out = (st', r)" using assms(1) answered(4) by simp
  from react_finish_zombie [OF fin assms(2)] react_finish_spec [OF fin] out show ?thesis
    by (cases "acb_state (fst ?out) = ZOMBIE") auto
qed (use assms pagedD(7) [OF react_messages_keeps(1)] in \<open>auto simp: react_ready_result\<close>)

text \<open>A multi-step agent counts its steps.\<close>

lemma react_step_counts:
  assumes "run_react_step env st = (st', Inr True)"
  shows "rs_step (react_state_of (fst st')) = rs_step (react_state_of (fst st)) + 1
    \<and> rs_step (react_state_of (fst st)) < max_tool_calls (acb_capability (fst st))"
proof (cases rule: run_react_step_cases [of st env])
  case (answered c res ms x y)
  let ?out = "fst (do_chat env c ms x y (fst (react_messages (with_client c env) (react_ready st))))"
  have scr: "acb_scratch (fst ?out) = Some (react_state_of (fst st))"
    using pagedD(8) [OF react_messages_keeps(1)] by simp
  have fin: "react_finish env res ?out = (st', Inr True)" using assms answered(4) by simp
  from react_finish_spec [OF fin] scr answered(3) show ?thesis
    by (auto simp: react_state_of_def)
qed (use assms in auto)

lemma run_steps_react_terminal:
  "multi_step (acb_capability (fst st)) \<Longrightarrow> run_steps (run_step env) n st = (st', None) \<Longrightarrow>
   nat (max_tool_calls (acb_capability (fst st)) - rs_step (react_state_of (fst st))) < n \<Longrightarrow>
   is_terminal (fst st')"
proof (induction n arbitrary: st)
  case (Suc n)
  show ?case
  proof (cases "is_terminal (fst st)")
    case True
    with Suc.prems show ?thesis by simp
  next
    case live: False
    obtain st1 r where s: "run_step env st = (st1, r)" by (metis surj_pair)
    show ?thesis
    proof (cases "r = Inr True")
      case True
      have react: "run_react_step env st = (st1, Inr True)"
        using s True Suc.prems(1) by (simp add: run_step_def)
      have cap: "acb_capability (fst st1) = acb_capability (fst st)"
        using runner.step_frame_ok [of st env] s by (simp add: step_frame_def)
      have "run_steps (run_step env) n st1 = (st', None)"
        using Suc.prems(2) live s True by simp
      moreover have "nat (max_tool_calls (acb_capability (fst st1)) - rs_step (react_state_of (fst st1))) < n"
        using Suc.prems(3) react_step_counts [OF react] unfolding cap by linarith
      ultimately show ?thesis
        using Suc.prems(1) cap by (intro Suc.IH [of st1]) simp_all
    next
      case False
      with Suc.prems(2) live s have "r = Inr False" "st' = st1"
        by (auto split: sum.splits if_splits)
      with runner.step_done [of env st] s show ?thesis by simp
    qed
  qed
qed simp

lemma coder_finish_no_more:
  assumes "coder_finish env r st = (st', b)"
  shows "b \<noteq> Inr True"
proof (cases "acb_state (fst st) = ZOMBIE")
  case True
  with assms show ?thesis by (auto simp: coder_finish_def Let_def)
next
  case False
  with assms have "coder_act env (cr_content r)
      (record_exchange (acb_llm_calls_used (charge r (fst st)) = 1) r (charge r (fst st), snd st)) = (st', b)"
    by (simp add: coder_finish_def Let_def)
  from coder_act_agent [OF this] show ?thesis by auto
qed

lemma run_steps_single_terminal:
  assumes "\<not> multi_step (acb_capability (fst st))" and "run_steps (run_step env) (Suc n) st = (st', None)"
  shows "is_terminal (fst st')"
proof -
  obtain st1 r where s: "run_step env st = (st1, r)" by (metis surj_pair)
  have "r \<noteq> Inr True"
  proof
    assume "r = Inr True"
    with s assms(1) have "run_coder_step env st = (st1, Inr True) \<or> run_plain_step env st = (st1, Inr True)"
      by (auto simp: run_step_def split: if_splits)
    then show False
    proof
      assume c: "run_coder_step env st = (st1, Inr True)"
      show False
      proof (cases rule: run_coder_step_cases [of env st])
        case (answered c' res ms x y)
        with c have "coder_finish env res (fst (do_chat env c' ms x y (fst (coder_built c' env st)))) = (st1, Inr True)"
          by simp
        from coder_finish_no_more [OF this] show False by simp
      qed (use c in auto)
    next
      assume "run_plain_step env st = (st1, Inr True)"
      then show False
        by (auto simp: run_plain_step_def Let_def split: sum.splits if_splits)
    qed
  qed
  with assms(2) s runner.step_done [of env st] show ?thesis
    by (auto split: if_splits sum.splits)
qed

section \<open>Properties\<close>


text \<open>A plain agent and its three-line history.\<close>

definition plain_agent :: agent where
  "plain_agent = (new_agent 3 ''p'' ''hi'' 0)\<lparr>acb_pager := Some \<lparr>cpg_budget = 100, cpg_policies = default_policies True\<rparr>\<rparr>"


text \<open>
  Cooperative cancellation: an agent that was live before a step and is a zombie after it
  (killed while a request was in flight) keeps the result it had; the answer of the request
  is discarded.
\<close>

theorem killed_mid_step_discards_result:
  assumes "run_step env st = (st', r)" and "\<not> is_terminal (fst st)" and "acb_state (fst st') = ZOMBIE"
  shows "acb_result (fst st') = acb_result (fst st)"
  using assms run_plain_step_zombie run_coder_step_zombie run_react_step_zombie
  by (auto simp: run_step_def split: if_splits)

theorem killed_mid_step_discards_result_witness:
  "\<exists>st' r. run_step ((calm (answer ''ok''))\<lparr>e_kill := (\<lambda>n. Some (1, ''killed by user''))\<rparr>)
       (plain_agent, fresh_world 5) = (st', r) \<and> acb_state (fst st') = ZOMBIE \<and> acb_result (fst st') = None"
proof -
  let ?env = "(calm (answer ''ok''))\<lparr>e_kill := (\<lambda>n. Some (1, ''killed by user''))\<rparr>"
  obtain st' r where e: "run_step ?env (plain_agent, fresh_world 5) = (st', r)"
    by (metis surj_pair)
  have "acb_state (fst (fst (run_step ?env (plain_agent, fresh_world 5)))) = ZOMBIE" by code_simp
  with e have z: "acb_state (fst st') = ZOMBIE" by simp
  have "\<not> is_terminal plain_agent"
    by (simp add: plain_agent_def new_agent_def is_terminal_def)
  with killed_mid_step_discards_result [OF e _ z] have "acb_result (fst st') = acb_result plain_agent"
    by simp
  with e z show ?thesis by (auto simp: plain_agent_def new_agent_def)
qed



end
