(* ===== verification/Message_Bus.thy ===== *)
theory Message_Bus
  imports Py_Text "HOL-Library.AList"
begin

text \<open>
  The message bus (\<open>gcos/ipc/message_bus.py\<close>): one bounded FIFO mailbox per PID, created
  on first use. The dictionary is an association list in insertion order. A call that blocks
  on a mailbox (a blocking send on a full one, a receive on an empty one) is given what
  another thread did in the meantime, if anything: \<open>freed\<close>, whether a slot became free
  before the timeout, and \<open>arrived\<close>, the state of the bus once a message is there.
\<close>

section \<open>The bus\<close>

record payload =
  py_from_pid :: pid
  py_kind :: string
  py_content :: string
  py_ts :: time

record message_bus =
  mb_cap :: int
  mb_boxes :: "(pid \<times> payload list) list"

definition bus_init :: "int \<Rightarrow> message_bus" where
  "bus_init cap = \<lparr>mb_cap = cap, mb_boxes = []\<rparr>"

definition bus_mailbox :: "pid \<Rightarrow> message_bus \<Rightarrow> message_bus" where
  "bus_mailbox p b =
     (if map_of (mb_boxes b) p = None then b\<lparr>mb_boxes := mb_boxes b @ [(p, [])]\<rparr> else b)"

definition box_of :: "message_bus \<Rightarrow> pid \<Rightarrow> payload list" where
  "box_of b p = (case map_of (mb_boxes b) p of None \<Rightarrow> [] | Some ms \<Rightarrow> ms)"

text \<open>\<open>queue.Queue.full\<close>: a capacity of zero or less means unbounded.\<close>

definition box_full :: "message_bus \<Rightarrow> pid \<Rightarrow> bool" where
  "box_full b p = (0 < mb_cap b \<and> mb_cap b \<le> int (length (box_of b p)))"

definition box_put :: "pid \<Rightarrow> payload \<Rightarrow> message_bus \<Rightarrow> message_bus" where
  "box_put p m b = b\<lparr>mb_boxes := AList.update p (box_of b p @ [m]) (mb_boxes b)\<rparr>"

text \<open>
  \<open>send\<close>. For a blocking send on a full mailbox, \<open>freed\<close> is the bus in which a slot
  has become free before the timeout, if that happens.
\<close>

definition bus_send :: "pid \<Rightarrow> payload \<Rightarrow> bool \<Rightarrow> message_bus option \<Rightarrow> message_bus \<Rightarrow> bool \<times> message_bus"
  where
  "bus_send target m block freed b =
     (let b1 = bus_mailbox target b
      in if \<not> box_full b1 target then (True, box_put target m b1)
         else if block
         then (case freed of None \<Rightarrow> (False, b1) | Some b2 \<Rightarrow> (True, box_put target m b2))
         else (False, b1))"

definition box_get :: "pid \<Rightarrow> message_bus \<Rightarrow> payload option \<times> message_bus" where
  "box_get p b =
     (case box_of b p of
        [] \<Rightarrow> (None, b)
      | m # ms \<Rightarrow> (Some m, b\<lparr>mb_boxes := AList.update p ms (mb_boxes b)\<rparr>))"

text \<open>\<open>recv\<close>; \<open>arrived\<close> is the bus once a message has come, if one does in time.\<close>

definition bus_recv :: "pid \<Rightarrow> message_bus option \<Rightarrow> message_bus \<Rightarrow> payload option \<times> message_bus" where
  "bus_recv p arrived b =
     (let b1 = bus_mailbox p b
      in if box_of b1 p \<noteq> [] then box_get p b1
         else case arrived of None \<Rightarrow> (None, b1) | Some b2 \<Rightarrow> box_get p b2)"

definition has_pending :: "pid \<Rightarrow> message_bus \<Rightarrow> bool" where
  "has_pending p b = (case map_of (mb_boxes b) p of None \<Rightarrow> False | Some ms \<Rightarrow> ms \<noteq> [])"

definition make_result :: "time \<Rightarrow> pid \<Rightarrow> string \<Rightarrow> payload" where
  "make_result now from_pid content =
     \<lparr>py_from_pid = from_pid, py_kind = ''result'', py_content = content, py_ts = now\<rparr>"

definition drop_mailbox :: "pid \<Rightarrow> message_bus \<Rightarrow> message_bus" where
  "drop_mailbox p b = b\<lparr>mb_boxes := AList.delete p (mb_boxes b)\<rparr>"

definition bus_snapshot :: "message_bus \<Rightarrow> (pid \<times> nat) list" where
  "bus_snapshot b = map (\<lambda>(p, ms). (p, length ms)) (mb_boxes b)"

definition input_marker :: string where
  "input_marker = ''{INPUT}''"

definition resolve_input_placeholder :: "string \<Rightarrow> payload option \<Rightarrow> string" where
  "resolve_input_placeholder prompt input =
     (if \<not> contains_sub input_marker prompt then prompt
      else str_replace input_marker (case input of None \<Rightarrow> '''' | Some m \<Rightarrow> py_content m) prompt)"

section \<open>Invariant\<close>

text \<open>One mailbox per PID, and no mailbox above the capacity (when there is one).\<close>

definition bus_inv :: "message_bus \<Rightarrow> bool" where
  "bus_inv b \<longleftrightarrow> distinct (map fst (mb_boxes b)) \<and>
     (0 < mb_cap b \<longrightarrow> (\<forall>p. int (length (box_of b p)) \<le> mb_cap b))"

section \<open>Histories of calls\<close>

text \<open>
  Posts (\<open>Inl (p, m)\<close>) and fetches (\<open>Inr p\<close>) of any threads on any mailboxes: the
  messages accepted, the messages fetched, each with its mailbox, and the bus at the end.
\<close>

fun mail_runs :: "(pid \<Rightarrow> 'm \<Rightarrow> 'b \<Rightarrow> bool \<times> 'b) \<Rightarrow> (pid \<Rightarrow> 'b \<Rightarrow> 'm option \<times> 'b)
    \<Rightarrow> ((pid \<times> 'm) + pid) list \<Rightarrow> 'b \<Rightarrow> (pid \<times> 'm) list \<times> (pid \<times> 'm) list \<times> 'b" where
  "mail_runs post fetch [] b = ([], [], b)"
| "mail_runs post fetch (Inl pm # cs) b =
     (let (accepted, b') = post (fst pm) (snd pm) b; (ac, fe, b'') = mail_runs post fetch cs b'
      in (if accepted then pm # ac else ac, fe, b''))"
| "mail_runs post fetch (Inr p # cs) b =
     (let (r, b') = fetch p b; (ac, fe, b'') = mail_runs post fetch cs b'
      in (ac, (case r of None \<Rightarrow> fe | Some m \<Rightarrow> (p, m) # fe), b''))"

definition of_box :: "pid \<Rightarrow> (pid \<times> 'm) list \<Rightarrow> 'm list" where
  "of_box p xs = map snd (filter (\<lambda>x. fst x = p) xs)"

section \<open>The contract of a mail system\<close>

text \<open>
  What pipes rely on: a message that was accepted is at the end of its mailbox, a receive takes
  the head, and no operation touches another mailbox.
\<close>

locale mail =
  fixes ok :: "'b \<Rightarrow> bool"
    and box :: "'b \<Rightarrow> pid \<Rightarrow> 'm list"
    and room :: "'b \<Rightarrow> pid \<Rightarrow> bool"
    and post :: "pid \<Rightarrow> 'm \<Rightarrow> 'b \<Rightarrow> bool \<times> 'b"
    and fetch :: "pid \<Rightarrow> 'b \<Rightarrow> 'm option \<times> 'b"
  assumes post_room: "ok b \<Longrightarrow> room b p \<Longrightarrow>
          fst (post p m b) \<and> ok (snd (post p m b)) \<and> box (snd (post p m b)) = (box b)(p := box b p @ [m])"
    and post_full: "ok b \<Longrightarrow> \<not> room b p \<Longrightarrow>
          \<not> fst (post p m b) \<and> ok (snd (post p m b)) \<and> box (snd (post p m b)) = box b"
    and fetch_head: "ok b \<Longrightarrow> box b p = m # ms \<Longrightarrow>
          fst (fetch p b) = Some m \<and> ok (snd (fetch p b)) \<and> box (snd (fetch p b)) = (box b)(p := ms)"
    and fetch_empty: "ok b \<Longrightarrow> box b p = [] \<Longrightarrow>
          fst (fetch p b) = None \<and> ok (snd (fetch p b)) \<and> box (snd (fetch p b)) = box b"
begin

text \<open>
  What was fetched from a mailbox followed by what is still in it is what was in it followed
  by what was accepted.
\<close>

lemma runs_fifo:
  "ok b \<Longrightarrow> mail_runs post fetch cs b = (ac, fe, b') \<Longrightarrow>
     ok b' \<and> of_box p fe @ box b' p = box b p @ of_box p ac"
proof (induction cs arbitrary: b ac fe)
  case Nil
  then show ?case by (simp add: of_box_def)
next
  case (Cons c cs)
  show ?case
  proof (cases c)
    case (Inl pm)
    obtain ok' b1 where b1: "post (fst pm) (snd pm) b = (ok', b1)" by (metis surj_pair)
    obtain ac1 fe1 where r: "mail_runs post fetch cs b1 = (ac1, fe1, b')"
      using Cons.prems(2) Inl b1 by (auto split: prod.splits)
    have "ok b1 \<and> box b1 = (if ok' then (box b)(fst pm := box b (fst pm) @ [snd pm]) else box b)"
      using post_room [OF Cons.prems(1), of "fst pm" "snd pm"]
        post_full [OF Cons.prems(1), of "fst pm" "snd pm"] b1
      by (cases "room b (fst pm)") auto
    with Cons.IH [OF _ r] Cons.prems(2) Inl b1 r show ?thesis
      by (auto simp: of_box_def split: if_splits)
  next
    case (Inr q)
    obtain x b1 where b1: "fetch q b = (x, b1)" by (metis surj_pair)
    obtain ac1 fe1 where r: "mail_runs post fetch cs b1 = (ac1, fe1, b')"
      using Cons.prems(2) Inr b1 by (auto split: prod.splits)
    have "ok b1 \<and> (case x of None \<Rightarrow> box b1 = box b | Some m \<Rightarrow> box b = (box b1)(q := m # box b1 q))"
      using fetch_head [OF Cons.prems(1), of q] fetch_empty [OF Cons.prems(1), of q] b1
      by (cases "box b q") (auto simp: fun_eq_iff)
    with Cons.IH [OF _ r] Cons.prems(2) Inr b1 r show ?thesis
      by (auto simp: of_box_def fun_eq_iff split: option.splits if_splits)
  qed
qed

end

section \<open>Lemmas\<close>

lemma box_of_mailbox [simp]: "box_of (bus_mailbox p b) = box_of b"
  by (auto simp: bus_mailbox_def box_of_def fun_eq_iff map_add_def split: option.splits)

lemma box_of_update:
  "box_of (b\<lparr>mb_boxes := AList.update p ms (mb_boxes b)\<rparr>) = (box_of b)(p := ms)"
  by (auto simp: box_of_def update_conv' fun_eq_iff)

lemma box_of_drop: "box_of (drop_mailbox p b) = (box_of b)(p := [])"
  by (auto simp: box_of_def drop_mailbox_def delete_conv' fun_eq_iff)

lemma has_pending_iff: "has_pending p b \<longleftrightarrow> box_of b p \<noteq> []"
  by (auto simp: has_pending_def box_of_def split: option.splits)

lemma mailbox_cap [simp]: "mb_cap (bus_mailbox p b) = mb_cap b"
  by (simp add: bus_mailbox_def)

lemma box_full_mailbox [simp]: "box_full (bus_mailbox p b) q = box_full b q"
  by (simp add: box_full_def)

lemma bus_inv_init [simp]: "bus_inv (bus_init cap)"
  by (simp add: bus_inv_def bus_init_def box_of_def)

lemma bus_inv_mailbox [inv_intros]: "bus_inv b \<Longrightarrow> bus_inv (bus_mailbox p b)"
proof -
  assume inv: "bus_inv b"
  then have "distinct (map fst (mb_boxes (bus_mailbox p b)))"
    by (auto simp: bus_inv_def bus_mailbox_def map_of_eq_None_iff image_iff)
  with inv show ?thesis by (simp add: bus_inv_def)
qed

lemma bus_inv_update [inv_intros]:
  "bus_inv b \<Longrightarrow> mb_cap b \<le> 0 \<or> int (length ms) \<le> mb_cap b \<Longrightarrow>
     bus_inv (b\<lparr>mb_boxes := AList.update p ms (mb_boxes b)\<rparr>)"
  by (auto simp: bus_inv_def box_of_update distinct_update)

lemma bus_inv_put: "bus_inv b \<Longrightarrow> \<not> box_full b p \<Longrightarrow> bus_inv (box_put p m b)"
  unfolding box_put_def by (rule bus_inv_update) (auto simp: box_full_def)

lemma bus_inv_get: "bus_inv b \<Longrightarrow> bus_inv (snd (box_get p b))"
proof (cases "box_of b p")
  case (Cons m ms)
  assume inv: "bus_inv b"
  have "int (length (box_of b p)) \<le> mb_cap b" if "0 < mb_cap b"
    using inv that by (simp add: bus_inv_def)
  with Cons have "mb_cap b \<le> 0 \<or> int (length ms) \<le> mb_cap b" by force
  with inv Cons show ?thesis by (simp add: box_get_def bus_inv_update)
qed (simp add: box_get_def)

text \<open>The calls the workers make on an unshared bus: a send that finds no slot, a receive that times out.\<close>

interpretation bus: mail bus_inv box_of "\<lambda>b p. \<not> box_full b p"
  "\<lambda>p m b. bus_send p m False None b" "\<lambda>p b. bus_recv p None b"
proof unfold_locales
  fix b p m
  assume inv: "bus_inv b"
  note inv1 = bus_inv_mailbox [OF inv, of p]
  show "\<not> box_full b p \<Longrightarrow> fst (bus_send p m False None b) \<and> bus_inv (snd (bus_send p m False None b)) \<and>
      box_of (snd (bus_send p m False None b)) = (box_of b)(p := box_of b p @ [m])"
    using bus_inv_put [OF inv1] by (simp add: bus_send_def box_put_def box_of_update Let_def)
  show "\<not> \<not> box_full b p \<Longrightarrow> \<not> fst (bus_send p m False None b) \<and>
      bus_inv (snd (bus_send p m False None b)) \<and> box_of (snd (bus_send p m False None b)) = box_of b"
    using inv1 by (simp add: bus_send_def Let_def)
  show "box_of b p = [] \<Longrightarrow> fst (bus_recv p None b) = None \<and> bus_inv (snd (bus_recv p None b)) \<and>
      box_of (snd (bus_recv p None b)) = box_of b"
    using inv1 by (simp add: bus_recv_def Let_def)
  fix ms
  show "box_of b p = m # ms \<Longrightarrow> fst (bus_recv p None b) = Some m \<and>
      bus_inv (snd (bus_recv p None b)) \<and> box_of (snd (bus_recv p None b)) = (box_of b)(p := ms)"
    using bus_inv_get [OF inv1, of p] by (simp add: bus_recv_def box_get_def box_of_update Let_def)
qed

lemma bus_cap [simp]:
  "mb_cap (snd (bus_send p m False None b)) = mb_cap b"
  "mb_cap (snd (bus_recv p None b)) = mb_cap b"
  by (auto simp: bus_send_def bus_recv_def box_put_def box_get_def Let_def split: list.splits)

lemma bus_runs_cap:
  "mail_runs (\<lambda>p m. bus_send p m False None) (\<lambda>p. bus_recv p None) cs b = (ac, fe, b') \<Longrightarrow>
     mb_cap b' = mb_cap b"
proof (induction cs arbitrary: b ac fe)
  case (Cons c cs)
  then show ?case
    by (cases c) (auto split: prod.splits dest!: Cons.IH, (metis bus_cap snd_conv)+)
qed simp

section \<open>Properties\<close>

text \<open>
  Pipes are FIFO and lose nothing they accept. For every interleaving of sends and
  receives on any mailboxes, what was received from a mailbox followed by what is still in it
  is exactly the accepted messages in the order they were accepted; no mailbox ever exceeds
  the capacity, and a message is refused only by a full mailbox.
\<close>

theorem mailbox_fifo:
  assumes "mail_runs (\<lambda>p m. bus_send p m False None) (\<lambda>p. bus_recv p None) cs (bus_init cap)
             = (accepted, fetched, b)"
  shows "of_box p fetched @ box_of b p = of_box p accepted
    \<and> (0 < cap \<longrightarrow> int (length (box_of b p)) \<le> cap)
    \<and> (has_pending p b \<longleftrightarrow> of_box p fetched \<noteq> of_box p accepted)"
proof -
  have inv: "bus_inv b" and eq: "of_box p fetched @ box_of b p = of_box p accepted"
    using bus.runs_fifo [OF bus_inv_init assms, of p] by (simp_all add: bus_init_def box_of_def)
  have "has_pending p b \<longleftrightarrow> of_box p fetched \<noteq> of_box p accepted"
    by (simp add: has_pending_iff flip: eq)
  with inv eq bus_runs_cap [OF assms] show ?thesis
    by (simp add: bus_inv_def bus_init_def)
qed

theorem mailbox_fifo_witness:
  "\<exists>b. mail_runs (\<lambda>p m. bus_send p m False None) (\<lambda>p. bus_recv p None)
       [Inl (2, make_result 1 1 ''a''), Inl (2, make_result 2 1 ''b''), Inr 2, Inl (2, make_result 3 1 ''c'')]
       (bus_init 1)
     = ([(2, make_result 1 1 ''a''), (2, make_result 3 1 ''c'')], [(2, make_result 1 1 ''a'')], b)
   \<and> box_of b 2 = [make_result 3 1 ''c'']"
proof -
  let ?run = "mail_runs (\<lambda>p m. bus_send p m False None) (\<lambda>p. bus_recv p None)
       [Inl (2, make_result 1 1 ''a''), Inl (2, make_result 2 1 ''b''), Inr 2, Inl (2, make_result 3 1 ''c'')]
       (bus_init 1)"
  let ?b = "\<lparr>mb_cap = 1, mb_boxes = [(2, [make_result 3 1 ''c''])]\<rparr>"
  have run: "?run
     = ([(2, make_result 1 1 ''a''), (2, make_result 3 1 ''c'')], [(2, make_result 1 1 ''a'')], ?b)"
    by (simp add: bus_init_def bus_send_def bus_recv_def bus_mailbox_def box_full_def box_of_def
        box_put_def box_get_def cong: prod.case_cong_weak let_weak_cong)
  have "box_of ?b 2 = [make_result 3 1 ''c'']"
    using mailbox_fifo [OF run, of 2] by (simp add: of_box_def)
  then show ?thesis
    by (intro exI conjI) (rule run)
qed

end
