(* ===== verification/Process_Table.thy ===== *)
theory Process_Table
  imports Pcb
begin

text \<open>
  The process table (\<open>gcos/kernel/process_table.py\<close>) over an explicit store of PCB
  objects. The code shares PCBs by reference between the table, the ready queue and the
  workers; every object a kernel makes has its own PID, so a reference is the PID and the
  store maps it to the object. \<open>pt_keys\<close> is the dictionary's key order. A removed entry
  leaves the dictionary but not the store, as a worker or the queue may still hold it.
\<close>

section \<open>The table\<close>

record ptable =
  pt_objs :: "pid \<Rightarrow> agent option"
  pt_keys :: "pid list"

definition table_init :: ptable where
  "table_init = \<lparr>pt_objs = (\<lambda>_. None), pt_keys = []\<rparr>"

definition table_add :: "agent \<Rightarrow> ptable \<Rightarrow> py_exc + ptable" where
  "table_add a t =
     (if acb_pid a \<in> set (pt_keys t)
      then Inl (OtherExc ''ValueError'' (''PID '' @ show_int (acb_pid a) @ '' already registered''))
      else Inr \<lparr>pt_objs = (pt_objs t)(acb_pid a \<mapsto> a), pt_keys = pt_keys t @ [acb_pid a]\<rparr>)"

definition table_get :: "ptable \<Rightarrow> pid \<Rightarrow> agent option" where
  "table_get t p = (if p \<in> set (pt_keys t) then pt_objs t p else None)"

definition table_remove :: "pid \<Rightarrow> ptable \<Rightarrow> agent option \<times> ptable" where
  "table_remove p t = (table_get t p, t\<lparr>pt_keys := removeAll p (pt_keys t)\<rparr>)"

definition objs_of :: "ptable \<Rightarrow> pid list \<Rightarrow> agent list" where
  "objs_of t ps = List.map_filter (pt_objs t) ps"

definition table_snapshot :: "ptable \<Rightarrow> agent list" where
  "table_snapshot t = objs_of t (sort (pt_keys t))"

definition table_by_state :: "agent_state \<Rightarrow> ptable \<Rightarrow> agent list" where
  "table_by_state s t = filter (\<lambda>a. acb_state a = s) (objs_of t (pt_keys t))"

definition dead_keys :: "ptable \<Rightarrow> pid list" where
  "dead_keys t =
     filter (\<lambda>p. case pt_objs t p of None \<Rightarrow> False | Some a \<Rightarrow> is_terminal a) (pt_keys t)"

definition table_clear_terminal :: "ptable \<Rightarrow> nat \<times> ptable" where
  "table_clear_terminal t =
     (length (dead_keys t), fold (\<lambda>p u. snd (table_remove p u)) (dead_keys t) t)"

definition table_len :: "ptable \<Rightarrow> nat" where
  "table_len t = length (pt_keys t)"

definition table_contains :: "pid \<Rightarrow> ptable \<Rightarrow> bool" where
  "table_contains p t = (p \<in> set (pt_keys t))"

text \<open>Mutating an object through a reference.\<close>

definition obj_write :: "pid \<Rightarrow> agent \<Rightarrow> ptable \<Rightarrow> ptable" where
  "obj_write p a t = t\<lparr>pt_objs := (pt_objs t)(p \<mapsto> a)\<rparr>"

definition obj_update :: "pid \<Rightarrow> (agent \<Rightarrow> agent) \<Rightarrow> ptable \<Rightarrow> ptable" where
  "obj_update p f t =
     (case pt_objs t p of None \<Rightarrow> t | Some a \<Rightarrow> obj_write p (f a) t)"

section \<open>Invariant\<close>

text \<open>Keys are distinct, every key has an object, and every object is stored under its own PID.\<close>

definition table_inv :: "ptable \<Rightarrow> bool" where
  "table_inv t \<longleftrightarrow>
     distinct (pt_keys t) \<and> (\<forall>p \<in> set (pt_keys t). pt_objs t p \<noteq> None)
     \<and> (\<forall>p a. pt_objs t p = Some a \<longrightarrow> acb_pid a = p)"

section \<open>The contract of a registry of processes\<close>

text \<open>
  What the clients of the table (the process tree, the kernel) rely on: lookups see exactly
  the last registration, a duplicate registration is refused, and the invariant is kept.
\<close>

locale registry =
  fixes reg_inv :: "'t \<Rightarrow> bool"
    and reg_empty :: 't
    and reg_get :: "'t \<Rightarrow> pid \<Rightarrow> 'a option"
    and reg_add :: "'a \<Rightarrow> 't \<Rightarrow> py_exc + 't"
    and reg_remove :: "pid \<Rightarrow> 't \<Rightarrow> 'a option \<times> 't"
    and reg_key :: "'a \<Rightarrow> pid"
  assumes inv_empty: "reg_inv reg_empty"
    and get_empty: "reg_get reg_empty p = None"
    and add_fresh: "reg_inv t \<Longrightarrow> reg_get t (reg_key a) = None \<Longrightarrow>
          \<exists>t'. reg_add a t = Inr t' \<and> reg_inv t' \<and> reg_get t' = (reg_get t)(reg_key a \<mapsto> a)"
    and add_taken: "reg_inv t \<Longrightarrow> reg_get t (reg_key a) \<noteq> None \<Longrightarrow> \<exists>e. reg_add a t = Inl e"
    and remove_spec: "reg_inv t \<Longrightarrow>
          fst (reg_remove p t) = reg_get t p \<and> reg_inv (snd (reg_remove p t))
          \<and> reg_get (snd (reg_remove p t)) = (reg_get t)(p := None)"
begin

text \<open>Register, look up, remove, look up: the round trip of a PID.\<close>

lemma add_get_remove:
  assumes "reg_inv t" and "reg_get t (reg_key a) = None"
  shows "\<exists>t'. reg_add a t = Inr t' \<and> reg_get t' (reg_key a) = Some a
            \<and> reg_get (snd (reg_remove (reg_key a) t')) = reg_get t"
proof -
  from add_fresh [OF assms] obtain t' where t':
    "reg_add a t = Inr t'" "reg_inv t'" "reg_get t' = (reg_get t)(reg_key a \<mapsto> a)"
    by blast
  with remove_spec [of t' "reg_key a"] assms(2) show ?thesis
    by (auto simp: fun_eq_iff)
qed

text \<open>Once registered, a PID stays taken until it is removed.\<close>

lemma add_twice_refused:
  assumes "reg_inv t" and "reg_add a t = Inr t'" and "reg_key b = reg_key a"
  shows "\<exists>e. reg_add b t' = Inl e"
proof -
  have "reg_get t (reg_key a) = None"
    using add_taken [OF assms(1), of a] assms(2) by fastforce
  from add_fresh [OF assms(1) this] assms(2)
  have "reg_inv t'" "reg_get t' (reg_key b) \<noteq> None"
    using assms(3) by auto
  then show ?thesis by (rule add_taken)
qed

end

section \<open>Lemmas\<close>

lemma table_getD: "table_get t p = Some a \<Longrightarrow> pt_objs t p = Some a \<and> p \<in> set (pt_keys t)"
  by (simp add: table_get_def split: if_splits)

lemma table_inv_pid: "table_inv t \<Longrightarrow> pt_objs t p = Some a \<Longrightarrow> acb_pid a = p"
  by (simp add: table_inv_def)

lemma table_get_None: "table_inv t \<Longrightarrow> table_get t p = None \<longleftrightarrow> p \<notin> set (pt_keys t)"
  by (auto simp: table_get_def table_inv_def)

lemma table_inv_init [simp]: "table_inv table_init"
  by (simp add: table_inv_def table_init_def)

lemma table_inv_add [inv_intros]: "table_inv t \<Longrightarrow> table_add a t = Inr t' \<Longrightarrow> table_inv t'"
  by (auto simp: table_inv_def table_add_def split: if_splits)

lemma table_inv_remove [inv_intros]: "table_inv t \<Longrightarrow> table_inv (snd (table_remove p t))"
  by (auto simp: table_inv_def table_remove_def distinct_removeAll)

lemma table_inv_write [inv_intros]:
  "table_inv t \<Longrightarrow> acb_pid a = p \<Longrightarrow> table_inv (obj_write p a t)"
  by (auto simp: table_inv_def obj_write_def)

lemma table_inv_update [inv_intros]:
  assumes "table_inv t" and "\<And>a. acb_pid (f a) = acb_pid a"
  shows "table_inv (obj_update p f t)"
  using assms by (auto simp: obj_update_def table_inv_pid split: option.splits intro: table_inv_write)

lemma obj_write_frame [simp]:
  "pt_keys (obj_write p a t) = pt_keys t"
  "pt_objs (obj_write p a t) q = (if q = p then Some a else pt_objs t q)"
  by (simp_all add: obj_write_def)

lemma obj_update_keys [simp]: "pt_keys (obj_update p f t) = pt_keys t"
  by (simp add: obj_update_def split: option.splits)

lemma obj_update_objs:
  "pt_objs (obj_update p f t) q = (if q = p then map_option f (pt_objs t p) else pt_objs t q)"
  by (simp add: obj_update_def split: option.splits)

lemma table_get_add_fresh:
  "table_inv t \<Longrightarrow> table_get t (acb_pid a) = None \<Longrightarrow>
     \<exists>t'. table_add a t = Inr t' \<and> table_inv t' \<and> table_get t' = (table_get t)(acb_pid a \<mapsto> a)"
  by (auto simp: table_get_None table_add_def table_inv_def table_get_def fun_eq_iff)

interpretation pt: registry table_inv table_init table_get table_add table_remove acb_pid
proof unfold_locales
  fix t p and a :: agent
  show "table_inv t \<Longrightarrow> table_get t (acb_pid a) = None \<Longrightarrow>
    \<exists>t'. table_add a t = Inr t' \<and> table_inv t' \<and> table_get t' = (table_get t)(acb_pid a \<mapsto> a)"
    by (rule table_get_add_fresh)
  show "table_inv t \<Longrightarrow> table_get t (acb_pid a) \<noteq> None \<Longrightarrow> \<exists>e. table_add a t = Inl e"
    by (auto simp: table_get_None table_add_def)
  show "table_inv t \<Longrightarrow>
    fst (table_remove p t) = table_get t p \<and> table_inv (snd (table_remove p t)) \<and>
    table_get (snd (table_remove p t)) = (table_get t)(p := None)"
    using table_inv_remove [of t p] by (auto simp: table_remove_def table_get_def fun_eq_iff)
qed (simp_all add: table_get_def table_init_def table_inv_def)

lemma fold_remove_keys:
  "pt_keys (fold (\<lambda>p u. snd (table_remove p u)) ps t) = filter (\<lambda>q. q \<notin> set ps) (pt_keys t)
   \<and> pt_objs (fold (\<lambda>p u. snd (table_remove p u)) ps t) = pt_objs t"
proof (induction ps arbitrary: t)
  case (Cons p ps)
  then show ?case
    by (auto simp: table_remove_def removeAll_filter_not_eq intro: filter_cong)
qed simp

lemma set_objs_of: "set (objs_of t ps) = {a. \<exists>p \<in> set ps. pt_objs t p = Some a}"
  by (force simp: objs_of_def List.map_filter_def)

lemma objs_of_pids:
  assumes "table_inv t" and "set ps \<subseteq> set (pt_keys t)"
  shows "map acb_pid (objs_of t ps) = ps"
  using assms(2)
proof (induction ps)
  case Nil
  then show ?case by (simp add: objs_of_def List.map_filter_def)
next
  case (Cons p ps)
  from Cons.prems assms(1) obtain a where "pt_objs t p = Some a"
    by (auto simp: table_inv_def)
  with assms(1) have "acb_pid a = p" by (rule table_inv_pid)
  with \<open>pt_objs t p = Some a\<close> Cons show ?case
    by (simp add: objs_of_def List.map_filter_def)
qed

section \<open>Properties\<close>

text \<open>
  The process table is a faithful registry: registering a PCB with a fresh PID makes
  exactly that PCB visible under its PID, a second registration of the same PID raises
  (\<open>ValueError\<close>) whatever the PCB, and removing the PID restores every other lookup.
\<close>

theorem table_registration_round_trip:
  assumes "table_inv t" and "table_get t (acb_pid a) = None"
  shows "\<exists>t'. table_add a t = Inr t' \<and> table_get t' (acb_pid a) = Some a
            \<and> table_get (snd (table_remove (acb_pid a) t')) = table_get t
            \<and> (\<forall>b. acb_pid b = acb_pid a \<longrightarrow> (\<exists>e. table_add b t' = Inl e))"
proof -
  from pt.add_get_remove [OF assms] obtain t' where t':
    "table_add a t = Inr t'" "table_get t' (acb_pid a) = Some a"
    "table_get (snd (table_remove (acb_pid a) t')) = table_get t"
    by blast
  from pt.add_twice_refused [OF assms(1) t'(1)] t' show ?thesis by blast
qed

theorem table_registration_round_trip_witness:
  "table_inv table_init \<and> table_get table_init (acb_pid (new_agent 4 ''a'' ''x'' 0)) = None
   \<and> (\<exists>t'. table_add (new_agent 4 ''a'' ''x'' 0) table_init = Inr t'
          \<and> table_get t' (acb_pid (new_agent 4 ''a'' ''x'' 0)) = Some (new_agent 4 ''a'' ''x'' 0))"
  using table_registration_round_trip [of table_init "new_agent 4 ''a'' ''x'' 0"]
  by (auto simp: pt.get_empty)

text \<open>
  \<open>snapshot\<close> lists every registered PCB once, by ascending PID, and
  \<open>clear_terminal\<close> drops exactly the terminal entries: it reports their number, every
  live entry is still found, and no terminal PCB remains.
\<close>

theorem snapshot_and_clear_terminal:
  assumes "table_inv t"
  shows "map acb_pid (table_snapshot t) = sort (pt_keys t) \<and> distinct (map acb_pid (table_snapshot t))
   \<and> fst (table_clear_terminal t) + table_len (snd (table_clear_terminal t)) = table_len t
   \<and> (\<forall>p. table_get (snd (table_clear_terminal t)) p
        = (case table_get t p of None \<Rightarrow> None | Some a \<Rightarrow> if is_terminal a then None else Some a))"
proof -
  let ?dead = "\<lambda>p. case pt_objs t p of None \<Rightarrow> False | Some a \<Rightarrow> is_terminal a"
  have keys: "pt_keys (snd (table_clear_terminal t)) = filter (\<lambda>p. \<not> ?dead p) (pt_keys t)"
    by (auto simp: table_clear_terminal_def fold_remove_keys dead_keys_def intro: filter_cong)
  have objs: "pt_objs (snd (table_clear_terminal t)) = pt_objs t"
    by (simp add: table_clear_terminal_def fold_remove_keys)
  have snap: "map acb_pid (table_snapshot t) = sort (pt_keys t)"
    unfolding table_snapshot_def using assms by (rule objs_of_pids) simp
  have count: "fst (table_clear_terminal t) + table_len (snd (table_clear_terminal t)) = table_len t"
    using sum_length_filter_compl [of ?dead "pt_keys t"]
    by (simp add: table_len_def keys) (simp add: table_clear_terminal_def dead_keys_def)
  show ?thesis
    using snap count assms
    by (auto simp: table_inv_def table_get_def keys objs split: option.splits)
qed

theorem snapshot_and_clear_terminal_witness:
  "table_inv \<lparr>pt_objs = (\<lambda>_. None)(2 \<mapsto> new_agent 2 ''b'' ''x'' 0,
        1 \<mapsto> move 1 ZOMBIE (new_agent 1 ''a'' ''x'' 0)), pt_keys = [2, 1]\<rparr>
   \<and> map acb_pid (table_snapshot \<lparr>pt_objs = (\<lambda>_. None)(2 \<mapsto> new_agent 2 ''b'' ''x'' 0,
        1 \<mapsto> move 1 ZOMBIE (new_agent 1 ''a'' ''x'' 0)), pt_keys = [2, 1]\<rparr>) = [1, 2]"
proof -
  let ?t = "\<lparr>pt_objs = (\<lambda>_. None)(2 \<mapsto> new_agent 2 ''b'' ''x'' 0,
        1 \<mapsto> move 1 ZOMBIE (new_agent 1 ''a'' ''x'' 0)), pt_keys = [2, 1::int]\<rparr>"
  have inv: "table_inv ?t"
    by (auto simp: table_inv_def new_agent_def)
  from snapshot_and_clear_terminal [OF inv] inv show ?thesis by simp
qed

end
