(* ===== verification/Ready_Queue.thy ===== *)
theory Ready_Queue
  imports Process_Table
begin

text \<open>
  The ready queue (\<open>gcos/kernel/ready_queue.py\<close>): the queued PCBs, named by their PIDs,
  and the number of PCBs in flight (dequeued and not yet marked done). Each method runs under
  the queue's one lock, so a method is one step. The queue also is the source of the
  "system is idle" signal, \<open>is_drained\<close>.
\<close>

section \<open>The queue\<close>

record ready_queue =
  rq_q :: "pid list"
  rq_in_flight :: int

definition rq_init :: ready_queue where
  "rq_init = \<lparr>rq_q = [], rq_in_flight = 0\<rparr>"

text \<open>
  \<open>put(pcb)\<close> on the PCB object named by \<open>p\<close>, as an operation on the store and the
  queue. \<open>None\<close> in the store never happens for a PID that was handed out.
\<close>

definition rq_put :: "time \<Rightarrow> pid \<Rightarrow> ptable \<times> ready_queue \<Rightarrow> bool \<times> ptable \<times> ready_queue" where
  "rq_put now p tq =
     (case pt_objs (fst tq) p of
        None \<Rightarrow> (False, tq)
      | Some a \<Rightarrow>
          (if is_terminal a then (False, tq)
           else (True, obj_write p (move now READY a) (fst tq),
                 (snd tq)\<lparr>rq_q := rq_q (snd tq) @ [p]\<rparr>)))"

definition rq_popleft :: "ready_queue \<Rightarrow> pid option \<times> ready_queue" where
  "rq_popleft q =
     (case rq_q q of
        [] \<Rightarrow> (None, q)
      | p # ps \<Rightarrow> (Some p, q\<lparr>rq_q := ps, rq_in_flight := rq_in_flight q + 1\<rparr>))"

definition rq_pop_best :: "(pid \<Rightarrow> 'k::linorder) \<Rightarrow> ready_queue \<Rightarrow> pid option \<times> ready_queue" where
  "rq_pop_best key q =
     (case rq_q q of
        [] \<Rightarrow> (None, q)
      | p # ps \<Rightarrow>
          (let best = max_key key p ps
           in (Some best, q\<lparr>rq_q := remove1 best (p # ps), rq_in_flight := rq_in_flight q + 1\<rparr>)))"

definition rq_pop :: "pid \<Rightarrow> ready_queue \<Rightarrow> bool \<times> ready_queue" where
  "rq_pop p q = (if p \<in> set (rq_q q) then (True, q\<lparr>rq_q := remove1 p (rq_q q)\<rparr>) else (False, q))"

definition rq_task_done :: "ready_queue \<Rightarrow> ready_queue" where
  "rq_task_done q =
     (if 0 < rq_in_flight q then q\<lparr>rq_in_flight := rq_in_flight q - 1\<rparr> else q)"

definition rq_is_drained :: "ready_queue \<Rightarrow> bool" where
  "rq_is_drained q = (rq_q q = [] \<and> rq_in_flight q = 0)"

definition rq_snapshot :: "ready_queue \<Rightarrow> pid list" where
  "rq_snapshot q = rq_q q"

definition rq_len :: "ready_queue \<Rightarrow> nat" where
  "rq_len q = length (rq_q q)"

text \<open>
  \<open>wait_nonempty\<close>: \<open>notified\<close> is whether the condition variable was signalled before
  the timeout. \<open>wait_drained\<close>: the queue states its predicate sees, the first on entry
  and one for each wake-up until the timeout.
\<close>

definition rq_wait_nonempty :: "bool \<Rightarrow> ready_queue \<Rightarrow> bool" where
  "rq_wait_nonempty notified q = (if rq_q q \<noteq> [] then True else notified)"

fun rq_wait_drained :: "ready_queue list \<Rightarrow> bool" where
  "rq_wait_drained [] = False"
| "rq_wait_drained (q # qs) = (if rq_is_drained q then True else rq_wait_drained qs)"

section \<open>Histories of calls\<close>

text \<open>
  A call by some thread. \<open>CPopBest\<close> carries the ranking in force at that moment as a
  list of keys.
\<close>

datatype rq_call =
    CPut time pid
  | CPopleft
  | CPopBest "(pid \<times> real \<times> real) list"
  | CPop pid
  | CTaskDone

definition ranking :: "(pid \<times> real \<times> real) list \<Rightarrow> pid \<Rightarrow> real \<times> real" where
  "ranking ks p = (case map_of ks p of None \<Rightarrow> (0, 0) | Some k \<Rightarrow> k)"

text \<open>The tallies of a history: accepted puts, dispatching pops, kills from the queue, dones.\<close>

record rq_tally =
  ty_put :: nat
  ty_popped :: nat
  ty_killed :: nat
  ty_done :: nat

fun rq_call_step :: "rq_call \<Rightarrow> ptable \<times> ready_queue \<times> rq_tally \<Rightarrow> ptable \<times> ready_queue \<times> rq_tally"
  where
  "rq_call_step (CPut now p) (t, q, y) =
     (let (ok, t', q') = rq_put now p (t, q)
      in (t', q', if ok then y\<lparr>ty_put := Suc (ty_put y)\<rparr> else y))"
| "rq_call_step CPopleft (t, q, y) =
     (let (r, q') = rq_popleft q
      in (t, q', if r \<noteq> None then y\<lparr>ty_popped := Suc (ty_popped y)\<rparr> else y))"
| "rq_call_step (CPopBest ks) (t, q, y) =
     (let (r, q') = rq_pop_best (ranking ks) q
      in (t, q', if r \<noteq> None then y\<lparr>ty_popped := Suc (ty_popped y)\<rparr> else y))"
| "rq_call_step (CPop p) (t, q, y) =
     (let (ok, q') = rq_pop p q
      in (t, q', if ok then y\<lparr>ty_killed := Suc (ty_killed y)\<rparr> else y))"
| "rq_call_step CTaskDone (t, q, y) = (t, rq_task_done q, y\<lparr>ty_done := Suc (ty_done y)\<rparr>)"

text \<open>A history in which no \<open>task_done\<close> comes without a pop to pair with.\<close>

fun rq_run :: "rq_call list \<Rightarrow> ptable \<times> ready_queue \<times> rq_tally \<Rightarrow> (ptable \<times> ready_queue \<times> rq_tally) option"
  where
  "rq_run [] s = Some s"
| "rq_run (c # cs) s =
     (let s' = rq_call_step c s; y' = snd (snd s')
      in if ty_done y' \<le> ty_popped y' then rq_run cs s' else None)"

definition rq_accounts :: "ready_queue \<Rightarrow> rq_tally \<Rightarrow> bool" where
  "rq_accounts q y \<longleftrightarrow>
     ty_done y \<le> ty_popped y \<and> rq_in_flight q = int (ty_popped y) - int (ty_done y)
     \<and> ty_put y = length (rq_q q) + ty_popped y + ty_killed y"

section \<open>Lemmas\<close>

lemma rq_popleft_cases:
  obtains "rq_q q = []" and "rq_popleft q = (None, q)"
  | p ps where "rq_q q = p # ps"
      and "rq_popleft q = (Some p, q\<lparr>rq_q := ps, rq_in_flight := rq_in_flight q + 1\<rparr>)"
  by (cases "rq_q q") (auto simp: rq_popleft_def)

lemma rq_pop_best_cases:
  obtains "rq_q q = []" and "rq_pop_best key q = (None, q)"
  | p where "p \<in> set (rq_q q)" and "\<forall>r \<in> set (rq_q q). key r \<le> key p"
      and "rq_pop_best key q =
             (Some p, q\<lparr>rq_q := remove1 p (rq_q q), rq_in_flight := rq_in_flight q + 1\<rparr>)"
proof (cases "rq_q q")
  case Nil
  then show ?thesis using that(1) by (simp add: rq_pop_best_def)
next
  case (Cons p ps)
  then show ?thesis
    using that(2) [of "max_key key p ps"] max_key_mem [of key p ps]
      max_key_ge [of _ p ps key]
    by (simp add: rq_pop_best_def Let_def)
qed

lemma rq_accounts_step:
  assumes "rq_accounts q y" and "rq_call_step c (t, q, y) = (t', q', y')"
    and "ty_done y' \<le> ty_popped y'"
  shows "rq_accounts q' y'"
proof (cases c)
  case (CPut now p)
  with assms show ?thesis
    by (auto simp: rq_accounts_def rq_put_def split: option.splits if_splits)
next
  case CPopleft
  with assms show ?thesis
    by (cases rule: rq_popleft_cases [of q]) (auto simp: rq_accounts_def)
next
  case (CPopBest ks)
  with assms show ?thesis
    by (cases rule: rq_pop_best_cases [of q "ranking ks"])
       (auto simp: rq_accounts_def dest: length_remove1_mem)
next
  case (CPop p)
  with assms show ?thesis
    by (auto simp: rq_accounts_def rq_pop_def dest: length_remove1_mem split: if_splits)
next
  case CTaskDone
  with assms show ?thesis
    by (auto simp: rq_accounts_def rq_task_done_def)
qed

lemma rq_accounts_run:
  "rq_run cs (t, q, y) = Some (t', q', y') \<Longrightarrow> rq_accounts q y \<Longrightarrow> rq_accounts q' y'"
proof (induction cs arbitrary: t q y)
  case (Cons c cs)
  obtain t1 q1 y1 where step: "rq_call_step c (t, q, y) = (t1, q1, y1)"
    by (metis surj_pair)
  from Cons.prems(1) step have le: "ty_done y1 \<le> ty_popped y1"
    and run: "rq_run cs (t1, q1, y1) = Some (t', q', y')"
    by (auto simp: Let_def split: if_splits)
  from run rq_accounts_step [OF Cons.prems(2) step le] show ?case
    by (rule Cons.IH)
qed simp

lemma rq_put_result:
  assumes "pt_objs t p = Some a"
  shows "fst (rq_put now p (t, q)) \<longleftrightarrow> \<not> is_terminal a"
    and "is_terminal a \<Longrightarrow> snd (rq_put now p (t, q)) = (t, q)"
    and "\<not> is_terminal a \<Longrightarrow> snd (rq_put now p (t, q))
          = (obj_write p (move now READY a) t, q\<lparr>rq_q := rq_q q @ [p]\<rparr>)"
  using assms by (auto simp: rq_put_def)

lemma rq_wait_drained_iff: "rq_wait_drained qs \<longleftrightarrow> (\<exists>q \<in> set qs. rq_is_drained q)"
  by (induction qs) auto

section \<open>Properties\<close>

text \<open>
  In-flight accounting. In every interleaving of calls in which each call of
  \<open>task_done\<close> pairs with an earlier successful pop, the in-flight counter is the number of dispatched PCBs not yet
  marked done, every accepted PCB is queued, dispatched or was pulled out by a kill, and
  \<open>is_drained\<close> answers true exactly when every accepted PCB was killed or fully handled.
\<close>

theorem in_flight_accounting:
  assumes "rq_run cs (t, rq_init, \<lparr>ty_put = 0, ty_popped = 0, ty_killed = 0, ty_done = 0\<rparr>)
             = Some (t', q, y)"
  shows "rq_in_flight q = int (ty_popped y) - int (ty_done y) \<and> 0 \<le> rq_in_flight q
    \<and> ty_put y = rq_len q + ty_popped y + ty_killed y
    \<and> (rq_is_drained q \<longleftrightarrow> ty_put y = ty_done y + ty_killed y)"
proof -
  have "rq_accounts q y"
    by (rule rq_accounts_run [OF assms]) (simp add: rq_accounts_def rq_init_def)
  then show ?thesis
    unfolding rq_accounts_def rq_is_drained_def rq_len_def length_0_conv [symmetric] by linarith
qed

theorem in_flight_accounting_witness:
  "\<exists>t' q y. rq_run [CPut 1 7, CPut 2 8, CPopBest [(7, 0, 0), (8, 5, 0)], CTaskDone]
      (\<lparr>pt_objs = [7 \<mapsto> new_agent 7 ''a'' ''x'' 0, 8 \<mapsto> new_agent 8 ''b'' ''x'' 0], pt_keys = [7, 8]\<rparr>,
       rq_init, \<lparr>ty_put = 0, ty_popped = 0, ty_killed = 0, ty_done = 0\<rparr>) = Some (t', q, y)
    \<and> rq_in_flight q = int (ty_popped y) - int (ty_done y) \<and> rq_q q = [7]"
proof -
  let ?s = "(\<lparr>pt_objs = [7 \<mapsto> new_agent 7 ''a'' ''x'' 0, 8 \<mapsto> new_agent 8 ''b'' ''x'' 0], pt_keys = [7, 8]\<rparr>,
       rq_init, \<lparr>ty_put = 0, ty_popped = 0, ty_killed = 0, ty_done = 0\<rparr>)"
  obtain t' q y where run:
    "rq_run [CPut 1 7, CPut 2 8, CPopBest [(7, 0, 0), (8, 5, 0)], CTaskDone] ?s = Some (t', q, y)"
    and "rq_q q = [7]"
    by (simp add: rq_put_def rq_init_def rq_pop_best_def rq_task_done_def ranking_def Let_def)
  with in_flight_accounting [OF run] show ?thesis by blast
qed

end
