(* ===== verification/Scheduler.thy ===== *)
theory Scheduler
  imports Ready_Queue
begin

text \<open>
  The three schedulers (\<open>gcos/kernel/scheduler.py\<close>): which queued agent runs next
  (\<open>pick_next\<close>) and how many steps it may run before it yields (\<open>quantum\<close>). The
  contract \<open>dispatcher\<close> states what the worker pool relies on for every scheduler: a pick
  removes exactly the agent it returns and counts it as in flight.
\<close>

section \<open>The schedulers\<close>

text \<open>\<open>Priority aging_rate_per_s aging_max_bonus\<close> and \<open>RoundRobin quantum\<close>.\<close>

datatype scheduler = FCFS | Priority real real | RoundRobin int

fun sched_name :: "scheduler \<Rightarrow> string" where
  "sched_name FCFS = ''fcfs''"
| "sched_name (Priority r m) = ''priority''"
| "sched_name (RoundRobin q) = ''rr''"

text \<open>\<open>None\<close> means run to completion.\<close>

fun quantum :: "scheduler \<Rightarrow> int option" where
  "quantum FCFS = None"
| "quantum (Priority r m) = Some 1"
| "quantum (RoundRobin q) = Some q"

definition round_robin_init :: "int \<Rightarrow> py_exc + scheduler" where
  "round_robin_init q =
     (if q < 1 then Inl (OtherExc ''ValueError'' ''quantum must be >= 1'') else Inr (RoundRobin q))"

definition effective_priority :: "real \<Rightarrow> real \<Rightarrow> time \<Rightarrow> agent \<Rightarrow> real" where
  "effective_priority rate bonus now a =
     (if rate \<le> 0 then of_int (acb_priority a)
      else
        let waited = max 0 (now - acb_created_at a)
        in of_int (acb_priority a) + min bonus (waited * rate))"

text \<open>The sort key of the priority scheduler; the queue holds references into the store.\<close>

definition priority_key :: "real \<Rightarrow> real \<Rightarrow> time \<Rightarrow> ptable \<Rightarrow> pid \<Rightarrow> real \<times> real" where
  "priority_key rate bonus now t p =
     (case pt_objs t p of
        None \<Rightarrow> (0, 0)
      | Some a \<Rightarrow> (effective_priority rate bonus now a, - acb_created_at a))"

fun pick_next :: "scheduler \<Rightarrow> ptable \<Rightarrow> time \<Rightarrow> ready_queue \<Rightarrow> pid option \<times> ready_queue" where
  "pick_next FCFS t now q = rq_popleft q"
| "pick_next (Priority rate bonus) t now q = rq_pop_best (priority_key rate bonus now t) q"
| "pick_next (RoundRobin k) t now q = rq_popleft q"

definition make_scheduler :: "string \<Rightarrow> py_exc + scheduler" where
  "make_scheduler name =
     (if name = ''fcfs'' then Inr FCFS
      else if name = ''priority'' then Inr (Priority (1/10) 8)
      else if name = ''rr'' then round_robin_init 2
      else Inl (OtherExc ''ValueError''
        (''Unknown scheduler '' @ [CHR 0x27] @ name @ [CHR 0x27] @ ''. Choices: ['' @ [CHR 0x27]
         @ ''fcfs'' @ [CHR 0x27] @ '', '' @ [CHR 0x27] @ ''priority'' @ [CHR 0x27] @ '', ''
         @ [CHR 0x27] @ ''rr'' @ [CHR 0x27] @ '']'')))"

text \<open>The loop of the workers' picks: one at each clock reading.\<close>

fun picks :: "(time \<Rightarrow> ready_queue \<Rightarrow> pid option \<times> ready_queue) \<Rightarrow> time list \<Rightarrow> ready_queue
    \<Rightarrow> pid list \<times> ready_queue" where
  "picks pick [] q = ([], q)"
| "picks pick (now # ts) q =
     (let (r, q') = pick now q; (ps, q'') = picks pick ts q'
      in ((case r of None \<Rightarrow> ps | Some p \<Rightarrow> p # ps), q''))"

section \<open>The contract of a dispatcher\<close>

locale dispatcher =
  fixes pick :: "time \<Rightarrow> ready_queue \<Rightarrow> pid option \<times> ready_queue"
  assumes pick_empty: "rq_q q = [] \<Longrightarrow> pick now q = (None, q)"
    and pick_nonempty: "rq_q q \<noteq> [] \<Longrightarrow>
          \<exists>p. p \<in> set (rq_q q) \<and> pick now q =
            (Some p, q\<lparr>rq_q := remove1 p (rq_q q), rq_in_flight := rq_in_flight q + 1\<rparr>)"
begin

text \<open>What was picked and what is left make up the queue, and each pick is in flight.\<close>

lemma picks_conserve:
  "mset (fst (picks pick ts q)) + mset (rq_q (snd (picks pick ts q))) = mset (rq_q q)
   \<and> rq_in_flight (snd (picks pick ts q)) = rq_in_flight q + int (length (fst (picks pick ts q)))
   \<and> length (fst (picks pick ts q)) = min (length ts) (length (rq_q q))"
proof (induction ts arbitrary: q)
  case (Cons now ts)
  show ?case
  proof (cases "rq_q q = []")
    case True
    then show ?thesis
      using Cons.IH [of q] by (simp add: pick_empty split: prod.splits)
  next
    case False
    from pick_nonempty [OF this] obtain p where p: "p \<in> set (rq_q q)" and
      eq: "pick now q = (Some p, q\<lparr>rq_q := remove1 p (rq_q q), rq_in_flight := rq_in_flight q + 1\<rparr>)"
      by blast
    let ?q' = "q\<lparr>rq_q := remove1 p (rq_q q), rq_in_flight := rq_in_flight q + 1\<rparr>"
    have "add_mset p (mset (remove1 p (rq_q q))) = mset (rq_q q)"
      using p by simp
    moreover have "length (rq_q q) = Suc (length (remove1 p (rq_q q)))"
      using p by (rule length_remove1_mem)
    ultimately show ?thesis
      using Cons.IH [of ?q'] by (cases "picks pick ts ?q'") (auto simp: eq)
  qed
qed simp

lemma drain_each_once:
  assumes "distinct (rq_q q)" and "length (rq_q q) \<le> length ts"
  shows "distinct (fst (picks pick ts q)) \<and> set (fst (picks pick ts q)) = set (rq_q q)
    \<and> rq_q (snd (picks pick ts q)) = []"
proof -
  note c = picks_conserve [of ts q]
  have "length (fst (picks pick ts q)) + length (rq_q (snd (picks pick ts q))) = length (rq_q q)"
    using c by (metis size_mset size_union)
  then have left: "rq_q (snd (picks pick ts q)) = []"
    using c assms(2) by simp
  then have "mset (fst (picks pick ts q)) = mset (rq_q q)"
    using c by simp
  then show ?thesis
    using left assms(1) by (metis mset_eq_imp_distinct_iff set_mset_mset)
qed

end

section \<open>Lemmas\<close>

lemma pick_next_nonempty:
  assumes "rq_q q \<noteq> []"
  shows "\<exists>p. p \<in> set (rq_q q) \<and> pick_next s t now q =
           (Some p, q\<lparr>rq_q := remove1 p (rq_q q), rq_in_flight := rq_in_flight q + 1\<rparr>)"
proof (cases s)
  case (Priority r m)
  with assms show ?thesis
    by (cases rule: rq_pop_best_cases [of q "priority_key r m now t"]) auto
qed (use assms in \<open>cases rule: rq_popleft_cases [of q]; auto\<close>)+

lemma pick_next_empty: "rq_q q = [] \<Longrightarrow> pick_next s t now q = (None, q)"
  by (cases s) (simp_all add: rq_popleft_def rq_pop_best_def)

interpretation disp: dispatcher "pick_next s t" for s t
  by unfold_locales (simp_all add: pick_next_empty pick_next_nonempty)

lemma effective_priority_bounds:
  "0 \<le> bonus \<Longrightarrow> of_int (acb_priority a) \<le> effective_priority rate bonus now a
   \<and> effective_priority rate bonus now a \<le> of_int (acb_priority a) + bonus"
  by (auto simp: effective_priority_def Let_def min_def max_def)

lemma effective_priority_full:
  assumes "0 < rate" and "0 \<le> bonus" and "bonus / rate \<le> now - acb_created_at a"
  shows "effective_priority rate bonus now a = of_int (acb_priority a) + bonus"
proof -
  have "bonus \<le> (now - acb_created_at a) * rate"
    using assms by (simp add: pos_divide_le_eq)
  moreover have "0 \<le> now - acb_created_at a"
    using assms by (smt (verit) divide_nonneg_pos)
  ultimately show ?thesis
    using assms by (simp add: effective_priority_def Let_def)
qed

lemma pick_priority_max:
  assumes "pick_next (Priority rate bonus) t now q = (Some p, q')" and "r \<in> set (rq_q q)"
  shows "priority_key rate bonus now t r \<le> priority_key rate bonus now t p"
  using assms by (cases rule: rq_pop_best_cases [of q "priority_key rate bonus now t"]) auto

lemma picks_fifo:
  assumes "\<And>now q. pick_next s t now q = rq_popleft q"
  shows "fst (picks (pick_next s t) ts q) = take (length ts) (rq_q q)"
proof (induction ts arbitrary: q)
  case (Cons now ts)
  show ?case
  proof (cases rule: rq_popleft_cases [of q])
    case 1
    then show ?thesis
      using Cons.IH [of q] by (simp add: assms split: prod.splits)
  next
    case (2 p ps)
    let ?q' = "q\<lparr>rq_q := ps, rq_in_flight := rq_in_flight q + 1\<rparr>"
    obtain xs q'' where xs: "picks (pick_next s t) ts ?q' = (xs, q'')"
      by (metis surj_pair)
    then have "picks (pick_next s t) (now # ts) q = (p # xs, q'')"
      by (simp add: assms [of now q] 2(2))
    with xs Cons.IH [of ?q'] 2(1) show ?thesis by simp
  qed
qed simp

lemma picks_subset: "set (fst (picks (pick_next s t) ts q)) \<subseteq> set (rq_q q)"
proof -
  have "mset (fst (picks (pick_next s t) ts q)) \<subseteq># mset (rq_q q)"
    using disp.picks_conserve [of s t ts q] by (metis mset_subset_eq_add_left)
  from set_mset_mono [OF this] show ?thesis by simp
qed

lemma picks_sorted:
  fixes rate bonus now t
  defines "key \<equiv> priority_key rate bonus now t"
  shows "sorted_wrt (\<lambda>a b. key b \<le> key a)
           (fst (picks (pick_next (Priority rate bonus) t) (replicate n now) q))"
proof (induction n arbitrary: q)
  case (Suc n)
  show ?case
  proof (cases rule: rq_pop_best_cases [of q key])
    case 1
    then show ?thesis
      using Suc.IH [of q] by (simp add: key_def split: prod.splits)
  next
    case (2 p)
    let ?q' = "q\<lparr>rq_q := remove1 p (rq_q q), rq_in_flight := rq_in_flight q + 1\<rparr>"
    let ?ps = "picks (pick_next (Priority rate bonus) t) (replicate n now) ?q'"
    have "set (fst ?ps) \<subseteq> set (rq_q q)"
      using picks_subset [of "Priority rate bonus" t "replicate n now" ?q']
        set_remove1_subset [of p "rq_q q"] by simp
    then have "\<forall>r \<in> set (fst ?ps). key r \<le> key p"
      using 2(2) by auto
    moreover obtain xs q'' where xs: "?ps = (xs, q'')"
      by (metis surj_pair)
    moreover have "picks (pick_next (Priority rate bonus) t) (replicate (Suc n) now) q = (p # xs, q'')"
      using xs 2(3) by (simp only: replicate_Suc picks.simps pick_next.simps key_def) simp
    ultimately show ?thesis
      using Suc.IH [of ?q'] by (simp del: pick_next.simps replicate_Suc picks.simps)
  qed
qed simp

section \<open>Properties\<close>

text \<open>
  C39. Every scheduler dispatches each queued agent exactly once. Whatever the scheduler and
  the clock readings, as many picks as there are queued agents return every one of them, none
  twice, leave the queue empty, and leave that many agents in flight.
\<close>

theorem drain_dispatches_each_once:
  assumes "distinct (rq_q q)" and "length (rq_q q) \<le> length ts"
  shows "distinct (fst (picks (pick_next s t) ts q)) \<and> set (fst (picks (pick_next s t) ts q)) = set (rq_q q)
    \<and> rq_q (snd (picks (pick_next s t) ts q)) = []
    \<and> rq_in_flight (snd (picks (pick_next s t) ts q)) = rq_in_flight q + int (length (rq_q q))"
  using disp.drain_each_once [OF assms, of s t] disp.picks_conserve [of s t ts q] assms(2)
  by simp

theorem drain_dispatches_each_once_witness:
  "set (fst (picks (pick_next (Priority (1/10) 8) table_init) [1, 2, 3] \<lparr>rq_q = [4, 5, 6], rq_in_flight = 0\<rparr>))
     = {4, 5, 6}"
  using drain_dispatches_each_once [of "\<lparr>rq_q = [4, 5, 6], rq_in_flight = 0\<rparr>" "[1, 2, 3]"
      "Priority (1/10) 8" table_init]
  by simp

text \<open>
  Dispatch order. First-come-first-served and round-robin take the agents in queue
  order; the priority scheduler, at one clock reading, takes them by non-increasing effective
  priority and, among equals, oldest first.
\<close>

theorem dispatch_order:
  "fst (picks (pick_next FCFS t) ts q) = take (length ts) (rq_q q)
   \<and> fst (picks (pick_next (RoundRobin k) t) ts q) = take (length ts) (rq_q q)
   \<and> sorted_wrt (\<lambda>a b. priority_key rate bonus now t b \<le> priority_key rate bonus now t a)
       (fst (picks (pick_next (Priority rate bonus) t) (replicate n now) q))"
  using picks_fifo [of FCFS t ts q] picks_fifo [of "RoundRobin k" t ts q]
    picks_sorted [of rate bonus now t n q] by simp

text \<open>
  Aging bounds starvation, as far as it goes. Effective priority never exceeds the base
  priority by more than the bonus cap; an agent that is older than \<open>bonus / rate\<close> has the
  full bonus, so the next pick is that agent or one whose own base priority is at least as high
  up to the bonus: no agent with base priority below \<open>priority - bonus\<close> of the aged
  one, whatever its age, and no newcomer (age at most \<open>d\<close>) whose base priority plus
  \<open>d * rate\<close> is below the aged one's priority plus the cap, is picked before it.
\<close>

theorem aging_bounds_starvation:
  assumes rate: "0 < rate" and bonus: "0 \<le> bonus"
    and a: "pt_objs t p = Some a" "p \<in> set (rq_q q)" "bonus / rate \<le> now - acb_created_at a"
    and b: "pt_objs t r = Some b" "now - acb_created_at b \<le> d" "0 \<le> d"
    and low: "of_int (acb_priority b) + min bonus (d * rate) < of_int (acb_priority a) + bonus"
  shows "fst (pick_next (Priority rate bonus) t now q) \<noteq> Some r"
proof
  assume "fst (pick_next (Priority rate bonus) t now q) = Some r"
  then obtain q' where "pick_next (Priority rate bonus) t now q = (Some r, q')"
    by (metis prod.collapse)
  from pick_priority_max [OF this a(2)]
  have "effective_priority rate bonus now a \<le> effective_priority rate bonus now b"
    using a(1) b(1) by (auto simp: priority_key_def)
  moreover have "min bonus (max 0 (now - acb_created_at b) * rate) \<le> min bonus (d * rate)"
    using b rate by (intro min.mono mult_right_mono) auto
  then have "effective_priority rate bonus now b \<le> of_int (acb_priority b) + min bonus (d * rate)"
    using rate by (simp only: effective_priority_def Let_def) simp
  ultimately show False
    using low effective_priority_full [OF rate bonus a(3)] by simp
qed

theorem aging_bounds_starvation_witness:
  "fst (pick_next (Priority (1/10) 8)
      \<lparr>pt_objs = [1 \<mapsto> (new_agent 1 ''old'' ''x'' 0)\<lparr>acb_priority := 0\<rparr>,
                  2 \<mapsto> (new_agent 2 ''new'' ''x'' 95)\<lparr>acb_priority := 7\<rparr>], pt_keys = [1, 2]\<rparr>
      100 \<lparr>rq_q = [2, 1], rq_in_flight = 0\<rparr>) \<noteq> Some 2"
  by (rule aging_bounds_starvation [of "1/10" 8 _ 1 "(new_agent 1 ''old'' ''x'' 0)\<lparr>acb_priority := 0\<rparr>"
        _ 100 2 "(new_agent 2 ''new'' ''x'' 95)\<lparr>acb_priority := 7\<rparr>" 5])
     (simp_all add: new_agent_def)

end
