(* ===== verification/Worker_Pool.thy ===== *)
theory Worker_Pool
  imports Run_Agent Message_Bus Scheduler
begin

text \<open>
  The worker pool (\<open>gcos/kernel/worker_pool.py\<close>): threads that take agents off the ready
  queue, run their steps against the global quota, forward results and put unfinished agents
  back. The pool is modelled at the granularity of the code's locks: a worker is at a program
  point of \<open>_loop\<close>, \<open>_dispatch\<close>, \<open>_repark_waiting\<close> or \<open>_run_one_step\<close>, and
  one step takes it to the next, so that every interleaving of several workers with each
  other and with the kernel's own calls (spawn, kill, reap, topup, shutdown) is covered. A step
  of an agent is one point of the interleaving; a kill that arrives while its request is in
  flight is part of the step's environment.
\<close>

section \<open>Shared state\<close>

text \<open>
  What the threads share. \<open>sy_spawning\<close> names the agents that \<open>Kernel.spawn\<close> has
  registered and not yet queued.
\<close>

record sys =
  sy_table :: ptable
  sy_queue :: ready_queue
  sy_bus :: message_bus
  sy_world :: world
  sy_stop :: bool
  sy_busy :: int
  sy_spawning :: "pid list"

text \<open>
  The attributes of the pool that its code reads. The three wait times only bound how long a
  call blocks, and a call that blocks returns at any later moment of the interleaving.
\<close>

record worker_pool =
  wp_scheduler :: scheduler
  wp_bus :: bool
  wp_input_deadline_s :: "real option"

type_synonym step_fun = "env \<Rightarrow> step_state \<Rightarrow> step_state \<times> (py_exc + bool)"

definition nonpreemptive_step_cap :: nat where
  "nonpreemptive_step_cap = 10000"

text \<open>The program points. Every point from \<open>Picked\<close> on holds a dequeued agent.\<close>

datatype wpc =
    Idle                          \<comment> \<open>top of \<open>_loop\<close>\<close>
  | Picked pid                    \<comment> \<open>entering \<open>_dispatch\<close>\<close>
  | Receiving pid                 \<comment> \<open>before \<open>bus.recv\<close>\<close>
  | Reparking pid                 \<comment> \<open>in \<open>_repark_waiting\<close>\<close>
  | Loop pid nat bool             \<comment> \<open>top of the quantum loop: rounds left, \<open>keep_going\<close>\<close>
  | Short pid nat                 \<comment> \<open>\<open>quota.acquire\<close> failed\<close>
  | Blocked pid nat               \<comment> \<open>in \<open>acquire_blocking\<close>\<close>
  | Woken pid nat bool            \<comment> \<open>\<open>acquire_blocking\<close> returned \<open>got\<close>\<close>
  | Holding pid nat               \<comment> \<open>one unit is held\<close>
  | Calling pid nat               \<comment> \<open>busy, about to call the step runner\<close>
  | Called pid nat bool bool      \<comment> \<open>it returned: was a request made, \<open>keep_going\<close>\<close>
  | After pid bool                \<comment> \<open>after the loop: forward the result\<close>
  | Yielding pid bool             \<comment> \<open>re-queue if there is more work\<close>
  | Requeue pid                   \<comment> \<open>re-queue and leave \<open>_dispatch\<close>\<close>
  | Finishing                     \<comment> \<open>\<open>finally: task_done\<close>\<close>
  | Exited

section \<open>Operations on the shared state\<close>

definition agent_at :: "sys \<Rightarrow> pid \<Rightarrow> agent option" where
  "agent_at s p = pt_objs (sy_table s) p"

definition sys_write :: "pid \<Rightarrow> step_state \<Rightarrow> sys \<Rightarrow> sys" where
  "sys_write p st s = s\<lparr>sy_table := obj_write p (fst st) (sy_table s), sy_world := snd st\<rparr>"

text \<open>A change of one agent and the world.\<close>

definition on_agent :: "pid \<Rightarrow> (step_state \<Rightarrow> step_state) \<Rightarrow> sys \<Rightarrow> sys" where
  "on_agent p f s =
     (case agent_at s p of None \<Rightarrow> s | Some a \<Rightarrow> sys_write p (f (a, sy_world s)) s)"

definition queue_put :: "pid \<Rightarrow> sys \<Rightarrow> sys" where
  "queue_put p s =
     (let (ok, t, q) = rq_put (now_of (sy_world s)) p (sy_table s, sy_queue s)
      in s\<lparr>sy_table := t, sy_queue := q, sy_world := tick (sy_world s)\<rparr>)"

definition on_quota :: "quota \<Rightarrow> sys \<Rightarrow> sys" where
  "on_quota q s = s\<lparr>sy_world := (sy_world s)\<lparr>w_quota := q\<rparr>\<rparr>"

definition quota_of :: "sys \<Rightarrow> quota" where
  "quota_of s = w_quota (sy_world s)"

section \<open>The code of a worker\<close>

text \<open>\<open>_loop\<close>: \<open>notified\<close> is whether a put woke the wait on an empty queue.\<close>

definition loop_top :: "worker_pool \<Rightarrow> bool \<Rightarrow> sys \<Rightarrow> wpc \<times> sys" where
  "loop_top wp notified s =
     (if sy_stop s then (Exited, s)
      else if \<not> rq_wait_nonempty notified (sy_queue s) then (Idle, s)
      else
        let (r, q) = pick_next (wp_scheduler wp) (sy_table s) (now_of (sy_world s)) (sy_queue s);
            s' = s\<lparr>sy_queue := q, sy_world := tick (sy_world s)\<rparr>
        in (case r of None \<Rightarrow> (Idle, s') | Some p \<Rightarrow> (Picked p, s')))"

definition round_limit :: "worker_pool \<Rightarrow> nat" where
  "round_limit wp =
     (case quantum (wp_scheduler wp) of
        None \<Rightarrow> nonpreemptive_step_cap | Some k \<Rightarrow> nat (max 1 k))"

definition needs_input :: "agent \<Rightarrow> bool" where
  "needs_input a = (acb_input_from a \<noteq> None \<and> contains_sub input_marker (acb_prompt a))"

definition no_bus_error :: string where
  "no_bus_error = ''input_from set but kernel has no message bus''"

definition dispatch_enter :: "worker_pool \<Rightarrow> pid \<Rightarrow> sys \<Rightarrow> wpc \<times> sys" where
  "dispatch_enter wp p s =
     (case agent_at s p of
        None \<Rightarrow> (Finishing, s)
      | Some a \<Rightarrow>
          if is_terminal a then (Finishing, s)
          else if \<not> needs_input a then (Loop p (round_limit wp) False, s)
          else if \<not> wp_bus wp then (Finishing, on_agent p (do_fail ERROR no_bus_error) s)
          else (Receiving p, s))"

definition take_input :: "payload \<Rightarrow> step_state \<Rightarrow> step_state" where
  "take_input m st =
     ((fst st)\<lparr>acb_prompt := resolve_input_placeholder (acb_prompt (fst st)) (Some m),
               acb_waiting_since := None\<rparr>, snd st)"

definition receive_input :: "worker_pool \<Rightarrow> pid \<Rightarrow> sys \<Rightarrow> wpc \<times> sys" where
  "receive_input wp p s =
     (let (r, b) = bus_recv p None (sy_bus s); s' = s\<lparr>sy_bus := b\<rparr>
      in case r of
           None \<Rightarrow> (Reparking p, s')
         | Some m \<Rightarrow> (Loop p (round_limit wp) False, on_agent p (take_input m) s'))"

definition input_deadline :: "worker_pool \<Rightarrow> agent \<Rightarrow> real" where
  "input_deadline wp a =
     (case wp_input_deadline_s wp of None \<Rightarrow> acb_timeout_s a | Some d \<Rightarrow> d)"

definition input_lost :: "agent \<Rightarrow> real \<Rightarrow> string" where
  "input_lost a waited =
     ''input never arrived from PID '' @ show_opt_int (acb_input_from a) @ '' after ''
       @ fmt_fixed 1 waited @ ''s''"

definition repark_waiting :: "worker_pool \<Rightarrow> pid \<Rightarrow> sys \<Rightarrow> wpc \<times> sys" where
  "repark_waiting wp p s =
     (case agent_at s p of
        None \<Rightarrow> (Finishing, s)
      | Some a \<Rightarrow>
          let now = now_of (sy_world s);
              since = (case acb_waiting_since a of None \<Rightarrow> now | Some t \<Rightarrow> t);
              a1 = a\<lparr>acb_waiting_since := Some since\<rparr>;
              s1 = sys_write p (a1, tick (sy_world s)) s;
              waited = now - since
          in if input_deadline wp a1 \<le> waited
             then (Finishing, on_agent p (do_fail ERROR (input_lost a1 waited)) s1)
             else (Requeue p, on_agent p (do_move WAITING) s1))"

text \<open>One round of the quantum loop up to the call of the step runner, and its end.\<close>

definition loop_round :: "pid \<Rightarrow> nat \<Rightarrow> bool \<Rightarrow> sys \<Rightarrow> wpc \<times> sys" where
  "loop_round p n keep_going s =
     (case n of
        0 \<Rightarrow> (After p keep_going, s)
      | Suc m \<Rightarrow>
          if sy_stop s then (After p keep_going, s)
          else (let (ok, q) = acquire 1 (quota_of s)
                in if ok then (Holding p m, on_quota q s) else (Short p m, s)))"

definition wait_quota :: "pid \<Rightarrow> nat \<Rightarrow> sys \<Rightarrow> wpc \<times> sys" where
  "wait_quota p n s =
     (let (got, q) = acquire_blocking 1 (quota_of s) [] in (Woken p n got, on_quota q s))"

definition after_wait :: "pid \<Rightarrow> nat \<Rightarrow> bool \<Rightarrow> sys \<Rightarrow> wpc \<times> sys" where
  "after_wait p n got s =
     (if sy_stop s then (Requeue p, if got then on_quota (refund 1 (quota_of s)) s else s)
      else if \<not> got then (Requeue p, s)
      else (Holding p n, s))"

definition enter_busy :: "sys \<Rightarrow> sys" where
  "enter_busy s = s\<lparr>sy_busy := sy_busy s + 1\<rparr>"

definition leave_busy :: "sys \<Rightarrow> sys" where
  "leave_busy s = s\<lparr>sy_busy := sy_busy s - 1\<rparr>"

definition call_runner :: "step_fun \<Rightarrow> env \<Rightarrow> pid \<Rightarrow> nat \<Rightarrow> sys \<Rightarrow> wpc \<times> sys" where
  "call_runner runner env p n s =
     (case agent_at s p of
        None \<Rightarrow> (Finishing, leave_busy s)
      | Some a \<Rightarrow>
          let calls_before = acb_llm_calls_used a;
              (st, r) = runner env (a, sy_world s);
              (st', keep_going) =
                (case r of
                   Inl e \<Rightarrow> (do_fail ERROR (''worker crash: '' @ exc_str e) st, False)
                 | Inr more_work \<Rightarrow> (st, more_work))
          in (Called p n (acb_llm_calls_used (fst st') \<noteq> calls_before) keep_going,
              leave_busy (sys_write p st' s)))"

definition settle :: "pid \<Rightarrow> nat \<Rightarrow> bool \<Rightarrow> bool \<Rightarrow> sys \<Rightarrow> wpc \<times> sys" where
  "settle p n made keep_going s =
     (let s' = (if made then s else on_quota (refund 1 (quota_of s)) s)
      in if (case agent_at s p of None \<Rightarrow> True | Some a \<Rightarrow> is_terminal a) \<or> \<not> keep_going
         then (After p keep_going, s') else (Loop p n keep_going, s'))"

text \<open>Forwarding the result downstream: only a finished agent, never blocking.\<close>

definition forward_result :: "worker_pool \<Rightarrow> pid \<Rightarrow> sys \<Rightarrow> sys" where
  "forward_result wp p s =
     (case agent_at s p of
        None \<Rightarrow> s
      | Some a \<Rightarrow>
          (case acb_pipe_to a of
             None \<Rightarrow> s
           | Some target \<Rightarrow>
               if acb_state a = DONE \<and> wp_bus wp
               then let m = make_result (now_of (sy_world s)) (acb_pid a)
                              (case acb_result a of None \<Rightarrow> '''' | Some r \<Rightarrow> r)
                    in s\<lparr>sy_bus := snd (bus_send target m False None (sy_bus s)),
                         sy_world := tick (sy_world s)\<rparr>
               else s))"

definition yield_rest :: "pid \<Rightarrow> bool \<Rightarrow> sys \<Rightarrow> sys" where
  "yield_rest p keep_going s =
     (case agent_at s p of
        None \<Rightarrow> s
      | Some a \<Rightarrow> if keep_going \<and> \<not> is_terminal a then queue_put p s else s)"

definition task_done :: "sys \<Rightarrow> sys" where
  "task_done s = s\<lparr>sy_queue := rq_task_done (sy_queue s)\<rparr>"

text \<open>\<open>wait_idle\<close> over the shared states a waiter observes.\<close>

definition pool_wait_idle :: "sys list \<Rightarrow> bool" where
  "pool_wait_idle seen = rq_wait_drained (map sy_queue seen)"

text \<open>One step of a worker: \<open>notified\<close> and \<open>env\<close> are what it meets on the way.\<close>

fun worker_step :: "worker_pool \<Rightarrow> step_fun \<Rightarrow> bool \<Rightarrow> env \<Rightarrow> wpc \<Rightarrow> sys \<Rightarrow> wpc \<times> sys" where
  "worker_step wp runner notified env Idle s = loop_top wp notified s"
| "worker_step wp runner notified env (Picked p) s = dispatch_enter wp p s"
| "worker_step wp runner notified env (Receiving p) s = receive_input wp p s"
| "worker_step wp runner notified env (Reparking p) s = repark_waiting wp p s"
| "worker_step wp runner notified env (Loop p n keep) s = loop_round p n keep s"
| "worker_step wp runner notified env (Short p n) s = (Blocked p n, on_agent p (do_move BLOCKED) s)"
| "worker_step wp runner notified env (Blocked p n) s = wait_quota p n s"
| "worker_step wp runner notified env (Woken p n got) s = after_wait p n got s"
| "worker_step wp runner notified env (Holding p n) s = (Calling p n, enter_busy s)"
| "worker_step wp runner notified env (Calling p n) s = call_runner runner env p n s"
| "worker_step wp runner notified env (Called p n made keep) s = settle p n made keep s"
| "worker_step wp runner notified env (After p keep) s = (Yielding p keep, forward_result wp p s)"
| "worker_step wp runner notified env (Yielding p keep) s = (Finishing, yield_rest p keep s)"
| "worker_step wp runner notified env (Requeue p) s = (Finishing, queue_put p s)"
| "worker_step wp runner notified env Finishing s = (Idle, task_done s)"
| "worker_step wp runner notified env Exited s = (Exited, s)"

section \<open>The kernel's side of the interleaving\<close>

text \<open>
  The atomic pieces of the kernel's calls, in the order each call makes them: \<open>spawn\<close>
  registers (\<open>KAdd\<close>), links to the parent (\<open>KChild\<close>), parks an agent with an
  upstream (\<open>KPark\<close>) and queues (\<open>KEnqueue\<close>); \<open>kill\<close> makes zombies
  (\<open>KZombie\<close>), pulls the dead agent off the queue (\<open>KDequeue\<close>) and drops mailboxes
  (\<open>KDropBox\<close>); \<open>reap_terminal\<close> unregisters; \<open>swap_in\<close> brings an agent's
  pages back (\<open>KSwapIn\<close>).
\<close>

datatype kop =
    KAdd agent
  | KChild pid pid
  | KPark pid
  | KEnqueue pid
  | KZombie time pid string
  | KDequeue pid
  | KDropBox pid
  | KUnregister pid
  | KSwapIn pid
  | KTopup int
  | KStop

definition live :: "sys \<Rightarrow> pid \<Rightarrow> bool" where
  "live s p = (case agent_at s p of None \<Rightarrow> False | Some a \<Rightarrow> \<not> is_terminal a)"

text \<open>When a call makes the piece: a new agent is fresh, only a dead agent is pulled off the queue.\<close>

fun kop_ok :: "kop \<Rightarrow> sys \<Rightarrow> bool" where
  "kop_ok (KAdd a) s =
     (agent_at s (acb_pid a) = None \<and> acb_llm_calls_used a = 0 \<and> acb_pid a \<notin> set (pt_keys (sy_table s)))"
| "kop_ok (KEnqueue p) s = (p \<in> set (sy_spawning s))"
| "kop_ok (KDequeue p) s = (\<not> live s p)"
| "kop_ok (KTopup n) s = (0 \<le> n)"
| "kop_ok k s = True"

definition add_child :: "pid \<Rightarrow> step_state \<Rightarrow> step_state" where
  "add_child c st = ((fst st)\<lparr>acb_children := acb_children (fst st) @ [c]\<rparr>, snd st)"

definition zombify :: "time \<Rightarrow> string \<Rightarrow> step_state \<Rightarrow> step_state" where
  "zombify now reason st = (set_error reason (move now ZOMBIE (fst st)), snd st)"

definition pages_back :: "step_state \<Rightarrow> step_state" where
  "pages_back st = fst (swap_in st)"

fun kop_do :: "kop \<Rightarrow> sys \<Rightarrow> sys" where
  "kop_do (KAdd a) s =
     (case table_add a (sy_table s) of
        Inl e \<Rightarrow> s
      | Inr t \<Rightarrow> s\<lparr>sy_table := t, sy_spawning := sy_spawning s @ [acb_pid a]\<rparr>)"
| "kop_do (KChild p c) s = on_agent p (add_child c) s"
| "kop_do (KPark p) s = on_agent p (do_move WAITING) s"
| "kop_do (KEnqueue p) s = queue_put p (s\<lparr>sy_spawning := remove1 p (sy_spawning s)\<rparr>)"
| "kop_do (KZombie now p reason) s = on_agent p (zombify now reason) s"
| "kop_do (KDequeue p) s = s\<lparr>sy_queue := snd (rq_pop p (sy_queue s))\<rparr>"
| "kop_do (KDropBox p) s = s\<lparr>sy_bus := drop_mailbox p (sy_bus s)\<rparr>"
| "kop_do (KUnregister p) s = s\<lparr>sy_table := snd (table_remove p (sy_table s))\<rparr>"
| "kop_do (KSwapIn p) s = on_agent p pages_back s"
| "kop_do (KTopup n) s = on_quota (topup n (quota_of s)) s"
| "kop_do KStop s = s\<lparr>sy_stop := True\<rparr>"

text \<open>All interleavings: a worker takes a step, the kernel makes a piece of a call, a thread starts.\<close>

inductive pool_step ::
  "worker_pool \<Rightarrow> step_fun \<Rightarrow> wpc list \<times> sys \<Rightarrow> wpc list \<times> sys \<Rightarrow> bool" for wp runner where
  worker: "i < length ws \<Longrightarrow> worker_step wp runner notified env (ws ! i) s = (pc, s') \<Longrightarrow>
    pool_step wp runner (ws, s) (ws[i := pc], s')"
| kernel: "kop_ok k s \<Longrightarrow> pool_step wp runner (ws, s) (ws, kop_do k s)"
| thread: "pool_step wp runner (ws, s) (ws @ [Idle], s)"

definition pool_runs ::
  "worker_pool \<Rightarrow> step_fun \<Rightarrow> wpc list \<times> sys \<Rightarrow> wpc list \<times> sys \<Rightarrow> bool" where
  "pool_runs wp runner = (pool_step wp runner)\<^sup>*\<^sup>*"

definition sys_init :: "int \<Rightarrow> world \<Rightarrow> sys" where
  "sys_init cap w =
     \<lparr>sy_table = table_init, sy_queue = rq_init, sy_bus = bus_init cap, sy_world = w, sy_stop = False,
      sy_busy = 0, sy_spawning = []\<rparr>"

section \<open>A dispatch ends\<close>

text \<open>An upper bound on the worker's own steps until it is back at the top of its loop.\<close>

fun rank :: "worker_pool \<Rightarrow> wpc \<Rightarrow> nat" where
  "rank wp Idle = 0" | "rank wp Exited = 0" | "rank wp Finishing = 1" | "rank wp (Requeue p) = 2"
| "rank wp (Yielding p k) = 2" | "rank wp (After p k) = 3" | "rank wp (Reparking p) = 3"
| "rank wp (Loop p n k) = 4 + 7 * n" | "rank wp (Called p n m k) = 5 + 7 * n"
| "rank wp (Calling p n) = 6 + 7 * n" | "rank wp (Holding p n) = 7 + 7 * n"
| "rank wp (Woken p n g) = 8 + 7 * n" | "rank wp (Blocked p n) = 9 + 7 * n"
| "rank wp (Short p n) = 10 + 7 * n" | "rank wp (Receiving p) = 5 + 7 * round_limit wp"
| "rank wp (Picked p) = 6 + 7 * round_limit wp"

text \<open>The points a worker goes through, with the shared state it finds at each of its steps.\<close>

fun worker_path :: "worker_pool \<Rightarrow> step_fun \<Rightarrow> (bool \<times> env \<times> sys) list \<Rightarrow> wpc \<Rightarrow> wpc" where
  "worker_path wp runner [] pc = pc"
| "worker_path wp runner ((notified, env, s) # seen) pc =
     worker_path wp runner seen (fst (worker_step wp runner notified env pc s))"

lemma rank_zero: "rank wp pc = 0 \<longleftrightarrow> pc = Idle \<or> pc = Exited"
  by (cases pc) auto

lemma worker_step_rank:
  assumes "0 < rank wp pc"
  shows "rank wp (fst (worker_step wp runner notified env pc s)) < rank wp pc
    \<and> fst (worker_step wp runner notified env pc s) \<noteq> Exited"
proof (cases pc)
  case (Loop p n k)
  then show ?thesis by (cases n) (auto simp: loop_round_def split: prod.split)
qed (use assms in \<open>auto simp: dispatch_enter_def receive_input_def repark_waiting_def wait_quota_def
      after_wait_def call_runner_def settle_def Let_def split: option.splits prod.splits\<close>)

lemma worker_path_idle:
  "0 < rank wp pc \<Longrightarrow> rank wp pc \<le> length seen \<Longrightarrow>
     \<exists>k \<le> rank wp pc. worker_path wp runner (take k seen) pc = Idle"
proof (induction seen arbitrary: pc)
  case (Cons x seen)
  obtain notified env s where x: "x = (notified, env, s)" by (cases x)
  let ?pc = "fst (worker_step wp runner notified env pc s)"
  note step = worker_step_rank [OF Cons.prems(1), of runner notified env s]
  show ?case
  proof (cases "rank wp ?pc = 0")
    case True
    then have "?pc = Idle" using step by (simp add: rank_zero)
    with Cons.prems(1) show ?thesis by (intro exI [of _ 1]) (simp add: x)
  next
    case False
    then obtain k where "k \<le> rank wp ?pc" "worker_path wp runner (take k seen) ?pc = Idle"
      using Cons.IH [of ?pc] Cons.prems(2) step by auto
    with step show ?thesis by (intro exI [of _ "Suc k"]) (simp add: x)
  qed
qed simp

section \<open>Lemmas on pipes\<close>

lemma send_to_empty:
  assumes "box_of b c = []"
  shows "box_of (snd (bus_send c m False None b)) = (box_of b)(c := [m])"
proof -
  have "\<not> box_full (bus_mailbox c b) c" using assms by (simp add: box_full_def)
  with assms show ?thesis by (simp add: bus_send_def box_put_def box_of_update Let_def)
qed

lemma recv_one:
  assumes "box_of b c = [m]"
  shows "fst (bus_recv c None b) = Some m" and "box_of (snd (bus_recv c None b)) c = []"
  using assms by (simp_all add: bus_recv_def box_get_def box_of_update Let_def)

section \<open>Properties\<close>

text \<open>
  C23. No agent pins a worker. Whatever the step runner, the scheduler and the other threads do
  (the shared state may be anything at each of its steps), a worker that has taken an agent off
  the queue is back at the top of its loop, the agent's \<open>task_done\<close> behind it, after at most
  \<open>6 + 7 * limit\<close> steps of its own, where the limit is the scheduler's quantum, or ten
  thousand for run-to-completion.
\<close>

theorem dispatch_ends:
  assumes "6 + 7 * round_limit wp \<le> length seen"
  shows "\<exists>k \<le> 6 + 7 * round_limit wp. worker_path wp runner (take k seen) (Picked p) = Idle"
  using worker_path_idle [of wp "Picked p" seen runner] assms by simp

theorem dispatch_ends_witness:
  "\<exists>k \<le> 13. worker_path \<lparr>wp_scheduler = RoundRobin 1, wp_bus = True, wp_input_deadline_s = None\<rparr> run_step
     (take k (replicate 13 (True, calm (answer ''s''), sys_init 8 (fresh_world 5)))) (Picked 1) = Idle"
  using dispatch_ends [of "\<lparr>wp_scheduler = RoundRobin 1, wp_bus = True, wp_input_deadline_s = None\<rparr>"
      "replicate 13 (True, calm (answer ''s''), sys_init 8 (fresh_world 5))" run_step 1]
  by (simp add: round_limit_def)

text \<open>
  C24. Pipes deliver. When an agent with a downstream consumer is done, forwarding its result and
  then dispatching the consumer, whose mailbox was empty, replaces every \<open>{INPUT}\<close> of the
  consumer's prompt by exactly that result and takes the message out again; an agent that
  failed or was killed sends nothing.
\<close>

theorem pipe_delivers:
  assumes "agent_at s p = Some a" and "acb_pipe_to a = Some c" and "wp_bus wp"
    and "agent_at s c = Some b" and "needs_input b" and "box_of (sy_bus s) c = []"
  shows "if acb_state a = DONE
    then \<exists>s'. receive_input wp c (forward_result wp p s) = (Loop c (round_limit wp) False, s')
        \<and> agent_at s' c = Some (b\<lparr>acb_prompt := str_replace input_marker
              (case acb_result a of None \<Rightarrow> '''' | Some r \<Rightarrow> r) (acb_prompt b), acb_waiting_since := None\<rparr>)
        \<and> box_of (sy_bus s') c = []
    else forward_result wp p s = s"
proof (cases "acb_state a = DONE")
  case True
  let ?r = "case acb_result a of None \<Rightarrow> '''' | Some r \<Rightarrow> r"
  let ?m = "make_result (now_of (sy_world s)) (acb_pid a) ?r"
  let ?bus = "snd (bus_send c ?m False None (sy_bus s))"
  let ?s1 = "s\<lparr>sy_bus := ?bus, sy_world := tick (sy_world s)\<rparr>"
  have s1: "forward_result wp p s = ?s1"
    using assms True by (simp add: forward_result_def Let_def)
  have "box_of ?bus c = [?m]" using send_to_empty [OF assms(6), of ?m] by simp
  note recv = recv_one [OF this]
  let ?s2 = "?s1\<lparr>sy_bus := snd (bus_recv c None ?bus)\<rparr>"
  have eq: "receive_input wp c ?s1 = (Loop c (round_limit wp) False, on_agent c (take_input ?m) ?s2)"
    by (simp add: receive_input_def split_beta Let_def recv)
  have b: "agent_at ?s2 c = Some b" using assms(4) by (simp add: agent_at_def)
  have res: "resolve_input_placeholder (acb_prompt b) (Some ?m) = str_replace input_marker ?r (acb_prompt b)"
    using assms(5) by (simp add: resolve_input_placeholder_def needs_input_def make_result_def)
  have "agent_at (on_agent c (take_input ?m) ?s2) c
      = Some (b\<lparr>acb_prompt := str_replace input_marker ?r (acb_prompt b), acb_waiting_since := None\<rparr>)"
    using b res by (simp add: on_agent_def take_input_def sys_write_def agent_at_def obj_write_def)
  moreover have "sy_bus (on_agent c (take_input ?m) ?s2) = snd (bus_recv c None ?bus)"
    by (simp add: on_agent_def sys_write_def split: option.split)
  ultimately show ?thesis
    using True eq recv(2) unfolding s1 by simp
next
  case False
  with assms show ?thesis by (simp add: forward_result_def)
qed

theorem pipe_delivers_witness:
  "\<exists>s'. receive_input \<lparr>wp_scheduler = FCFS, wp_bus = True, wp_input_deadline_s = None\<rparr> 2
       (forward_result \<lparr>wp_scheduler = FCFS, wp_bus = True, wp_input_deadline_s = None\<rparr> 1
         ((sys_init 8 (fresh_world 5))\<lparr>sy_table := \<lparr>pt_objs =
            [1 \<mapsto> (new_agent 1 ''up'' ''x'' 0)\<lparr>acb_state := DONE, acb_result := Some ''42'', acb_pipe_to := Some 2\<rparr>,
             2 \<mapsto> (new_agent 2 ''down'' ''use {INPUT}'' 0)\<lparr>acb_input_from := Some 1\<rparr>], pt_keys = [1, 2]\<rparr>\<rparr>))
     = (Loop 2 nonpreemptive_step_cap False, s')
   \<and> agent_at s' 2 = Some ((new_agent 2 ''down'' ''use 42'' 0)\<lparr>acb_input_from := Some 1\<rparr>)"
proof -
  let ?wp = "\<lparr>wp_scheduler = FCFS, wp_bus = True, wp_input_deadline_s = None\<rparr>"
  let ?a = "(new_agent 1 ''up'' ''x'' 0)\<lparr>acb_state := DONE, acb_result := Some ''42'', acb_pipe_to := Some 2\<rparr>"
  let ?b = "(new_agent 2 ''down'' ''use {INPUT}'' 0)\<lparr>acb_input_from := Some 1\<rparr>"
  let ?s = "(sys_init 8 (fresh_world 5))\<lparr>sy_table := \<lparr>pt_objs = [1 \<mapsto> ?a, 2 \<mapsto> ?b], pt_keys = [1, 2]\<rparr>\<rparr>"
  have "agent_at ?s 1 = Some ?a" "agent_at ?s 2 = Some ?b" "box_of (sy_bus ?s) 2 = []"
    by (simp_all add: agent_at_def sys_init_def bus_init_def box_of_def)
  moreover have "needs_input ?b"
    by (simp add: needs_input_def new_agent_def input_marker_def starts_with_def)
  ultimately obtain s' where "receive_input ?wp 2 (forward_result ?wp 1 ?s) = (Loop 2 (round_limit ?wp) False, s')"
    "agent_at s' 2 = Some (?b\<lparr>acb_prompt := str_replace input_marker ''42'' (acb_prompt ?b), acb_waiting_since := None\<rparr>)"
    using pipe_delivers [of ?s 1 ?a 2 ?wp ?b] by auto
  moreover have "str_replace input_marker ''42'' (acb_prompt ?b) = ''use 42''"
    by code_simp
  ultimately show ?thesis
    by (simp add: round_limit_def new_agent_def)
qed

end
