(* ===== verification/Json_Text.thy ===== *)
theory Json_Text
  imports Py_Text "HOL-Library.Sublist"
begin

text \<open>
  JSON text as Python's \<open>json\<close> module writes and reads it, for the reports that agent
  processes send to the kernel. \<open>dumps\<close> writes objects of atoms with the default
  separators and ASCII escapes; \<open>loads\<close> reads the whole grammar. Characters are 8-bit, so
  an escape beyond that range, which \<open>dumps\<close> never writes here, is not read.
\<close>

section \<open>Values\<close>

datatype jvalue =
    JNull
  | JBoolean bool
  | JInteger int
  | JFloat string
  | JText string
  | JArr "jvalue list"
  | JObj "(string \<times> jvalue) list"

definition quote_char :: char where
  "quote_char = CHR 0x22"

definition backslash :: char where
  "backslash = CHR 0x5C"

section \<open>Writing\<close>

definition esc_char :: "char \<Rightarrow> string" where
  "esc_char c =
     (let n = char_code c in
      if c = quote_char \<or> c = backslash then [backslash, c]
      else if n = 10 then [backslash, CHR ''n'']
      else if n = 13 then [backslash, CHR ''r'']
      else if n = 9 then [backslash, CHR ''t'']
      else if n = 12 then [backslash, CHR ''f'']
      else if n = 8 then [backslash, CHR ''b'']
      else if n < 32 \<or> 126 < n
        then [backslash, CHR ''u'', CHR ''0'', CHR ''0'', hex_digit (n div 16), hex_digit (n mod 16)]
      else [c])"

definition dumps_str :: "string \<Rightarrow> string" where
  "dumps_str s = [quote_char] @ concat (map esc_char s) @ [quote_char]"

text \<open>The values the reports consist of: \<open>None\<close>, an integer, text.\<close>

datatype atom = ANull | AInt int | AText string

fun dumps_atom :: "atom \<Rightarrow> string" where
  "dumps_atom ANull = ''null''"
| "dumps_atom (AInt n) = show_int n"
| "dumps_atom (AText s) = dumps_str s"

fun atom_value :: "atom \<Rightarrow> jvalue" where
  "atom_value ANull = JNull"
| "atom_value (AInt n) = JInteger n"
| "atom_value (AText s) = JText s"

definition dumps_member :: "string \<times> atom \<Rightarrow> string" where
  "dumps_member kv = dumps_str (fst kv) @ '': '' @ dumps_atom (snd kv)"

definition dumps :: "(string \<times> atom) list \<Rightarrow> string" where
  "dumps kvs = ''{'' @ join_with '', '' (map dumps_member kvs) @ ''}''"

section \<open>Reading\<close>

definition skip_ws :: "string \<Rightarrow> string" where
  "skip_ws s = dropWhile (\<lambda>c. char_code c \<in> {32, 9, 10, 13}) s"

definition hex_value :: "char \<Rightarrow> nat option" where
  "hex_value c =
     (let n = char_code c in
      if 48 \<le> n \<and> n \<le> 57 then Some (n - 48)
      else if 97 \<le> n \<and> n \<le> 102 then Some (n - 87)
      else if 65 \<le> n \<and> n \<le> 70 then Some (n - 55)
      else None)"

definition simple_escape :: "char \<Rightarrow> char option" where
  "simple_escape c =
     (if c = quote_char \<or> c = backslash \<or> c = CHR ''/'' then Some c
      else if c = CHR ''n'' then Some (CHR 0x0A)
      else if c = CHR ''r'' then Some (CHR 0x0D)
      else if c = CHR ''t'' then Some (CHR 0x09)
      else if c = CHR ''f'' then Some (CHR 0x0C)
      else if c = CHR ''b'' then Some (CHR 0x08)
      else None)"

definition hex4 :: "char \<Rightarrow> char \<Rightarrow> char \<Rightarrow> char \<Rightarrow> nat option" where
  "hex4 a b c d =
     (case (hex_value a, hex_value b, hex_value c, hex_value d) of
        (Some w, Some x, Some y, Some z) \<Rightarrow> Some (((w * 16 + x) * 16 + y) * 16 + z)
      | _ \<Rightarrow> None)"

definition put_char :: "char \<Rightarrow> (string \<times> string) option \<Rightarrow> (string \<times> string) option" where
  "put_char c r = map_option (\<lambda>(s, rest). (c # s, rest)) r"

text \<open>The rest of a string literal after its opening quote; strict mode refuses control characters.\<close>

function scan_str :: "string \<Rightarrow> (string \<times> string) option" where
  "scan_str s =
     (case s of
        [] \<Rightarrow> None
      | c # cs \<Rightarrow>
          if c = quote_char then Some ([], cs)
          else if c = backslash then
            (case cs of
               [] \<Rightarrow> None
             | e # r \<Rightarrow>
                 if e = CHR ''u'' then
                   (if length r < 4 then None
                    else case hex4 (r ! 0) (r ! 1) (r ! 2) (r ! 3) of
                           None \<Rightarrow> None
                         | Some v \<Rightarrow> if v < 256 then put_char (char_of v) (scan_str (drop 4 r)) else None)
                 else (case simple_escape e of
                         None \<Rightarrow> None | Some ch \<Rightarrow> put_char ch (scan_str r)))
          else if char_code c < 32 then None
          else put_char c (scan_str cs))"
  by pat_completeness auto
termination by (relation "measure length") auto

declare scan_str.simps [simp del]

text \<open>A number: an integer part, and a fraction and an exponent if they are complete.\<close>

definition digits_value_of :: "string \<Rightarrow> nat" where
  "digits_value_of ds = foldl (\<lambda>n c. 10 * n + (char_code c - 48)) 0 ds"

definition scan_frac :: "string \<Rightarrow> string \<times> string" where
  "scan_frac s =
     (case s of
        c # cs \<Rightarrow> if c = CHR ''.'' \<and> takeWhile is_digit cs \<noteq> []
                  then (c # takeWhile is_digit cs, dropWhile is_digit cs) else ([], s)
      | [] \<Rightarrow> ([], s))"

definition scan_exp :: "string \<Rightarrow> string \<times> string" where
  "scan_exp s =
     (case s of
        [] \<Rightarrow> ([], s)
      | c # cs \<Rightarrow>
          if c = CHR ''e'' \<or> c = CHR ''E''
          then let (sg, ds) = (case cs of d # r \<Rightarrow> if d = CHR ''+'' \<or> d = CHR ''-'' then ([d], r) else ([], cs)
                                        | [] \<Rightarrow> ([], cs))
               in if takeWhile is_digit ds \<noteq> []
                  then (c # sg @ takeWhile is_digit ds, dropWhile is_digit ds) else ([], s)
          else ([], s))"

definition scan_unsigned :: "bool \<Rightarrow> string \<Rightarrow> (jvalue \<times> string) option" where
  "scan_unsigned neg s =
     (let ds = takeWhile is_digit s;
          ip = (case ds of c # _ \<Rightarrow> if c = CHR ''0'' then [c] else ds | [] \<Rightarrow> []);
          (fr, s1) = scan_frac (drop (length ip) s);
          (ex, s2) = scan_exp s1
      in if ip = [] then None
         else if fr = [] \<and> ex = []
           then Some (JInteger (if neg then - int (digits_value_of ip) else int (digits_value_of ip)), s2)
         else Some (JFloat ((if neg then ''-'' else '''') @ ip @ fr @ ex), s2))"

definition scan_number :: "string \<Rightarrow> (jvalue \<times> string) option" where
  "scan_number s =
     (case s of
        c # cs \<Rightarrow> if c = CHR ''-'' then scan_unsigned True cs else scan_unsigned False s
      | [] \<Rightarrow> scan_unsigned False s)"

definition scan_word :: "string \<Rightarrow> (jvalue \<times> string) option" where
  "scan_word s =
     (if starts_with ''null'' s then Some (JNull, drop 4 s)
      else if starts_with ''true'' s then Some (JBoolean True, drop 4 s)
      else if starts_with ''false'' s then Some (JBoolean False, drop 5 s)
      else if starts_with ''NaN'' s then Some (JFloat ''NaN'', drop 3 s)
      else if starts_with ''Infinity'' s then Some (JFloat ''Infinity'', drop 8 s)
      else if starts_with ''-Infinity'' s then Some (JFloat ''-Infinity'', drop 9 s)
      else scan_number s)"

text \<open>
  Values, the elements of an array after \<open>[\<close> or a comma, the members of an object after
  its brace or a comma. The comparisons of lengths hold whenever a part was read; they make
  the recursion end on every text.
\<close>

function (sequential) scan_value :: "string \<Rightarrow> (jvalue \<times> string) option"
  and scan_elems :: "string \<Rightarrow> (jvalue list \<times> string) option"
  and scan_members :: "string \<Rightarrow> ((string \<times> jvalue) list \<times> string) option" where
  "scan_value s =
     (case s of
        [] \<Rightarrow> None
      | c # cs \<Rightarrow>
          if c = quote_char then map_option (\<lambda>(t, r). (JText t, r)) (scan_str cs)
          else if c = CHR ''{'' then
            (case skip_ws cs of
               d # r \<Rightarrow> if d = CHR ''}'' then Some (JObj [], r)
                        else if length (skip_ws cs) < length s
                        then map_option (\<lambda>(m, r). (JObj m, r)) (scan_members (skip_ws cs)) else None
             | [] \<Rightarrow> None)
          else if c = CHR ''['' then
            (case skip_ws cs of
               d # r \<Rightarrow> if d = CHR '']'' then Some (JArr [], r)
                        else if length (skip_ws cs) < length s
                        then map_option (\<lambda>(m, r). (JArr m, r)) (scan_elems (skip_ws cs)) else None
             | [] \<Rightarrow> None)
          else scan_word s)"
| "scan_elems s =
     (case scan_value s of
        None \<Rightarrow> None
      | Some (v, r) \<Rightarrow>
          (case skip_ws r of
             [] \<Rightarrow> None
           | c # cs \<Rightarrow>
               if c = CHR '']'' then Some ([v], cs)
               else if c = CHR '','' \<and> length (skip_ws cs) < length s
               then map_option (\<lambda>(vs, r). (v # vs, r)) (scan_elems (skip_ws cs))
               else None))"
| "scan_members s =
     (case s of
        [] \<Rightarrow> None
      | q # cs \<Rightarrow>
          if q \<noteq> quote_char then None
          else
            (case scan_str cs of
               None \<Rightarrow> None
             | Some (k, r) \<Rightarrow>
                 (case skip_ws r of
                    [] \<Rightarrow> None
                  | c # r1 \<Rightarrow>
                      if c \<noteq> CHR '':'' \<or> length s \<le> length (skip_ws r1) then None
                      else
                        (case scan_value (skip_ws r1) of
                           None \<Rightarrow> None
                         | Some (v, r2) \<Rightarrow>
                             (case skip_ws r2 of
                                [] \<Rightarrow> None
                              | d # r3 \<Rightarrow>
                                  if d = CHR ''}'' then Some ([(k, v)], r3)
                                  else if d = CHR '','' \<and> length (skip_ws r3) < length s
                                  then map_option (\<lambda>(m, r). ((k, v) # m, r)) (scan_members (skip_ws r3))
                                  else None)))))"
  by pat_completeness auto
termination
  by (relation "measure (\<lambda>x. case x of Inl s \<Rightarrow> 2 * length s | Inr (Inl s) \<Rightarrow> 2 * length s + 1
       | Inr (Inr s) \<Rightarrow> 2 * length s + 1)") auto

declare scan_value.simps [simp del] scan_elems.simps [simp del] scan_members.simps [simp del]

text \<open>\<open>json.loads\<close>: one value and nothing but white space around it; no result is a \<open>ValueError\<close>.\<close>

definition loads :: "string \<Rightarrow> jvalue option" where
  "loads s =
     (case scan_value (skip_ws s) of
        None \<Rightarrow> None
      | Some (v, r) \<Rightarrow> if skip_ws r = [] then Some v else None)"

text \<open>\<open>payload.get(key)\<close>: the last member of a name counts.\<close>

definition obj_get :: "(string \<times> jvalue) list \<Rightarrow> string \<Rightarrow> jvalue option" where
  "obj_get m k = map_of (rev m) k"

text \<open>Code equations that compute with binary numbers.\<close>

lemma char_code_int: "int (char_code c) = of_char c"
  by (simp add: char_code_def of_nat_of_char)

lemma esc_char_code [code]:
  "esc_char c =
     (let n = (of_char c :: int) in
      if c = quote_char \<or> c = backslash then [backslash, c]
      else if n = 10 then [backslash, CHR ''n'']
      else if n = 13 then [backslash, CHR ''r'']
      else if n = 9 then [backslash, CHR ''t'']
      else if n = 12 then [backslash, CHR ''f'']
      else if n = 8 then [backslash, CHR ''b'']
      else if n < 32 \<or> 126 < n
        then [backslash, CHR ''u'', CHR ''0'', CHR ''0'', hex_digit (nat (n div 16)), hex_digit (nat (n mod 16))]
      else [c])"
proof -
  have "(of_char c :: int) = int (char_code c)" by (simp add: char_code_int)
  then show ?thesis unfolding esc_char_def Let_def by (simp add: nat_div_distrib nat_mod_distrib)
qed

lemma skip_ws_code [code]:
  "skip_ws s = dropWhile (\<lambda>c. (let n = (of_char c :: int) in n = 32 \<or> n = 9 \<or> n = 10 \<or> n = 13)) s"
proof -
  have "(char_code c \<in> {32, 9, 10, 13}) = (let n = (of_char c :: int) in n = 32 \<or> n = 9 \<or> n = 10 \<or> n = 13)" for c
    unfolding char_code_int [symmetric] Let_def by auto
  then show ?thesis by (simp only: skip_ws_def)
qed

lemma scan_str_code [code]:
  "scan_str s =
     (case s of
        [] \<Rightarrow> None
      | c # cs \<Rightarrow>
          if c = quote_char then Some ([], cs)
          else if c = backslash then
            (case cs of
               [] \<Rightarrow> None
             | e # r \<Rightarrow>
                 if e = CHR ''u'' then
                   (if length r < 4 then None
                    else case hex4 (r ! 0) (r ! 1) (r ! 2) (r ! 3) of
                           None \<Rightarrow> None
                         | Some v \<Rightarrow> if v < 256 then put_char (char_of v) (scan_str (drop 4 r)) else None)
                 else (case simple_escape e of
                         None \<Rightarrow> None | Some ch \<Rightarrow> put_char ch (scan_str r)))
          else if of_char c < (32 :: int) then None
          else put_char c (scan_str cs))"
proof -
  have "of_char c < (32 :: int) \<longleftrightarrow> char_code c < 32" for c
    unfolding char_code_int [symmetric] by auto
  then show ?thesis by (simp only: scan_str.simps [of s])
qed

section \<open>Texts cut short\<close>

lemma strict_prefix_append:
  "strict_prefix p (xs @ ys) \<Longrightarrow> strict_prefix p xs \<or> (\<exists>p'. p = xs @ p' \<and> strict_prefix p' ys)"
proof (induction xs arbitrary: p)
  case (Cons x xs)
  then show ?case by (cases p) (auto simp: strict_prefix_simps)
qed auto

lemma strict_prefix_Cons: "strict_prefix p (x # xs) \<Longrightarrow> p = [] \<or> (\<exists>p'. p = x # p' \<and> strict_prefix p' xs)"
  by (cases p) auto

text \<open>What a part reads is shorter than what it was given, so the comparisons of lengths never decide.\<close>

lemma scan_str_shorter: "scan_str s = Some (t, r) \<Longrightarrow> length r < length s"
proof (induction s arbitrary: t r rule: scan_str.induct)
  case (1 s)
  show ?case
  proof (cases s)
    case (Cons c cs)
    have down: "length (drop 4 x) \<le> length x" for x :: string by simp
    from "1.prems" Cons show ?thesis
      using "1.IH" down
      by (subst (asm) scan_str.simps)
        (fastforce simp: put_char_def split: list.splits if_splits option.splits)
  qed (use "1.prems" in \<open>simp add: scan_str.simps\<close>)
qed

section \<open>Strings read back\<close>

lemma hex_value_digit: "d < 16 \<Longrightarrow> hex_value (hex_digit d) = Some d"
  by (auto simp: hex_value_def hex_digit_def char_code_def Let_def)

lemma hex4_code: "hex4 (CHR ''0'') (CHR ''0'') (hex_digit (char_code c div 16)) (hex_digit (char_code c mod 16)) = Some (char_code c)"
proof -
  have "char_code c < 256" unfolding char_code_def using of_char_mod_256 [of c, where 'a = nat] by linarith
  then have "char_code c div 16 < 16" by auto
  moreover have "hex_value (CHR ''0'') = Some 0" by code_simp
  ultimately show ?thesis by (simp add: hex4_def hex_value_digit)
qed

lemma scan_str_esc: "scan_str (esc_char c @ rest) = put_char c (scan_str rest)"
proof -
  have lt: "char_code c < 256" unfolding char_code_def using of_char_mod_256 [of c, where 'a = nat] by linarith
  have eqs: "char_code c = n \<Longrightarrow> c = char_of n" for n unfolding char_code_def by (metis char_of_char)
  consider "c = quote_char \<or> c = backslash" | "char_code c \<in> {10, 13, 9, 12, 8}"
    | "c \<noteq> quote_char" "c \<noteq> backslash" "char_code c \<notin> {10, 13, 9, 12, 8}" "char_code c < 32 \<or> 126 < char_code c"
    | "c \<noteq> quote_char" "c \<noteq> backslash" "32 \<le> char_code c" "char_code c \<le> 126"
    by fastforce
  then show ?thesis
  proof cases
    case 1
    then show ?thesis
      by (subst scan_str.simps) (auto simp: esc_char_def simple_escape_def quote_char_def backslash_def char_code_def)
  next
    case 2
    then have "c \<in> {char_of (10::nat), char_of (13::nat), char_of (9::nat), char_of (12::nat), char_of (8::nat)}" by (auto dest: eqs)
    moreover have "char_of (10::nat) = CHR 0x0A" "char_of (13::nat) = CHR 0x0D" "char_of (9::nat) = CHR 0x09"
      "char_of (12::nat) = CHR 0x0C" "char_of (8::nat) = CHR 0x08" by code_simp+
    ultimately have "c \<in> {CHR 0x0A, CHR 0x0D, CHR 0x09, CHR 0x0C, CHR 0x08}" by simp
    then show ?thesis
      by (subst scan_str.simps) (auto simp: esc_char_def simple_escape_def quote_char_def backslash_def char_code_def)
  next
    case 3
    then have "esc_char c = [backslash, CHR ''u'', CHR ''0'', CHR ''0'', hex_digit (char_code c div 16), hex_digit (char_code c mod 16)]"
      by (auto simp: esc_char_def Let_def)
    moreover have "char_of (char_code c) = c" unfolding char_code_def by simp
    ultimately show ?thesis
      using lt by (subst scan_str.simps) (simp add: hex4_code quote_char_def backslash_def)
  next
    case 4
    then have "esc_char c = [c]" by (auto simp: esc_char_def Let_def)
    with 4 show ?thesis by (subst scan_str.simps) simp
  qed
qed

lemma scan_str_full: "scan_str (concat (map esc_char s) @ quote_char # rest) = Some (s, rest)"
proof (induction s)
  case Nil
  show ?case by (subst scan_str.simps) simp
next
  case (Cons c s)
  then show ?case by (simp add: scan_str_esc put_char_def)
qed

lemma scan_str_esc_cut: "strict_prefix p (esc_char c) \<Longrightarrow> scan_str p = None"
  by (subst scan_str.simps)
    (auto simp: esc_char_def Let_def backslash_def quote_char_def dest!: strict_prefix_Cons split: if_splits)

lemma scan_str_cut: "strict_prefix p (concat (map esc_char s) @ [quote_char]) \<Longrightarrow> scan_str p = None"
proof (induction s arbitrary: p)
  case Nil
  then have "p = []" by (auto dest!: strict_prefix_Cons)
  then show ?case by (simp add: scan_str.simps)
next
  case (Cons c s)
  then have "strict_prefix p (esc_char c @ concat (map esc_char s) @ [quote_char])" by simp
  from strict_prefix_append [OF this] Cons.IH scan_str_esc_cut show ?case
    by (auto simp: scan_str_esc put_char_def)
qed

section \<open>Atoms read back\<close>

text \<open>What may follow an atom in a report.\<close>

definition ends_atom :: "string \<Rightarrow> bool" where
  "ends_atom r = (case r of [] \<Rightarrow> True | c # _ \<Rightarrow> c = CHR '','' \<or> c = CHR ''}'')"

lemma show_nat_head: "0 < n \<Longrightarrow> hd (show_nat n) \<noteq> CHR ''0''"
proof (induction n rule: show_nat.induct)
  case (1 n)
  show ?case
  proof (cases "n < 10")
    case True
    have "digit_char n \<noteq> CHR ''0''"
      using "1.prems" True digit_char_code [of n] by (auto simp: char_code_def)
    with True show ?thesis by (simp add: show_nat.simps [of n])
  next
    case False
    with 1 show_nat_digits [of "n div 10"] show ?thesis by (simp add: show_nat.simps [of n])
  qed
qed

lemma digit_not: "is_digit c \<Longrightarrow> c \<notin> {CHR ''-'', quote_char, CHR ''{'', CHR ''['', CHR ''n'', CHR ''t'', CHR ''f'',
    CHR ''N'', CHR ''I'', CHR '','', CHR ''}'', CHR ''.'', CHR ''e'', CHR ''E''}"
  by (auto simp: is_digit_def char_code_def quote_char_def)

lemma ends_atom_digit: "ends_atom r \<Longrightarrow> takeWhile is_digit r = [] \<and> dropWhile is_digit r = r"
  using digit_not by (cases r) (auto simp: ends_atom_def)

lemma scan_ends: "ends_atom r \<Longrightarrow> scan_frac r = ([], r) \<and> scan_exp r = ([], r)"
  by (cases r) (auto simp: ends_atom_def scan_frac_def scan_exp_def)

lemma scan_digits:
  assumes "list_all is_digit ds" and "ds \<noteq> []" and "hd ds \<noteq> CHR ''0'' \<or> length ds = 1" and "ends_atom r"
  shows "scan_number (ds @ r) = Some (JInteger (int (digits_value_of ds)), r)"
    and "scan_number (CHR ''-'' # ds @ r) = Some (JInteger (- int (digits_value_of ds)), r)"
proof -
  obtain d ds' where ds: "ds = d # ds'" using assms(2) by (cases ds) auto
  have tw: "takeWhile is_digit (ds @ r) = ds"
    using assms(1) ends_atom_digit [OF assms(4)] by (simp add: list_all_iff)
  have ip: "(case ds of c # _ \<Rightarrow> if c = CHR ''0'' then [c] else ds | [] \<Rightarrow> []) = ds"
    using assms(3) ds by (cases ds') auto
  have dr: "drop (length ds) (ds @ r) = r" by simp
  have "scan_unsigned neg (ds @ r)
      = Some (JInteger (if neg then - int (digits_value_of ds) else int (digits_value_of ds)), r)" for neg
    using assms(2) scan_ends [OF assms(4)] by (simp only: scan_unsigned_def Let_def tw ip dr) simp
  moreover have "d \<noteq> CHR ''-''" using assms(1) ds digit_not [of d] by auto
  ultimately show "scan_number (ds @ r) = Some (JInteger (int (digits_value_of ds)), r)"
    "scan_number (CHR ''-'' # ds @ r) = Some (JInteger (- int (digits_value_of ds)), r)"
    by (simp_all add: scan_number_def ds)
qed

lemma show_nat_scan:
  assumes "ends_atom r"
  shows "scan_number (show_nat n @ r) = Some (JInteger (int n), r)"
    and "scan_number (CHR ''-'' # show_nat n @ r) = Some (JInteger (- int n), r)"
proof -
  note d = show_nat_digits [of n]
  have "hd (show_nat n) \<noteq> CHR ''0'' \<or> length (show_nat n) = 1"
    using show_nat_head [of n] by (cases "n = 0") (simp_all add: show_nat.simps [of 0])
  moreover have "digits_value_of (show_nat n) = n" using d by (simp add: digits_value_of_def)
  ultimately show "scan_number (show_nat n @ r) = Some (JInteger (int n), r)"
    "scan_number (CHR ''-'' # show_nat n @ r) = Some (JInteger (- int n), r)"
    using scan_digits [of "show_nat n" r] d assms by simp_all
qed

text \<open>Text that starts with a digit or a sign followed by a digit is read as a number.\<close>

lemma starts_with_Cons: "starts_with (p # ps) (c # cs) \<longleftrightarrow> p = c \<and> starts_with ps cs"
  by (auto simp: starts_with_def)

lemma scan_value_number:
  assumes "is_digit c \<or> c = CHR ''-'' \<and> (cs = [] \<or> is_digit (hd cs))"
  shows "scan_value (c # cs) = scan_number (c # cs)"
proof -
  have "c \<noteq> quote_char" "c \<noteq> CHR ''{''" "c \<noteq> CHR ''[''" "c \<noteq> CHR ''n''" "c \<noteq> CHR ''t''" "c \<noteq> CHR ''f''"
    "c \<noteq> CHR ''N''" "c \<noteq> CHR ''I''"
    using assms digit_not [of c] by (auto simp: quote_char_def)
  moreover have "\<not> starts_with ''-Infinity'' (c # cs)"
  proof (cases cs)
    case Nil
    then show ?thesis by (simp add: starts_with_def)
  next
    case (Cons d r)
    then show ?thesis using assms digit_not [of c] digit_not [of d] by (auto simp: starts_with_Cons)
  qed
  ultimately show ?thesis
    unfolding scan_value.simps [of "c # cs"] scan_word_def by (auto simp: starts_with_Cons)
qed

lemma scan_atom: "ends_atom r \<Longrightarrow> scan_value (dumps_atom a @ r) = Some (atom_value a, r)"
proof (cases a)
  case ANull
  then show ?thesis by (subst scan_value.simps) (simp add: scan_word_def starts_with_def quote_char_def)
next
  case (AText s)
  then show ?thesis by (subst scan_value.simps) (simp add: dumps_str_def scan_str_full)
next
  case (AInt n)
  assume r: "ends_atom r"
  have dg: "show_nat m \<noteq> []" "is_digit (hd (show_nat m))" for m
    using show_nat_digits [of m] by (cases "show_nat m"; simp)+
  show ?thesis
  proof (cases "n < 0")
    case True
    then have "dumps_atom a @ r = CHR ''-'' # show_nat (nat (- n)) @ r" using AInt by (simp add: show_int_def)
    moreover have "scan_value (CHR ''-'' # show_nat (nat (- n)) @ r) = scan_number (CHR ''-'' # show_nat (nat (- n)) @ r)"
      using dg [of "nat (- n)"] by (intro scan_value_number) simp
    ultimately show ?thesis using show_nat_scan(2) [OF r] AInt True by simp
  next
    case False
    obtain c cs where sc: "show_nat (nat n) = c # cs" using dg(1) [of "nat n"] by (cases "show_nat (nat n)") auto
    then have "is_digit c" using dg(2) [of "nat n"] by simp
    then have "scan_value (show_nat (nat n) @ r) = scan_number (show_nat (nat n) @ r)"
      using sc by (simp add: scan_value_number)
    then show ?thesis using show_nat_scan(1) [OF r] AInt False by (simp add: show_int_def)
  qed
qed

text \<open>An atom cut short is not read, or only digits are left over.\<close>

lemma scan_unsigned_rest:
  assumes "list_all is_digit s" and "scan_unsigned neg s = Some (v, r)"
  shows "list_all is_digit r"
proof -
  have plain: "scan_frac t = ([], t)" "scan_exp t = ([], t)" if "list_all is_digit t" for t
    using that digit_not [of "hd t"] by (cases t; simp add: scan_frac_def scan_exp_def)+
  have "list_all is_digit (drop k s)" for k
    using assms(1) by (auto simp: list_all_iff dest: in_set_dropD)
  then have "scan_frac (drop k s) = ([], drop k s)" "scan_exp (drop k s) = ([], drop k s)" for k
    using plain by blast+
  then have "\<exists>k. r = drop k s"
    using assms(2) by (auto simp: scan_unsigned_def Let_def split: if_splits)
  with assms(1) show ?thesis by (auto simp: list_all_iff dest: in_set_dropD)
qed

lemma scan_digits_cut:
  assumes "strict_prefix p (show_int n)" and "scan_value p = Some (v, r)"
  shows "list_all is_digit r"
proof -
  have pre: "list_all is_digit q" if "strict_prefix q (show_nat m)" for q m
    using show_nat_digits [of m] that by (auto simp: strict_prefix_def prefix_def)
  show ?thesis
  proof (cases p)
    case Nil
    with assms(2) show ?thesis by (simp add: scan_value.simps)
  next
    case (Cons c cs)
    show ?thesis
    proof (cases "n < 0")
      case True
      with assms(1) Cons have c: "c = CHR ''-''" "strict_prefix cs (show_nat (nat (- n)))"
        by (auto simp: show_int_def dest!: strict_prefix_Cons)
      then have "list_all is_digit cs" using pre by blast
      moreover from this c have "scan_value p = scan_unsigned True cs"
        using Cons by (cases cs) (simp_all add: scan_value_number scan_number_def)
      ultimately show ?thesis using assms(2) scan_unsigned_rest by metis
    next
      case False
      with assms(1) have "list_all is_digit p" using pre by (simp add: show_int_def)
      moreover from this have "scan_value p = scan_unsigned False p"
        using Cons digit_not [of c] by (simp add: scan_value_number scan_number_def)
      ultimately show ?thesis using assms(2) scan_unsigned_rest by metis
    qed
  qed
qed

lemma scan_atom_cut:
  assumes "strict_prefix p (dumps_atom a)" and "scan_value p = Some (v, r)"
  shows "list_all is_digit r"
proof (cases a)
  case (AInt n)
  with assms scan_digits_cut show ?thesis by simp
next
  case ANull
  with assms show ?thesis
    by (auto simp: scan_value.simps [of p] scan_word_def starts_with_def scan_number_def scan_unsigned_def
        is_digit_def char_code_def quote_char_def dest!: strict_prefix_Cons)
next
  case (AText s)
  with assms scan_str_cut show ?thesis
    by (auto simp: dumps_str_def scan_value.simps [of p] dest!: strict_prefix_Cons)
qed

section \<open>Objects read back\<close>

lemma skip_ws_simps [simp]: "skip_ws [] = []" "skip_ws (CHR '' '' # s) = skip_ws s"
  by (simp_all add: skip_ws_def char_code_def)

definition visible :: "char \<Rightarrow> bool" where
  "visible c = (char_code c \<notin> {32, 9, 10, 13})"

lemma skip_ws_visible: "s = [] \<or> visible (hd s) \<Longrightarrow> skip_ws s = s"
  by (cases s) (auto simp: skip_ws_def visible_def)

lemma visible_chars: "visible quote_char" "visible (CHR '','')" "visible (CHR ''}'')" "visible (CHR ''{'')"
    "visible (CHR ''-'')" "visible (CHR ''n'')" "visible (CHR '':'')" "is_digit c \<Longrightarrow> visible c"
  by (auto simp: visible_def char_code_def quote_char_def is_digit_def Let_def)

lemma dumps_atom_visible: "dumps_atom a \<noteq> [] \<and> visible (hd (dumps_atom a))"
proof (cases a)
  case (AInt n)
  show ?thesis
    using AInt show_nat_digits [of "nat n"] visible_chars
    by (cases "show_nat (nat n)") (auto simp: show_int_def)
qed (simp_all add: dumps_str_def visible_chars)

lemma ends_atom_visible: "ends_atom r \<Longrightarrow> skip_ws r = r"
  using visible_chars by (intro skip_ws_visible) (cases r; auto simp: ends_atom_def)

text \<open>The members of an object up to its closing brace.\<close>

fun members_text :: "(string \<times> atom) list \<Rightarrow> string" where
  "members_text [] = ''}''"
| "members_text [kv] = dumps_member kv @ ''}''"
| "members_text (kv # kv' # kvs) = dumps_member kv @ '', '' @ members_text (kv' # kvs)"

lemma dumps_members: "dumps kvs = CHR ''{'' # members_text kvs"
proof -
  have "join_with '', '' (map dumps_member kvs) @ ''}'' = members_text kvs"
    by (induction kvs rule: members_text.induct) simp_all
  then show ?thesis by (simp add: dumps_def)
qed

text \<open>One member, and what the reader does after its value.\<close>

definition after_member :: "string \<Rightarrow> jvalue \<Rightarrow> nat \<Rightarrow> string \<Rightarrow> ((string \<times> jvalue) list \<times> string) option" where
  "after_member k v n r2 =
     (case skip_ws r2 of
        [] \<Rightarrow> None
      | d # r3 \<Rightarrow>
          if d = CHR ''}'' then Some ([(k, v)], r3)
          else if d = CHR '','' \<and> length (skip_ws r3) < n
          then map_option (\<lambda>(m, r). ((k, v) # m, r)) (scan_members (skip_ws r3))
          else None)"

lemma scan_members_key:
  assumes "r1 = [] \<or> visible (hd r1)"
  shows "scan_members (dumps_str k @ '': '' @ r1) =
    (case scan_value r1 of None \<Rightarrow> None
     | Some (v, r2) \<Rightarrow> after_member k v (length (dumps_str k @ '': '' @ r1)) r2)"
proof -
  have "skip_ws (CHR '':'' # CHR '' '' # r1) = CHR '':'' # CHR '' '' # r1"
    by (rule skip_ws_visible) (simp add: visible_chars)
  then show ?thesis
    using skip_ws_visible [OF assms]
    unfolding after_member_def by (subst scan_members.simps) (simp add: dumps_str_def scan_str_full)
qed

lemma members_full:
  "kvs \<noteq> [] \<Longrightarrow> scan_members (members_text kvs @ rest) = Some (map (\<lambda>kv. (fst kv, atom_value (snd kv))) kvs, rest)"
proof (induction kvs rule: members_text.induct)
  case (2 kv)
  let ?r = "dumps_atom (snd kv) @ ''}'' @ rest"
  have "?r = [] \<or> visible (hd ?r)" using dumps_atom_visible [of "snd kv"] by simp
  from scan_members_key [OF this, of "fst kv"] show ?case
    using scan_atom [of "''}'' @ rest" "snd kv"] ends_atom_visible [of "''}'' @ rest"]
    by (simp add: dumps_member_def after_member_def ends_atom_def)
next
  case (3 kv kv' kvs)
  let ?m = "members_text (kv' # kvs) @ rest"
  let ?r = "dumps_atom (snd kv) @ '', '' @ ?m"
  have "visible (hd ?m)" "?m \<noteq> []"
    using visible_chars by (cases kvs; simp add: dumps_member_def dumps_str_def)+
  then have m: "skip_ws ?m = ?m" by (intro skip_ws_visible) simp
  have "?r = [] \<or> visible (hd ?r)" using dumps_atom_visible [of "snd kv"] by simp
  from scan_members_key [OF this, of "fst kv"] show ?case
    using 3 m scan_atom [of "'', '' @ ?m" "snd kv"] ends_atom_visible [of "'', '' @ ?m"]
    by (simp add: dumps_member_def after_member_def ends_atom_def)
qed simp

lemma after_member_digits: "list_all is_digit r \<Longrightarrow> after_member k v n r = None"
proof (cases r)
  case (Cons c cs)
  assume "list_all is_digit r"
  with Cons visible_chars(8) [of c] skip_ws_visible [of r] digit_not [of c] show ?thesis
    by (simp add: after_member_def)
qed (simp add: after_member_def)

lemma after_member_comma:
  "scan_members (skip_ws r) = None \<Longrightarrow> after_member k v n (CHR '','' # r) = None"
  using skip_ws_visible [of "CHR '','' # r"] visible_chars by (simp add: after_member_def)

lemma scan_members_nil [simp]: "scan_members [] = None"
  by (simp add: scan_members.simps)

text \<open>A member cut short, or complete with its continuation cut short.\<close>

lemma member_cut:
  assumes cut: "strict_prefix p (dumps_member kv @ rest)"
    and ends: "\<And>q. strict_prefix q rest \<Longrightarrow> ends_atom q"
    and cont: "\<And>q v n. strict_prefix q rest \<Longrightarrow> after_member (fst kv) v n q = None"
  shows "scan_members p = None"
proof -
  have "strict_prefix p (quote_char # (concat (map esc_char (fst kv)) @ [quote_char]) @ '': '' @ dumps_atom (snd kv) @ rest)"
    using cut by (simp add: dumps_member_def dumps_str_def)
  from strict_prefix_Cons [OF this] show ?thesis
  proof (elim disjE exE conjE)
    fix p1
    assume p: "p = quote_char # p1"
      and "strict_prefix p1 ((concat (map esc_char (fst kv)) @ [quote_char]) @ '': '' @ dumps_atom (snd kv) @ rest)"
    from strict_prefix_append [OF this(2)] show ?thesis
    proof (elim disjE exE conjE)
      assume "strict_prefix p1 (concat (map esc_char (fst kv)) @ [quote_char])"
      then show ?thesis using p scan_str_cut by (simp add: scan_members.simps)
    next
      fix p2
      assume p1: "p1 = (concat (map esc_char (fst kv)) @ [quote_char]) @ p2"
        and p2: "strict_prefix p2 ('': '' @ dumps_atom (snd kv) @ rest)"
      show ?thesis
      proof (cases "\<exists>p3. p2 = '': '' @ p3 \<and> strict_prefix p3 (dumps_atom (snd kv) @ rest)")
        case False
        then have "p2 = [] \<or> p2 = '':''" using p2 by (auto dest!: strict_prefix_Cons)
        moreover have "skip_ws '':'' = '':''" by (rule skip_ws_visible) (simp add: visible_chars)
        moreover have "scan_value [] = None" by (simp add: scan_value.simps)
        ultimately show ?thesis
          using p p1 by (subst scan_members.simps) (auto simp: scan_str_full)
      next
        case True
        then obtain p3 where p3: "p2 = '': '' @ p3" "strict_prefix p3 (dumps_atom (snd kv) @ rest)" by blast
        have whole: "p = dumps_str (fst kv) @ '': '' @ p3" using p p1 p3(1) by (simp add: dumps_str_def)
        have "p3 = [] \<or> visible (hd p3)"
          using p3(2) dumps_atom_visible [of "snd kv"]
          by (cases p3; cases "dumps_atom (snd kv)") (auto dest!: strict_prefix_Cons)
        note key = scan_members_key [OF this, of "fst kv", folded whole]
        from strict_prefix_append [OF p3(2)] show ?thesis
        proof (elim disjE exE conjE)
          assume "strict_prefix p3 (dumps_atom (snd kv))"
          from scan_atom_cut [OF this] show ?thesis
            unfolding key by (auto simp: after_member_digits split: option.split)
        next
          fix q
          assume q: "p3 = dumps_atom (snd kv) @ q" "strict_prefix q rest"
          then have "scan_value p3 = Some (atom_value (snd kv), q)" using scan_atom ends by blast
          with cont [OF q(2)] show ?thesis unfolding key by simp
        qed
      qed
    qed
  qed simp
qed

lemma members_cut: "kvs \<noteq> [] \<Longrightarrow> strict_prefix p (members_text kvs) \<Longrightarrow> scan_members p = None"
proof (induction kvs arbitrary: p rule: members_text.induct)
  case (2 kv)
  then show ?case
    by (intro member_cut [of p kv "''}''"]) (auto dest!: strict_prefix_Cons simp: ends_atom_def after_member_digits)
next
  case (3 kv kv' kvs)
  let ?m = "members_text (kv' # kvs)"
  have vis: "skip_ws q = q" if "strict_prefix q ?m" for q
    using that visible_chars
    by (intro skip_ws_visible, cases q; cases kvs) (auto simp: dumps_member_def dumps_str_def)
  have cut: "q = [] \<or> q = '','' \<or> (\<exists>q'. q = '', '' @ q' \<and> strict_prefix q' ?m)" if "strict_prefix q ('', '' @ ?m)" for q
    using that by (auto dest!: strict_prefix_Cons)
  show ?case
  proof (rule member_cut [of p kv "'', '' @ ?m"])
    show "strict_prefix p (dumps_member kv @ '', '' @ ?m)" using "3.prems"(2) by simp
    fix q
    assume q: "strict_prefix q ('', '' @ ?m)"
    then show "ends_atom q" using cut [OF q] by (auto simp: ends_atom_def)
    show "after_member (fst kv) v n q = None" for v n
      using cut [OF q] "3.IH" vis by (auto simp: after_member_digits intro!: after_member_comma)
  qed
qed simp

section \<open>The round trip\<close>

lemma loads_dumps:
  assumes "kvs \<noteq> []"
  shows "loads (dumps kvs) = Some (JObj (map (\<lambda>kv. (fst kv, atom_value (snd kv))) kvs))"
proof -
  have "members_text kvs \<noteq> []" "visible (hd (members_text kvs))" "hd (members_text kvs) \<noteq> CHR ''}''"
    using assms visible_chars
    by (cases kvs rule: members_text.cases; simp add: dumps_member_def dumps_str_def quote_char_def)+
  then obtain d r where m: "members_text kvs = d # r" "d \<noteq> CHR ''}''" "skip_ws (d # r) = d # r"
    using skip_ws_visible [of "members_text kvs"] by (cases "members_text kvs") auto
  have "scan_value (CHR ''{'' # members_text kvs)
      = Some (JObj (map (\<lambda>kv. (fst kv, atom_value (snd kv))) kvs), [])"
    using members_full [OF assms, of "[]"] m by (subst scan_value.simps) (simp add: quote_char_def)
  moreover have "skip_ws (CHR ''{'' # members_text kvs) = CHR ''{'' # members_text kvs"
    by (rule skip_ws_visible) (simp add: visible_chars)
  ultimately show ?thesis by (simp add: loads_def dumps_members)
qed

lemma loads_cut:
  assumes "kvs \<noteq> []" and "strict_prefix p (dumps kvs)"
  shows "loads p = None"
proof (cases p)
  case Nil
  then show ?thesis by (simp add: loads_def scan_value.simps)
next
  case (Cons c cs)
  with assms(2) have c: "c = CHR ''{''" "strict_prefix cs (members_text kvs)"
    by (auto simp: dumps_members dest!: strict_prefix_Cons)
  have sm: "scan_members cs = None" using members_cut assms(1) c(2) by blast
  have "cs = [] \<or> (visible (hd cs) \<and> hd cs \<noteq> CHR ''}'')"
    using c(2) assms(1) visible_chars
    by (cases cs; cases kvs rule: members_text.cases) (auto simp: dumps_member_def dumps_str_def quote_char_def)
  then have "scan_value (c # cs) = None"
    using sm c(1) skip_ws_visible [of cs]
    by (subst scan_value.simps) (auto simp: quote_char_def split: list.split)
  moreover have "skip_ws (c # cs) = c # cs" using c(1) by (intro skip_ws_visible) (simp add: visible_chars)
  ultimately show ?thesis using Cons by (simp add: loads_def)
qed

end
