(* ===== verification/Process_Pool.thy ===== *)
theory Process_Pool
  imports Worker_Pool Json_Text Cgroup
begin

text \<open>
  The process back end (\<open>gcos/kernel/process_pool.py\<close>): a worker reserves part of the
  global quota, forks a child that runs the agent to completion on its own copy of the control
  block, reads the child's JSON report from a pipe, applies it and settles the reservation. A
  worker is a machine over the program points of its loop, as in \<open>Worker_Pool\<close>, whose
  code for the parts that are the same in both pools is used here too. What a child does is one
  step, since it shares no memory with the parent; it may be killed at any time. The parent's
  bookkeeping before the fork and after the report is one step each: the fields it writes are
  written by the worker that dispatched the agent only.
\<close>

section \<open>Reports\<close>

definition opt_atom :: "string option \<Rightarrow> atom" where
  "opt_atom x = (case x of None \<Rightarrow> ANull | Some s \<Rightarrow> AText s)"

text \<open>The fields of \<open>_RESULT_FIELDS\<close> and the state.\<close>

definition child_payload :: "agent \<Rightarrow> (string \<times> atom) list" where
  "child_payload a =
     [(''result'', opt_atom (acb_result a)), (''error'', opt_atom (acb_error a)),
      (''tokens_used'', AInt (acb_tokens_used a)), (''llm_calls_used'', AInt (acb_llm_calls_used a)),
      (''state'', AText (state_value (acb_state a)))]"

definition crash_payload :: "py_exc \<Rightarrow> agent \<Rightarrow> (string \<times> atom) list" where
  "crash_payload e a =
     [(''state'', AText ''ERROR''), (''error'', AText (''child crash: '' @ exc_str e)),
      (''result'', opt_atom (acb_result a)), (''tokens_used'', AInt (acb_tokens_used a)),
      (''llm_calls_used'', AInt (acb_llm_calls_used a))]"

text \<open>\<open>AgentState(value)\<close>; no result is a \<open>ValueError\<close>.\<close>

definition all_states :: "agent_state list" where
  "all_states = [NEW, READY, RUNNING, WAITING, BLOCKED, DONE, TIMEOUT, ERROR, ZOMBIE]"

definition state_of_value :: "string \<Rightarrow> agent_state option" where
  "state_of_value v = find (\<lambda>s. state_value s = v) all_states"

section \<open>The child\<close>

definition child_step_cap :: nat where
  "child_step_cap = 64"

text \<open>
  The child's loop from the outcome of its client factory, at most \<open>cap\<close> steps. Kills reach
  the parent's control block, not the copy.
\<close>

definition child_env :: "client option \<Rightarrow> env \<Rightarrow> env" where
  "child_env c env = env\<lparr>e_client := c, e_kill := (\<lambda>_. None)\<rparr>"

definition child_loop ::
  "step_fun \<Rightarrow> env \<Rightarrow> nat \<Rightarrow> step_state \<Rightarrow> step_state \<times> py_exc option" where
  "child_loop runner env cap st =
     (case e_factory env of
        Inl e \<Rightarrow> (st, Some e)
      | Inr c \<Rightarrow> run_steps (runner (child_env c env)) cap st)"

definition child_main :: "step_fun \<Rightarrow> env \<Rightarrow> step_state \<Rightarrow> step_state \<times> string \<times> nat" where
  "child_main runner env st =
     (case child_loop runner env child_step_cap st of
        (st', None) \<Rightarrow> (st', dumps (child_payload (fst st')), 0)
      | (st', Some e) \<Rightarrow> (st', dumps (crash_payload e (fst st')), 1))"

text \<open>
  The loop that writes the report: \<open>ns\<close> are the numbers of bytes the calls of
  \<open>os.write\<close> take, each at least one; the writer is killed when they end early.
\<close>

fun write_report :: "nat list \<Rightarrow> string \<Rightarrow> string" where
  "write_report [] view = []"
| "write_report (n # ns) view =
     (if view = [] then [] else take (max 1 n) view @ write_report ns (drop (max 1 n) view))"

text \<open>The loop that reads up to 65536 bytes at a time until the end of the pipe.\<close>

function read_report :: "nat list \<Rightarrow> string \<Rightarrow> string list" where
  "read_report ns s =
     (if s = [] then []
      else let n = (case ns of [] \<Rightarrow> 65536 | k # _ \<Rightarrow> max 1 (min k 65536))
           in take n s # read_report (tl ns) (drop n s))"
  by pat_completeness auto
termination
  by (relation "measure (\<lambda>(ns, s). length s)") (auto split: list.splits)

declare read_report.simps [simp del]

text \<open>What becomes of a child.\<close>

datatype fate =
    Completes
  | KilledRunning nat       \<comment> \<open>after so many steps\<close>
  | KilledWriting "nat list"  \<comment> \<open>after these writes\<close>

definition child_run :: "step_fun \<Rightarrow> env \<Rightarrow> fate \<Rightarrow> step_state \<Rightarrow> step_state \<times> string" where
  "child_run runner env fate st =
     (case fate of
        Completes \<Rightarrow> (case child_main runner env st of (st', raw, code) \<Rightarrow> (st', raw))
      | KilledRunning k \<Rightarrow> (fst (child_loop runner env (min k child_step_cap) st), [])
      | KilledWriting ns \<Rightarrow> (case child_main runner env st of (st', raw, code) \<Rightarrow> (st', write_report ns raw)))"

section \<open>Applying a report\<close>

definition stamp_finish :: "time \<Rightarrow> agent \<Rightarrow> agent" where
  "stamp_finish now a = (if acb_finished_at a = None then a\<lparr>acb_finished_at := Some now\<rparr> else a)"

definition fail_if_live :: "time \<Rightarrow> string \<Rightarrow> agent \<Rightarrow> agent" where
  "fail_if_live now e a = (if is_terminal a then a else set_error e (move now ERROR a))"

definition no_report :: string where
  "no_report = ''agent process produced no result (killed?)''"

definition corrupt_report :: string where
  "corrupt_report = ''corrupt result from agent process''"

text \<open>
  \<open>setattr\<close> for the reported fields that are not \<open>None\<close>; the record is typed, so a value
  of another type, which no child reports, leaves the field.
\<close>

definition apply_fields :: "(string \<times> jvalue) list \<Rightarrow> agent \<Rightarrow> agent" where
  "apply_fields m a =
     a\<lparr>acb_result := (case obj_get m ''result'' of Some (JText s) \<Rightarrow> Some s | _ \<Rightarrow> acb_result a),
       acb_error := (case obj_get m ''error'' of Some (JText s) \<Rightarrow> Some s | _ \<Rightarrow> acb_error a),
       acb_tokens_used := (case obj_get m ''tokens_used'' of Some (JInteger n) \<Rightarrow> n | _ \<Rightarrow> acb_tokens_used a),
       acb_llm_calls_used :=
         (case obj_get m ''llm_calls_used'' of Some (JInteger n) \<Rightarrow> n | _ \<Rightarrow> acb_llm_calls_used a)\<rparr>"

definition reported_state :: "(string \<times> jvalue) list \<Rightarrow> agent_state" where
  "reported_state m =
     (case obj_get m ''state'' of
        Some (JText v) \<Rightarrow> (case state_of_value v of Some s \<Rightarrow> s | None \<Rightarrow> ERROR)
      | _ \<Rightarrow> ERROR)"

definition apply_result :: "time \<Rightarrow> string \<Rightarrow> agent \<Rightarrow> agent \<times> (py_exc + bool)" where
  "apply_result now raw a =
     (if raw = [] then (stamp_finish now (fail_if_live now no_report a), Inr False)
      else case loads raw of
             None \<Rightarrow> (fail_if_live now corrupt_report a, Inr False)
           | Some (JObj m) \<Rightarrow>
               (let a1 = apply_fields m a;
                    a2 = (if is_terminal a1 then a1 else a1\<lparr>acb_state := reported_state m\<rparr>)
                in (stamp_finish now a2, Inr True))
           | Some v \<Rightarrow> (a, Inl (OtherExc ''AttributeError'' ''get'')))"

section \<open>Reserving and settling\<close>

record reservation =
  rv_orig :: int
  rv_reserve :: int
  rv_before :: int

definition reserve_quota :: "agent \<Rightarrow> quota \<Rightarrow> reservation option \<times> quota" where
  "reserve_quota a q =
     (let orig = acb_quota_remaining a; (got, q') = acquire_up_to orig q
      in if got \<le> 0 \<and> 0 < orig then (None, q')
         else (Some \<lparr>rv_orig = orig, rv_reserve = got, rv_before = acb_llm_calls_used a\<rparr>, q'))"

definition made_of :: "reservation \<Rightarrow> agent \<Rightarrow> int" where
  "made_of rv a = max 0 (acb_llm_calls_used a - rv_before rv)"

definition settle_quota :: "reservation \<Rightarrow> bool \<Rightarrow> agent \<Rightarrow> quota \<Rightarrow> quota" where
  "settle_quota rv completed a q =
     (if completed \<and> made_of rv a < rv_reserve rv then refund (rv_reserve rv - made_of rv a) q else q)"

definition settle_agent :: "reservation \<Rightarrow> bool \<Rightarrow> agent \<Rightarrow> agent" where
  "settle_agent rv completed a =
     a\<lparr>acb_quota_remaining :=
         max 0 (rv_orig rv - (if completed then made_of rv a else rv_reserve rv))\<rparr>"

definition agent_cgroup :: "cg_host \<Rightarrow> agent \<Rightarrow> cg_fs \<Rightarrow> cgroup option \<times> cg_fs" where
  "agent_cgroup host a fs =
     (if \<not> cf_available host then (None, fs)
      else let (g, fs') = cgroup_init host (''agent-'' @ show_int (acb_pid a))
                            (Some (priority_to_weight (acb_priority a))) None None None fs
           in (if cg_enforced g then Some g else None, fs'))"

section \<open>The worker\<close>

text \<open>
  \<open>ps_spent\<close> and \<open>ps_calls\<close> are a ledger the code does not keep: the units settled so
  far, and the requests charged in children.
\<close>

record psys =
  ps_sys :: sys
  ps_children :: "(pid \<times> int) list"
  ps_fs :: cg_fs
  ps_spent :: int
  ps_calls :: int

datatype qpc =
    QIdle
  | QPicked pid
  | QReceiving pid
  | QReparking pid
  | QStarting pid               \<comment> \<open>before the transition to RUNNING\<close>
  | QEntering pid               \<comment> \<open>before \<open>_enter_busy\<close>\<close>
  | QReserving pid              \<comment> \<open>before the reservation and the fork\<close>
  | QShort pid                  \<comment> \<open>nothing to reserve\<close>
  | QPutting pid                \<comment> \<open>before the blocked agent is put back\<close>
  | QSleeping pid               \<comment> \<open>after it, in \<open>time.sleep\<close>\<close>
  | QRunning pid reservation agent quota "context_pager option"  \<comment> \<open>the child's copy\<close>
  | QReading pid reservation string int  \<comment> \<open>the report, and the requests the child made\<close>
  | QLeaving pid                \<comment> \<open>before \<open>_leave_busy\<close>\<close>
  | QForward pid
  | QRequeue pid
  | QFinishing
  | QExited

definition lift_pc :: "(wpc \<Rightarrow> qpc) \<Rightarrow> wpc \<times> sys \<Rightarrow> psys \<Rightarrow> qpc \<times> psys" where
  "lift_pc f c s = (f (fst c), s\<lparr>ps_sys := snd c\<rparr>)"

fun after_top :: "wpc \<Rightarrow> qpc" where
  "after_top (Picked p) = QPicked p"
| "after_top Idle = QIdle"
| "after_top pc = QExited"

definition no_bus_text :: string where
  "no_bus_text = ''input_from set but no message bus''"

definition process_dispatch :: "worker_pool \<Rightarrow> pid \<Rightarrow> psys \<Rightarrow> qpc \<times> psys" where
  "process_dispatch wp p s =
     (case agent_at (ps_sys s) p of
        None \<Rightarrow> (QFinishing, s)
      | Some a \<Rightarrow>
          if is_terminal a then (QFinishing, s)
          else if \<not> needs_input a then (QStarting p, s)
          else if \<not> wp_bus wp
            then (QFinishing, s\<lparr>ps_sys := on_agent p (do_fail ERROR no_bus_text) (ps_sys s)\<rparr>)
          else (QReceiving p, s))"

fun after_receive :: "pid \<Rightarrow> wpc \<Rightarrow> qpc" where
  "after_receive p (Reparking q) = QReparking p"
| "after_receive p pc = QStarting p"

fun after_repark :: "pid \<Rightarrow> wpc \<Rightarrow> qpc" where
  "after_repark p (Requeue q) = QRequeue p"
| "after_repark p pc = QFinishing"

definition start_if_new :: "pid \<Rightarrow> sys \<Rightarrow> sys" where
  "start_if_new p s =
     (case agent_at s p of
        None \<Rightarrow> s
      | Some a \<Rightarrow> if acb_started_at a = None then on_agent p (do_move RUNNING) s else s)"

definition set_budget :: "int \<Rightarrow> agent \<Rightarrow> agent" where
  "set_budget n a = a\<lparr>acb_quota_remaining := n\<rparr>"

text \<open>Admission, the agent's cgroup and the fork; \<open>cpid\<close> is the PID of the child.\<close>

definition reserve_and_fork :: "cg_host \<Rightarrow> int \<Rightarrow> pid \<Rightarrow> psys \<Rightarrow> qpc \<times> psys" where
  "reserve_and_fork host cpid p s =
     (case agent_at (ps_sys s) p of
        None \<Rightarrow> (QLeaving p, s)
      | Some a \<Rightarrow>
          (case reserve_quota a (quota_of (ps_sys s)) of
             (None, q) \<Rightarrow> (QShort p, s\<lparr>ps_sys := on_quota q (ps_sys s)\<rparr>)
           | (Some rv, q) \<Rightarrow>
               let a1 = set_budget (rv_reserve rv) a;
                   s1 = sys_write p (a1, (sy_world (ps_sys s))\<lparr>w_quota := q\<rparr>) (ps_sys s);
                   (g, fs) = agent_cgroup host a1 (ps_fs s);
                   fs' = (case g of None \<Rightarrow> fs | Some cg \<Rightarrow> snd (add_pid host cpid cg fs))
               in (QRunning p rv a1 q (w_default_pager (sy_world s1)),
                   s\<lparr>ps_sys := s1, ps_children := AList.update p cpid (ps_children s), ps_fs := fs'\<rparr>)))"

text \<open>
  The child runs on its copies of the control block, the quota and the default pager; requests,
  disk, clock and code runs are the host's.
\<close>

definition run_child ::
  "step_fun \<Rightarrow> env \<Rightarrow> fate \<Rightarrow> pid \<Rightarrow> reservation \<Rightarrow> agent \<Rightarrow> quota \<Rightarrow> context_pager option \<Rightarrow> psys \<Rightarrow> qpc \<times> psys"
  where
  "run_child runner env fate p rv a q pager s =
     (let w = sy_world (ps_sys s);
          (st, raw) = child_run runner env fate (a, w\<lparr>w_quota := q, w_default_pager := pager\<rparr>);
          w' = (snd st)\<lparr>w_quota := w_quota w, w_default_pager := w_default_pager w\<rparr>;
          n = calls_between a (fst st)
      in (QReading p rv raw n,
          s\<lparr>ps_sys := (ps_sys s)\<lparr>sy_world := w'\<rparr>, ps_calls := ps_calls s + n\<rparr>))"

text \<open>The report is applied, the registry entry removed, the reservation settled.\<close>

definition finish_child :: "pid \<Rightarrow> reservation \<Rightarrow> string \<Rightarrow> psys \<Rightarrow> qpc \<times> psys" where
  "finish_child p rv raw s =
     (let kids = AList.delete p (ps_children s)
      in case agent_at (ps_sys s) p of
           None \<Rightarrow> (QLeaving p, s\<lparr>ps_children := kids, ps_spent := ps_spent s + rv_reserve rv\<rparr>)
         | Some a \<Rightarrow>
             (case apply_result (now_of (sy_world (ps_sys s))) raw a of
                (a1, Inl e) \<Rightarrow>
                  (QExited, s\<lparr>ps_sys := task_done (leave_busy (sys_write p (a1, sy_world (ps_sys s)) (ps_sys s))),
                              ps_children := kids, ps_spent := ps_spent s + rv_reserve rv\<rparr>)
              | (a1, Inr completed) \<Rightarrow>
                  let q = settle_quota rv completed a1 (quota_of (ps_sys s));
                      w = tick ((sy_world (ps_sys s))\<lparr>w_quota := q\<rparr>)
                  in (QLeaving p,
                      s\<lparr>ps_sys := sys_write p (settle_agent rv completed a1, w) (ps_sys s), ps_children := kids,
                        ps_spent := ps_spent s + (if completed then made_of rv a1 else rv_reserve rv)\<rparr>)))"

text \<open>\<open>kill_running\<close>: whether a child is registered and the signal reached it.\<close>

definition kill_running :: "(int \<Rightarrow> bool) \<Rightarrow> pid \<Rightarrow> psys \<Rightarrow> bool" where
  "kill_running signalled p s = (case map_of (ps_children s) p of None \<Rightarrow> False | Some cpid \<Rightarrow> signalled cpid)"

text \<open>The children that \<open>shutdown\<close> signals.\<close>

definition process_shutdown :: "psys \<Rightarrow> psys \<times> int list" where
  "process_shutdown s = (s\<lparr>ps_sys := (ps_sys s)\<lparr>sy_stop := True\<rparr>\<rparr>, map snd (ps_children s))"

text \<open>One step of a worker.\<close>

fun process_step ::
  "worker_pool \<Rightarrow> step_fun \<Rightarrow> cg_host \<Rightarrow> bool \<Rightarrow> env \<Rightarrow> int \<Rightarrow> fate \<Rightarrow> qpc \<Rightarrow> psys \<Rightarrow> qpc \<times> psys" where
  "process_step wp runner host notified env cpid fate QIdle s = lift_pc after_top (loop_top wp notified (ps_sys s)) s"
| "process_step wp runner host notified env cpid fate (QPicked p) s = process_dispatch wp p s"
| "process_step wp runner host notified env cpid fate (QReceiving p) s =
     lift_pc (after_receive p) (receive_input wp p (ps_sys s)) s"
| "process_step wp runner host notified env cpid fate (QReparking p) s =
     lift_pc (after_repark p) (repark_waiting wp p (ps_sys s)) s"
| "process_step wp runner host notified env cpid fate (QStarting p) s =
     (QEntering p, s\<lparr>ps_sys := start_if_new p (ps_sys s)\<rparr>)"
| "process_step wp runner host notified env cpid fate (QEntering p) s =
     (QReserving p, s\<lparr>ps_sys := enter_busy (ps_sys s)\<rparr>)"
| "process_step wp runner host notified env cpid fate (QReserving p) s = reserve_and_fork host cpid p s"
| "process_step wp runner host notified env cpid fate (QShort p) s =
     (QPutting p, s\<lparr>ps_sys := on_agent p (do_move BLOCKED) (ps_sys s)\<rparr>)"
| "process_step wp runner host notified env cpid fate (QPutting p) s =
     (QSleeping p, s\<lparr>ps_sys := queue_put p (ps_sys s)\<rparr>)"
| "process_step wp runner host notified env cpid fate (QSleeping p) s = (QLeaving p, s)"
| "process_step wp runner host notified env cpid fate (QRunning p rv a q pager) s =
     run_child runner env fate p rv a q pager s"
| "process_step wp runner host notified env cpid fate (QReading p rv raw n) s = finish_child p rv raw s"
| "process_step wp runner host notified env cpid fate (QLeaving p) s =
     (QForward p, s\<lparr>ps_sys := leave_busy (ps_sys s)\<rparr>)"
| "process_step wp runner host notified env cpid fate (QForward p) s =
     (QFinishing, s\<lparr>ps_sys := forward_result wp p (ps_sys s)\<rparr>)"
| "process_step wp runner host notified env cpid fate (QRequeue p) s =
     (QFinishing, s\<lparr>ps_sys := queue_put p (ps_sys s)\<rparr>)"
| "process_step wp runner host notified env cpid fate QFinishing s =
     (QIdle, s\<lparr>ps_sys := task_done (ps_sys s)\<rparr>)"
| "process_step wp runner host notified env cpid fate QExited s = (QExited, s)"

inductive process_pool_step ::
  "worker_pool \<Rightarrow> step_fun \<Rightarrow> cg_host \<Rightarrow> qpc list \<times> psys \<Rightarrow> qpc list \<times> psys \<Rightarrow> bool" for wp runner host where
  pworker: "i < length ws \<Longrightarrow> process_step wp runner host notified env cpid fate (ws ! i) s = (pc, s') \<Longrightarrow>
    process_pool_step wp runner host (ws, s) (ws[i := pc], s')"
| pkernel: "kop_ok k (ps_sys s) \<Longrightarrow>
    process_pool_step wp runner host (ws, s) (ws, s\<lparr>ps_sys := kop_do k (ps_sys s)\<rparr>)"
| pthread: "process_pool_step wp runner host (ws, s) (ws @ [QIdle], s)"

definition process_runs ::
  "worker_pool \<Rightarrow> step_fun \<Rightarrow> cg_host \<Rightarrow> qpc list \<times> psys \<Rightarrow> qpc list \<times> psys \<Rightarrow> bool" where
  "process_runs wp runner host = (process_pool_step wp runner host)\<^sup>*\<^sup>*"

definition psys_init :: "int \<Rightarrow> world \<Rightarrow> cg_fs \<Rightarrow> psys" where
  "psys_init cap w fs =
     \<lparr>ps_sys = sys_init cap w, ps_children = [], ps_fs = fs, ps_spent = 0, ps_calls = 0\<rparr>"

end
