(* ===== verification/Pool_Safety.thy ===== *)
theory Pool_Safety
  imports Worker_Pool "HOL-Library.Multiset"
begin

text \<open>
  Safety of the worker pool under every interleaving: who owns an agent, what is in flight,
  that no live agent is lost, and the ledger of the global quota. Each program point has its
  effect on the shared state (\<open>effect\<close>) and its bill (\<open>billing\<close>); the invariants
  \<open>pool_inv\<close> and \<open>ledger_inv\<close> follow from these alone, for every step runner that
  meets the contract \<open>pool_runner\<close>, which the executor does.
\<close>

section \<open>Invariants\<close>

text \<open>The agent a worker owns, whether it is in flight, the quota units it holds, whether it is busy.\<close>

fun own :: "wpc \<Rightarrow> pid multiset" where
  "own Idle = {#}" | "own Finishing = {#}" | "own Exited = {#}"
| "own (Picked p) = {#p#}" | "own (Receiving p) = {#p#}" | "own (Reparking p) = {#p#}"
| "own (Loop p n k) = {#p#}" | "own (Short p n) = {#p#}" | "own (Blocked p n) = {#p#}"
| "own (Woken p n g) = {#p#}" | "own (Holding p n) = {#p#}" | "own (Calling p n) = {#p#}"
| "own (Called p n m k) = {#p#}" | "own (After p k) = {#p#}" | "own (Yielding p k) = {#p#}"
| "own (Requeue p) = {#p#}"

fun act :: "wpc \<Rightarrow> int" where
  "act Idle = 0" | "act Exited = 0" | "act pc = 1"

fun held :: "wpc \<Rightarrow> int" where
  "held (Woken p n got) = (if got then 1 else 0)"
| "held (Holding p n) = 1" | "held (Calling p n) = 1"
| "held (Called p n made keep) = (if made then 0 else 1)"
| "held pc = 0"

fun calling :: "wpc \<Rightarrow> int" where
  "calling (Calling p n) = 1" | "calling pc = 0"

text \<open>Every agent in the system that is still to be handled, with who has it.\<close>

definition claims :: "wpc list \<Rightarrow> sys \<Rightarrow> pid multiset" where
  "claims ws s = mset (rq_q (sy_queue s)) + tally own ws + mset (sy_spawning s)"

text \<open>What holds at a program point: a loop that gave up has a reason.\<close>

fun pc_ok :: "sys \<Rightarrow> wpc \<Rightarrow> bool" where
  "pc_ok s (Loop p n keep) = (0 < n \<or> keep)"
| "pc_ok s (Called p n made keep) = (keep \<or> \<not> live s p)"
| "pc_ok s (After p keep) = (keep \<or> \<not> live s p \<or> sy_stop s)"
| "pc_ok s (Yielding p keep) = (keep \<or> \<not> live s p \<or> sy_stop s)"
| "pc_ok s pc = True"

definition pool_inv :: "wpc list \<times> sys \<Rightarrow> bool" where
  "pool_inv c = (case c of (ws, s) \<Rightarrow>
     (\<forall>p. count (claims ws s) p \<le> 1) \<and> (\<forall>p. p \<in># claims ws s \<longrightarrow> agent_at s p \<noteq> None)
     \<and> rq_in_flight (sy_queue s) = tally act ws \<and> sy_busy s = tally calling ws
     \<and> (\<forall>p. live s p \<longrightarrow> sy_stop s \<or> p \<in># claims ws s)
     \<and> (\<forall>pc \<in> set ws. pc_ok s pc)
     \<and> (\<forall>p a. agent_at s p = Some a \<longrightarrow> acb_pid a = p))"

text \<open>The ledger of the global quota: used units are requests made plus units held by workers.\<close>

definition calls_at :: "sys \<Rightarrow> pid \<Rightarrow> int" where
  "calls_at s p = (case agent_at s p of None \<Rightarrow> 0 | Some a \<Rightarrow> acb_llm_calls_used a)"

definition all_calls :: "sys \<Rightarrow> int" where
  "all_calls s = (\<Sum>p \<in> dom (agent_at s). calls_at s p)"

definition std_pager :: "agent \<Rightarrow> bool" where
  "std_pager a \<longleftrightarrow> (\<exists>b m. acb_pager a = Some \<lparr>cpg_budget = b, cpg_policies = default_policies m\<rparr>)"

definition ledger_inv :: "wpc list \<times> sys \<Rightarrow> bool" where
  "ledger_inv c = (case c of (ws, s) \<Rightarrow>
     q_total (quota_of s) - q_remaining (quota_of s) = all_calls s + tally held ws
     \<and> 0 \<le> q_remaining (quota_of s) \<and> finite (dom (agent_at s))
     \<and> (\<forall>p. 0 \<le> calls_at s p))"

section \<open>Lemmas on the shared state\<close>

lemma held_nonneg: "0 \<le> held pc"
  by (cases pc rule: held.cases) auto

lemma held_le: "held pc \<le> 1"
  by (cases pc rule: held.cases) auto

lemma act_nonneg: "0 \<le> act pc"
  by (cases pc rule: act.cases) auto

text \<open>An agent moves on: same identity and pager, and a terminal one stays terminal.\<close>

definition adv :: "agent \<Rightarrow> agent \<Rightarrow> bool" where
  "adv a b \<longleftrightarrow> acb_pid b = acb_pid a \<and> acb_pager b = acb_pager a \<and> (is_terminal a \<longrightarrow> is_terminal b)"

definition advance :: "sys \<Rightarrow> sys \<Rightarrow> bool" where
  "advance s s' \<longleftrightarrow> (\<forall>p. rel_option adv (agent_at s p) (agent_at s' p))"

text \<open>No request is made and no quota moves.\<close>

definition level :: "sys \<Rightarrow> sys \<Rightarrow> bool" where
  "level s s' \<longleftrightarrow> (\<forall>p. calls_at s' p = calls_at s p) \<and> quota_of s' = quota_of s"

lemma adv_refl [simp]: "adv a a"
  by (simp add: adv_def)

lemma advance_refl [simp]: "advance s s"
  by (auto simp: advance_def option.rel_refl)

lemma advance_trans: "advance s t \<Longrightarrow> advance t u \<Longrightarrow> advance s u"
  unfolding advance_def
proof (intro allI)
  fix p
  assume "\<forall>p. rel_option adv (agent_at s p) (agent_at t p)" "\<forall>p. rel_option adv (agent_at t p) (agent_at u p)"
  then have "rel_option adv (agent_at s p) (agent_at t p)" "rel_option adv (agent_at t p) (agent_at u p)" by auto
  then show "rel_option adv (agent_at s p) (agent_at u p)"
    by (cases "agent_at s p"; cases "agent_at t p"; cases "agent_at u p") (auto simp: adv_def)
qed

lemma advanceD:
  assumes "advance s s'"
  shows "agent_at s' p = None \<longleftrightarrow> agent_at s p = None"
    and "live s' p \<Longrightarrow> live s p"
    and "agent_at s' p = Some b \<Longrightarrow> \<exists>a. agent_at s p = Some a \<and> adv a b"
proof -
  have r: "rel_option adv (agent_at s p) (agent_at s' p)"
    using assms by (simp add: advance_def)
  show "agent_at s' p = None \<longleftrightarrow> agent_at s p = None"
    using r by (cases "agent_at s p"; cases "agent_at s' p") auto
  show "live s p" if "live s' p"
    using r that by (cases "agent_at s p"; cases "agent_at s' p") (auto simp: live_def adv_def)
  show "\<exists>a. agent_at s p = Some a \<and> adv a b" if "agent_at s' p = Some b"
    using r that by (cases "agent_at s p") auto
qed

lemma level_refl [simp]: "level s s"
  by (simp add: level_def)

lemma level_trans: "level s t \<Longrightarrow> level t u \<Longrightarrow> level s u"
  by (simp add: level_def)

text \<open>A change of one agent that keeps its identity and its accounts.\<close>

definition mild :: "(step_state \<Rightarrow> step_state) \<Rightarrow> bool" where
  "mild f \<longleftrightarrow> (\<forall>st. adv (fst st) (fst (f st)) \<and> acb_llm_calls_used (fst (f st)) = acb_llm_calls_used (fst st)
     \<and> w_quota (snd (f st)) = w_quota (snd st))"

lemma load_pages_frame:
  "load_pages ds st = (st', r) \<Longrightarrow>
     \<exists>ps. fst st' = (fst st)\<lparr>acb_context_pages := ps\<rparr> \<and> w_quota (snd st') = w_quota (snd st)"
proof (induction ds arbitrary: st st' r)
  case Nil
  then show ?case by (auto intro!: exI [of _ "acb_context_pages (fst st)"])
next
  case (Cons d ds)
  show ?case
  proof (cases "deserialize (now_of (snd st)) d")
    case (Inl e)
    with Cons.prems show ?thesis by (auto intro!: exI [of _ "acb_context_pages (fst st)"])
  next
    case (Inr p)
    let ?st1 = "((fst st)\<lparr>acb_context_pages := acb_context_pages (fst st) @ [p]\<rparr>, tick (snd st))"
    obtain st1 r1 where "load_pages ds ?st1 = (st1, r1)" by (metis surj_pair)
    with Cons.IH [OF this] Cons.prems Inr show ?thesis by auto
  qed
qed

lemma mild_pages_back [simp]: "mild pages_back"
  unfolding mild_def
proof
  fix st :: step_state
  obtain st' r where "swap_in st = (st', r)" by (metis surj_pair)
  with load_pages_frame [of _ st st' r] obtain ps where
    "fst (pages_back st) = (fst st)\<lparr>acb_context_pages := ps\<rparr>" "w_quota (snd (pages_back st)) = w_quota (snd st)"
    unfolding swap_in_def pages_back_def by fastforce
  then show "adv (fst st) (fst (pages_back st))
      \<and> acb_llm_calls_used (fst (pages_back st)) = acb_llm_calls_used (fst st)
      \<and> w_quota (snd (pages_back st)) = w_quota (snd st)"
    by (simp add: adv_def)
qed

lemma mild_intros [simp]:
  "mild (do_move x)" "mild (do_fail x e)" "mild (take_input m)" "mild (add_child c)"
  "mild (zombify t e)"
  by (auto simp: mild_def adv_def take_input_def add_child_def zombify_def is_terminal_def move_state)

lemma sys_write_simps [simp]:
  "agent_at (sys_write p st s) = (agent_at s)(p \<mapsto> fst st)"
  "sy_queue (sys_write p st s) = sy_queue s" "sy_stop (sys_write p st s) = sy_stop s"
  "sy_bus (sys_write p st s) = sy_bus s" "sy_busy (sys_write p st s) = sy_busy s"
  "sy_spawning (sys_write p st s) = sy_spawning s" "sy_world (sys_write p st s) = snd st"
  "quota_of (sys_write p st s) = w_quota (snd st)"
  by (auto simp: sys_write_def agent_at_def obj_write_def quota_of_def)

lemma on_agent_simps [simp]:
  "sy_queue (on_agent p f s) = sy_queue s" "sy_stop (on_agent p f s) = sy_stop s"
  "sy_bus (on_agent p f s) = sy_bus s" "sy_busy (on_agent p f s) = sy_busy s"
  "sy_spawning (on_agent p f s) = sy_spawning s"
  by (simp_all add: on_agent_def split: option.splits)

lemma on_quota_simps [simp]:
  "agent_at (on_quota q s) = agent_at s"
  "sy_queue (on_quota q s) = sy_queue s" "sy_stop (on_quota q s) = sy_stop s"
  "sy_bus (on_quota q s) = sy_bus s" "sy_busy (on_quota q s) = sy_busy s"
  "sy_spawning (on_quota q s) = sy_spawning s" "quota_of (on_quota q s) = q"
  "sy_table (on_quota q s) = sy_table s"
  by (auto simp: on_quota_def agent_at_def quota_of_def)

text \<open>Updates that leave the agents alone.\<close>

lemma agent_at_frame [simp]:
  "agent_at (s\<lparr>sy_queue := q\<rparr>) = agent_at s" "agent_at (s\<lparr>sy_bus := b\<rparr>) = agent_at s"
  "agent_at (s\<lparr>sy_world := w\<rparr>) = agent_at s" "agent_at (s\<lparr>sy_busy := n\<rparr>) = agent_at s"
  "agent_at (s\<lparr>sy_spawning := ps\<rparr>) = agent_at s" "agent_at (s\<lparr>sy_stop := x\<rparr>) = agent_at s"
  "agent_at (s\<lparr>sy_table := snd (table_remove p (sy_table s))\<rparr>) = agent_at s"
  by (auto simp: agent_at_def table_remove_def)

lemma same_agents:
  assumes "agent_at s' = agent_at s"
  shows "advance s s'" "live s' = live s" "calls_at s' = calls_at s"
  using assms by (auto simp: advance_def option.rel_refl live_def calls_at_def fun_eq_iff)

lemma quota_of_frame [simp]:
  "quota_of (s\<lparr>sy_queue := q\<rparr>) = quota_of s" "quota_of (s\<lparr>sy_bus := b\<rparr>) = quota_of s"
  "quota_of (s\<lparr>sy_busy := n\<rparr>) = quota_of s" "quota_of (s\<lparr>sy_spawning := ps\<rparr>) = quota_of s"
  "quota_of (s\<lparr>sy_stop := x\<rparr>) = quota_of s" "quota_of (s\<lparr>sy_table := t\<rparr>) = quota_of s"
  "quota_of (s\<lparr>sy_world := w\<rparr>) = w_quota w"
  by (simp_all add: quota_of_def)

lemma sys_write_advance:
  assumes "agent_at s p = Some a" and "adv a (fst st)"
  shows "advance s (sys_write p st s)"
  unfolding advance_def using assms by (auto simp: option.rel_refl)

lemma sys_write_level:
  assumes "agent_at s p = Some a" and "acb_llm_calls_used (fst st) = acb_llm_calls_used a"
    and "w_quota (snd st) = quota_of s"
  shows "level s (sys_write p st s)"
  using assms by (auto simp: level_def calls_at_def)

lemma on_agent_mild:
  assumes "mild f"
  shows "advance s (on_agent p f s)" and "level s (on_agent p f s)"
proof -
  show "advance s (on_agent p f s)"
    using assms sys_write_advance [of s p] by (auto simp: on_agent_def mild_def split: option.splits)
  show "level s (on_agent p f s)"
    using assms sys_write_level [of s p] by (auto simp: on_agent_def mild_def quota_of_def split: option.splits)
qed

text \<open>Putting back: a live agent joins the queue, a dead one is dropped.\<close>

lemma queue_put_spec:
  assumes "agent_at s p = Some a"
  shows "advance s (queue_put p s)" "level s (queue_put p s)"
    "sy_stop (queue_put p s) = sy_stop s" "sy_busy (queue_put p s) = sy_busy s"
    "sy_spawning (queue_put p s) = sy_spawning s" "sy_bus (queue_put p s) = sy_bus s"
    "rq_in_flight (sy_queue (queue_put p s)) = rq_in_flight (sy_queue s)"
    "rq_q (sy_queue (queue_put p s)) = (if is_terminal a then rq_q (sy_queue s) else rq_q (sy_queue s) @ [p])"
    "is_terminal a \<Longrightarrow> \<not> live (queue_put p s) p"
proof -
  let ?w = "sy_world s"
  have eq: "queue_put p s = (if is_terminal a then s\<lparr>sy_world := tick ?w\<rparr>
      else (sys_write p (move (now_of ?w) READY a, tick ?w) s)
             \<lparr>sy_queue := (sy_queue s)\<lparr>rq_q := rq_q (sy_queue s) @ [p]\<rparr>\<rparr>)"
    using assms by (simp add: queue_put_def rq_put_def agent_at_def sys_write_def)
  have adv: "adv a (move (now_of ?w) READY a)"
    by (simp add: adv_def is_terminal_def move_state)
  show "advance s (queue_put p s)"
    using sys_write_advance [OF assms, of "(move (now_of ?w) READY a, tick ?w)"] adv
    by (simp add: eq advance_def option.rel_refl)
  show "level s (queue_put p s)"
    using sys_write_level [OF assms, of "(move (now_of ?w) READY a, tick ?w)"]
    by (auto simp: eq level_def calls_at_def quota_of_def)
qed (use assms in \<open>auto simp: queue_put_def rq_put_def agent_at_def live_def\<close>)

section \<open>What one step of a worker does\<close>

definition effect :: "wpc \<Rightarrow> sys \<Rightarrow> wpc \<Rightarrow> sys \<Rightarrow> bool" where
  "effect pc s pc' s' \<longleftrightarrow> advance s s' \<and> sy_stop s' = sy_stop s \<and> sy_spawning s' = sy_spawning s
     \<and> rq_in_flight (sy_queue s') - act pc' = rq_in_flight (sy_queue s) - act pc
     \<and> sy_busy s' - calling pc' = sy_busy s - calling pc
     \<and> (\<exists>D. mset (rq_q (sy_queue s')) + own pc' + D = mset (rq_q (sy_queue s)) + own pc
          \<and> (\<forall>p \<in># D. \<not> live s' p \<or> sy_stop s'))
     \<and> pc_ok s' pc'"

definition billing :: "wpc \<Rightarrow> sys \<Rightarrow> wpc \<Rightarrow> sys \<Rightarrow> bool" where
  "billing pc s pc' s' \<longleftrightarrow> q_total (quota_of s') = q_total (quota_of s) \<and> 0 \<le> q_remaining (quota_of s')
     \<and> (\<exists>p d. 0 \<le> d \<and> agent_at s p \<noteq> None \<and> (\<forall>r. calls_at s' r = calls_at s r + (if r = p then d else 0))
          \<and> q_remaining (quota_of s') + held pc' + d = q_remaining (quota_of s) + held pc
        \<or> d = 0 \<and> (\<forall>r. calls_at s' r = calls_at s r)
          \<and> q_remaining (quota_of s') + held pc' = q_remaining (quota_of s) + held pc)"

text \<open>A step is in order: its effect, and its bill when what it holds is covered by the quota.\<close>

definition funded :: "wpc \<Rightarrow> sys \<Rightarrow> bool" where
  "funded pc s \<longleftrightarrow> 0 \<le> q_remaining (quota_of s)
     \<and> q_remaining (quota_of s) + held pc \<le> q_total (quota_of s)"

definition turn :: "wpc \<Rightarrow> sys \<Rightarrow> wpc \<Rightarrow> sys \<Rightarrow> bool" where
  "turn pc s pc' s' \<longleftrightarrow> effect pc s pc' s' \<and> (funded pc s \<longrightarrow> billing pc s pc' s')"

text \<open>The worker keeps its agent, hands it over or takes it up.\<close>

lemma effect_moved:
  assumes "advance s s'" "sy_stop s' = sy_stop s" "sy_spawning s' = sy_spawning s"
    "rq_in_flight (sy_queue s') - act pc' = rq_in_flight (sy_queue s) - act pc"
    "sy_busy s' - calling pc' = sy_busy s - calling pc" "pc_ok s' pc'"
    "mset (rq_q (sy_queue s')) + own pc' = mset (rq_q (sy_queue s)) + own pc"
  shows "effect pc s pc' s'"
  unfolding effect_def using assms by (intro conjI exI [of _ "{#}"]) simp_all

text \<open>The worker lets go of an agent that is dead, or because the pool is stopping.\<close>

lemma effect_dropped:
  assumes "advance s s'" "sy_stop s' = sy_stop s" "sy_spawning s' = sy_spawning s"
    "rq_in_flight (sy_queue s') - act pc' = rq_in_flight (sy_queue s) - act pc"
    "sy_busy s' - calling pc' = sy_busy s - calling pc" "pc_ok s' pc'"
    "rq_q (sy_queue s') = rq_q (sy_queue s)" "own pc = {#p#}" "own pc' = {#}" "\<not> live s' p \<or> sy_stop s'"
  shows "effect pc s pc' s'"
  unfolding effect_def using assms by (intro conjI exI [of _ "{#p#}"]) simp_all

lemma turn_level:
  "effect pc s pc' s' \<Longrightarrow> level s s' \<Longrightarrow> held pc' = held pc \<Longrightarrow> turn pc s pc' s'"
  by (auto simp: turn_def funded_def billing_def level_def)

lemma queue_put_effect:
  assumes "agent_at s p = Some a" and "own pc = {#p#}" "act pc = 1" "calling pc = 0"
  shows "effect pc s Finishing (queue_put p s)"
proof (cases "is_terminal a")
  case True
  then show ?thesis
    using queue_put_spec [OF assms(1)] assms by (intro effect_dropped [of _ _ _ _ p]) auto
next
  case False
  then show ?thesis
    using queue_put_spec [OF assms(1)] assms by (intro effect_moved) auto
qed

lemma loop_top_effect:
  assumes "loop_top wp notified s = (pc', s')"
  shows "effect Idle s pc' s' \<and> level s s' \<and> held pc' = 0"
proof (cases "sy_stop s \<or> \<not> rq_wait_nonempty notified (sy_queue s)")
  case True
  with assms show ?thesis
    by (auto simp: loop_top_def split: if_splits intro!: effect_moved)
next
  case False
  let ?pick = "pick_next (wp_scheduler wp) (sy_table s) (now_of (sy_world s)) (sy_queue s)"
  let ?s' = "s\<lparr>sy_queue := snd ?pick, sy_world := tick (sy_world s)\<rparr>"
  have ags: "agent_at ?s' = agent_at s" and "quota_of ?s' = quota_of s"
    by (simp_all add: agent_at_def quota_of_def)
  then have lev: "level s ?s'" by (simp add: level_def same_agents(3) [OF ags])
  show ?thesis
  proof (cases "rq_q (sy_queue s) = []")
    case True
    then have "?pick = (None, sy_queue s)" by (rule disp.pick_empty)
    with assms False lev same_agents(1) [OF ags] show ?thesis
      by (auto simp: loop_top_def split: prod.splits intro!: effect_moved)
  next
    case nonempty: False
    from disp.pick_nonempty [OF this] obtain p where "p \<in> set (rq_q (sy_queue s))" and
      eq: "?pick = (Some p, (sy_queue s)\<lparr>rq_q := remove1 p (rq_q (sy_queue s)),
             rq_in_flight := rq_in_flight (sy_queue s) + 1\<rparr>)"
      by blast
    with assms False lev same_agents(1) [OF ags] show ?thesis
      by (auto simp: loop_top_def split: prod.splits intro!: effect_moved)
  qed
qed

lemma round_limit_pos: "0 < round_limit wp"
  by (auto simp: round_limit_def nonpreemptive_step_cap_def split: option.splits)

lemma failed_not_live:
  "agent_at s p = Some a \<Longrightarrow> terminal x \<Longrightarrow> \<not> live (on_agent p (do_fail x e) s) p"
  by (simp add: on_agent_def live_def)

lemma dispatch_enter_effect:
  assumes "agent_at s p = Some a" and "dispatch_enter wp p s = (pc', s')"
  shows "effect (Picked p) s pc' s' \<and> level s s' \<and> held pc' = 0"
proof -
  consider "is_terminal a" "pc' = Finishing" "s' = s"
    | "\<not> is_terminal a" "pc' = Loop p (round_limit wp) False" "s' = s"
    | "pc' = Finishing" "s' = on_agent p (do_fail ERROR no_bus_error) s"
    | "pc' = Receiving p" "s' = s"
    using assms by (auto simp: dispatch_enter_def split: if_splits)
  then show ?thesis
  proof cases
    case 1
    with assms(1) show ?thesis by (auto simp: live_def intro!: effect_dropped [of _ _ _ _ p])
  next
    case 2
    then show ?thesis by (auto simp: round_limit_pos intro!: effect_moved)
  next
    case 3
    moreover have "\<not> live s' p" using 3 failed_not_live [OF assms(1)] by (simp add: terminal_def terminal_states_def)
    ultimately show ?thesis
      using on_agent_mild [of "do_fail ERROR no_bus_error" s p] by (auto intro!: effect_dropped [of _ _ _ _ p])
  next
    case 4
    then show ?thesis by (auto intro!: effect_moved)
  qed
qed

lemma receive_input_effect:
  assumes "receive_input wp p s = (pc', s')"
  shows "effect (Receiving p) s pc' s' \<and> level s s' \<and> held pc' = 0"
proof -
  let ?s1 = "s\<lparr>sy_bus := snd (bus_recv p None (sy_bus s))\<rparr>"
  have ags: "agent_at ?s1 = agent_at s" by simp
  have base: "advance s ?s1" "level s ?s1"
    by (simp_all add: same_agents [OF ags] level_def del: agent_at_frame)
  consider "pc' = Reparking p" "s' = ?s1"
    | m where "pc' = Loop p (round_limit wp) False" "s' = on_agent p (take_input m) ?s1"
    using assms by (auto simp: receive_input_def Let_def split: prod.splits option.splits)
  then show ?thesis
  proof cases
    case 1
    with base show ?thesis by (auto intro!: effect_moved)
  next
    case (2 m)
    have m: "advance ?s1 s'" "level ?s1 s'"
      using 2(2) on_agent_mild [of "take_input m" ?s1 p] by simp_all
    with 2 show ?thesis
      using advance_trans [OF base(1) m(1)] level_trans [OF base(2) m(2)]
      by (auto simp: round_limit_pos intro!: effect_moved)
  qed
qed

lemma repark_waiting_effect:
  assumes "agent_at s p = Some a" and "repark_waiting wp p s = (pc', s')"
  shows "effect (Reparking p) s pc' s' \<and> level s s' \<and> held pc' = 0"
proof -
  let ?since = "case acb_waiting_since a of None \<Rightarrow> now_of (sy_world s) | Some t \<Rightarrow> t"
  let ?a1 = "a\<lparr>acb_waiting_since := Some ?since\<rparr>"
  let ?s1 = "sys_write p (?a1, tick (sy_world s)) s"
  let ?lost = "do_fail ERROR (input_lost ?a1 (now_of (sy_world s) - ?since))"
  have s1: "agent_at ?s1 p = Some ?a1" by simp
  have base: "advance s ?s1" "level s ?s1"
    using sys_write_advance [OF assms(1), of "(?a1, tick (sy_world s))"]
      sys_write_level [OF assms(1), of "(?a1, tick (sy_world s))"]
    by (simp_all add: adv_def is_terminal_def quota_of_def)
  consider "pc' = Finishing" "s' = on_agent p ?lost ?s1"
    | "pc' = Requeue p" "s' = on_agent p (do_move WAITING) ?s1"
    using assms by (auto simp: repark_waiting_def Let_def split: if_splits)
  then show ?thesis
  proof cases
    case 1
    have m: "advance ?s1 s'" "level ?s1 s'" using 1(2) on_agent_mild [of ?lost ?s1 p] by simp_all
    moreover have "\<not> live s' p"
      using 1(2) failed_not_live [OF s1] by (simp add: terminal_def terminal_states_def)
    ultimately show ?thesis
      using 1 advance_trans [OF base(1) m(1)] level_trans [OF base(2) m(2)]
      by (auto intro!: effect_dropped [of _ _ _ _ p])
  next
    case 2
    have m: "advance ?s1 s'" "level ?s1 s'"
      using 2(2) on_agent_mild [of "do_move WAITING" ?s1 p] by simp_all
    with 2 show ?thesis
      using advance_trans [OF base(1) m(1)] level_trans [OF base(2) m(2)] by (auto intro!: effect_moved)
  qed
qed

text \<open>A change of the quota alone.\<close>

lemma turn_quota:
  assumes "effect pc s pc' (on_quota q s)" "q_total q = q_total (quota_of s)"
    "funded pc s \<Longrightarrow> 0 \<le> q_remaining q \<and> q_remaining q + held pc' = q_remaining (quota_of s) + held pc"
  shows "turn pc s pc' (on_quota q s)"
  using assms by (auto simp: turn_def billing_def calls_at_def)

lemma on_quota_advance [simp]: "advance s (on_quota q s)"
  by (rule same_agents) simp

lemma loop_round_turn:
  assumes "pc_ok s (Loop p n keep)" and "loop_round p n keep s = (pc', s')"
  shows "turn (Loop p n keep) s pc' s'"
proof (cases "n = 0 \<or> sy_stop s")
  case True
  then have "pc' = After p keep" "s' = s" using assms(2) by (auto simp: loop_round_def split: nat.splits)
  with True assms(1) show ?thesis by (auto intro!: effect_moved turn_level)
next
  case False
  then obtain m where m: "n = Suc m" by (cases n) auto
  show ?thesis
  proof (cases "q_remaining (quota_of s) < 1")
    case True
    with False m assms(2) have "pc' = Short p m" "s' = s" by (simp_all add: loop_round_def acquire_def)
    then show ?thesis by (auto intro!: effect_moved turn_level)
  next
    case free: False
    with False m assms(2) have "pc' = Holding p m"
      "s' = on_quota ((quota_of s)\<lparr>q_remaining := q_remaining (quota_of s) - 1\<rparr>) s"
      by (simp_all add: loop_round_def acquire_def)
    with free show ?thesis by (auto intro!: effect_moved turn_quota)
  qed
qed

lemma wait_quota_turn:
  assumes "wait_quota p n s = (pc', s')"
  shows "turn (Blocked p n) s pc' s'"
  using assms by (auto simp: wait_quota_def funded_def split: if_splits intro!: effect_moved turn_quota)

lemma after_wait_turn:
  assumes "after_wait p n got s = (pc', s')"
  shows "turn (Woken p n got) s pc' s'"
proof -
  consider "got" "pc' = Requeue p" "s' = on_quota (refund 1 (quota_of s)) s"
    | "\<not> got" "pc' = Requeue p" "s' = s"
    | "got" "pc' = Holding p n" "s' = s"
    using assms by (auto simp: after_wait_def split: if_splits)
  then show ?thesis
  proof cases
    case 1
    then show ?thesis by (auto simp: refund_def funded_def intro!: effect_moved turn_quota)
  qed (auto intro!: effect_moved turn_level)
qed

lemma settle_turn:
  assumes "agent_at s p = Some a" and "pc_ok s (Called p n made keep)"
    and "settle p n made keep s = (pc', s')"
  shows "turn (Called p n made keep) s pc' s'"
proof -
  let ?s1 = "if made then s else on_quota (refund 1 (quota_of s)) s"
  have ags: "agent_at ?s1 = agent_at s" by simp
  have s': "s' = ?s1" and pc': "pc' = (if is_terminal a \<or> \<not> keep then After p keep else Loop p n keep)"
    using assms(1,3) by (auto simp: settle_def Let_def split: if_splits)
  have eff: "effect (Called p n made keep) s pc' s'"
    unfolding s' using assms(1,2) same_agents(2) [OF ags]
    by (auto simp: pc' live_def intro!: effect_moved)
  have "held pc' = 0" by (simp add: pc')
  with eff show ?thesis
    unfolding s' by (cases made) (auto simp: refund_def funded_def intro!: turn_level turn_quota)
qed

lemma forward_result_keeps:
  "agent_at (forward_result wp p s) = agent_at s" "sy_queue (forward_result wp p s) = sy_queue s"
  "sy_stop (forward_result wp p s) = sy_stop s" "sy_busy (forward_result wp p s) = sy_busy s"
  "sy_spawning (forward_result wp p s) = sy_spawning s" "quota_of (forward_result wp p s) = quota_of s"
  by (auto simp: forward_result_def Let_def agent_at_def quota_of_def split: option.splits)

lemma forward_result_turn:
  assumes "pc_ok s (After p keep)"
  shows "turn (After p keep) s (Yielding p keep) (forward_result wp p s)"
  using assms forward_result_keeps [of wp p s] same_agents [OF forward_result_keeps(1) [of wp p s]]
  by (auto simp: level_def intro!: effect_moved turn_level)

lemma queue_put_turn:
  assumes "agent_at s p = Some a" and "own pc = {#p#}" "act pc = 1" "calling pc = 0" "held pc = 0"
  shows "turn pc s Finishing (queue_put p s)"
  using queue_put_effect [OF assms(1-4)] queue_put_spec(2) [OF assms(1)] assms(5) by (auto intro: turn_level)

lemma yield_rest_turn:
  assumes "agent_at s p = Some a" and "pc_ok s (Yielding p keep)"
  shows "turn (Yielding p keep) s Finishing (yield_rest p keep s)"
proof (cases "keep \<and> \<not> is_terminal a")
  case True
  then have "yield_rest p keep s = queue_put p s" using assms(1) by (simp add: yield_rest_def)
  then show ?thesis using queue_put_turn [OF assms(1)] by simp
next
  case False
  then have "yield_rest p keep s = s" and "\<not> live s p \<or> sy_stop s"
    using assms by (auto simp: yield_rest_def live_def)
  then show ?thesis by (auto intro!: effect_dropped [of _ _ _ _ p] turn_level)
qed

lemma task_done_turn:
  assumes "1 \<le> rq_in_flight (sy_queue s)"
  shows "turn Finishing s Idle (task_done s)"
proof -
  have ags: "agent_at (task_done s) = agent_at s" by (simp add: task_done_def)
  have "level s (task_done s)" by (simp add: level_def calls_at_def task_done_def)
  with same_agents(1) [OF ags] assms show ?thesis
    by (intro turn_level effect_moved) (auto simp: task_done_def rq_task_done_def)
qed

lemma busy_frame:
  "advance s (enter_busy s)" "level s (enter_busy s)"
  by (simp_all add: enter_busy_def advance_def level_def calls_at_def option.rel_refl)

section \<open>The invariants are kept\<close>

lemma tally_own_split: "i < length ws \<Longrightarrow> tally own (ws[i := Idle]) + own (ws ! i) = tally own ws"
  using tally_update [of i ws own Idle] by simp

lemma own_claimed: "i < length ws \<Longrightarrow> p \<in># own (ws ! i) \<Longrightarrow> p \<in># claims ws s"
  using tally_own_split [of i ws] by (metis UnCI claims_def set_mset_union)

lemma pc_ok_advance:
  assumes "advance s s'" and "sy_stop s \<longrightarrow> sy_stop s'" and "pc_ok s pc"
  shows "pc_ok s' pc"
  using assms advanceD(2) [OF assms(1)] by (cases pc) auto

lemma claims_shrink:
  assumes "claims ws' s' + D = claims ws s" and "\<forall>p. count (claims ws s) p \<le> 1"
  shows "\<forall>p. count (claims ws' s') p \<le> 1" and "p \<in># claims ws' s' \<Longrightarrow> p \<in># claims ws s"
proof -
  show "\<forall>p. count (claims ws' s') p \<le> 1"
  proof
    fix p
    have "count (claims ws' s') p \<le> count (claims ws s) p"
      unfolding assms(1) [symmetric] by simp
    with assms(2) show "count (claims ws' s') p \<le> 1" by (meson le_trans)
  qed
  show "p \<in># claims ws s" if "p \<in># claims ws' s'"
    unfolding assms(1) [symmetric] using that by simp
qed

text \<open>The common core: agents advance, and what leaves the claims is dead or left at a stop.\<close>

lemma pool_inv_advance:
  assumes inv: "pool_inv (ws, s)" and adv: "advance s s'" and stop: "sy_stop s \<longrightarrow> sy_stop s'"
    and cl: "claims ws' s' + D = claims ws s" and gone: "\<forall>p \<in># D. \<not> live s' p \<or> sy_stop s'"
    and flight: "rq_in_flight (sy_queue s') = tally act ws'" and busy: "sy_busy s' = tally calling ws'"
    and pcs: "\<forall>pc \<in> set ws'. pc_ok s' pc"
  shows "pool_inv (ws', s')"
proof -
  note cs = claims_shrink [OF cl]
  have one: "\<forall>p. count (claims ws s) p \<le> 1" and ex: "\<forall>p. p \<in># claims ws s \<longrightarrow> agent_at s p \<noteq> None"
    and liv: "\<forall>p. live s p \<longrightarrow> sy_stop s \<or> p \<in># claims ws s"
    and ids: "\<forall>p a. agent_at s p = Some a \<longrightarrow> acb_pid a = p"
    using inv by (simp_all add: pool_inv_def)
  have "sy_stop s' \<or> p \<in># claims ws' s'" if "live s' p" for p
  proof (rule ccontr)
    assume no: "\<not> (sy_stop s' \<or> p \<in># claims ws' s')"
    have "live s p" using advanceD(2) [OF adv that] .
    with liv stop no have "p \<in># claims ws' s' + D" unfolding cl by blast
    with no gone that show False by auto
  qed
  moreover have "acb_pid b = p" if "agent_at s' p = Some b" for p b
    using advanceD(3) [OF adv that] ids by (auto simp: adv_def)
  moreover have "agent_at s' p \<noteq> None" if "p \<in># claims ws' s'" for p
    using cs(2) [OF one that] ex advanceD(1) [OF adv, of p] by blast
  ultimately show ?thesis
    using cs(1) [OF one] flight busy pcs by (auto simp: pool_inv_def)
qed

lemma worker_pre:
  assumes "pool_inv (ws, s)" and "i < length ws"
  shows "\<forall>p. p \<in># own (ws ! i) \<longrightarrow> agent_at s p \<noteq> None" and "pc_ok s (ws ! i)"
    and "act (ws ! i) \<le> rq_in_flight (sy_queue s)"
  using assms own_claimed [of i ws _ s] tally_member [of act i ws] act_nonneg
  by (auto simp: pool_inv_def)

lemma pool_inv_effect:
  assumes inv: "pool_inv (ws, s)" and i: "i < length ws" and eff: "effect (ws ! i) s pc' s'"
  shows "pool_inv (ws[i := pc'], s')"
proof -
  obtain D where adv: "advance s s'" and stop: "sy_stop s' = sy_stop s"
    and sp: "sy_spawning s' = sy_spawning s"
    and fl: "rq_in_flight (sy_queue s') - act pc' = rq_in_flight (sy_queue s) - act (ws ! i)"
    and bu: "sy_busy s' - calling pc' = sy_busy s - calling (ws ! i)"
    and D: "mset (rq_q (sy_queue s')) + own pc' + D = mset (rq_q (sy_queue s)) + own (ws ! i)"
    and gone: "\<forall>p \<in># D. \<not> live s' p \<or> sy_stop s'" and ok: "pc_ok s' pc'"
    using eff by (auto simp: effect_def)
  show ?thesis
  proof (rule pool_inv_advance [OF inv adv])
    let ?rest = "tally own (ws[i := Idle]) + mset (sy_spawning s)"
    have "tally own (ws[i := pc']) = tally own (ws[i := Idle]) + own pc'"
      using tally_own_split [of i "ws[i := pc']"] i by simp
    then have "claims (ws[i := pc']) s' + D = mset (rq_q (sy_queue s')) + own pc' + D + ?rest"
      by (simp add: claims_def sp ac_simps)
    also have "\<dots> = claims ws s"
      unfolding D claims_def using tally_own_split [OF i] by (simp add: ac_simps)
    finally show "claims (ws[i := pc']) s' + D = claims ws s" .
    show "rq_in_flight (sy_queue s') = tally act (ws[i := pc'])"
      using fl tally_update [OF i, of act pc'] inv by (simp add: pool_inv_def)
    show "sy_busy s' = tally calling (ws[i := pc'])"
      using bu tally_update [OF i, of calling pc'] inv by (simp add: pool_inv_def)
    show "\<forall>pc \<in> set (ws[i := pc']). pc_ok s' pc"
      using pc_ok_advance [OF adv] stop ok inv set_update_subset_insert [of ws i pc']
      by (auto simp: pool_inv_def)
  qed (use stop gone in auto)
qed

text \<open>A piece of a kernel call that leaves the workers where they are.\<close>

lemma pool_inv_piece:
  assumes inv: "pool_inv (ws, s)" and adv: "advance s s'" and stop: "sy_stop s \<longrightarrow> sy_stop s'"
    and D: "mset (rq_q (sy_queue s')) + mset (sy_spawning s') + D = mset (rq_q (sy_queue s)) + mset (sy_spawning s)"
    and gone: "\<forall>p \<in># D. \<not> live s' p"
    and "rq_in_flight (sy_queue s') = rq_in_flight (sy_queue s)" "sy_busy s' = sy_busy s"
  shows "pool_inv (ws, s')"
proof (rule pool_inv_advance [OF inv adv stop])
  have "claims ws s' + D = mset (rq_q (sy_queue s')) + mset (sy_spawning s') + D + tally own ws"
    by (simp add: claims_def ac_simps)
  then show "claims ws s' + D = claims ws s"
    unfolding D by (simp add: claims_def ac_simps)
  show "\<forall>pc \<in> set ws. pc_ok s' pc"
    using pc_ok_advance [OF adv stop] inv by (auto simp: pool_inv_def)
qed (use assms in \<open>auto simp: pool_inv_def\<close>)

lemma kop_mild:
  assumes "mild f" and "pool_inv (ws, s)"
  shows "pool_inv (ws, on_agent p f s)"
  using on_agent_mild(1) [OF assms(1)] by (rule pool_inv_piece [OF assms(2), where D = "{#}"]) auto

lemma kop_frame:
  assumes "pool_inv (ws, s)" and "agent_at s' = agent_at s" and "sy_stop s \<longrightarrow> sy_stop s'"
    and "sy_queue s' = sy_queue s" "sy_spawning s' = sy_spawning s" "sy_busy s' = sy_busy s"
  shows "pool_inv (ws, s')"
  using same_agents(1) [OF assms(2)] by (rule pool_inv_piece [OF assms(1), where D = "{#}"]) (use assms in auto)

lemma kop_inv:
  assumes inv: "pool_inv (ws, s)" and ok: "kop_ok k s"
  shows "pool_inv (ws, kop_do k s)"
proof (cases k)
  case (KAdd a)
  let ?p = "acb_pid a"
  let ?s' = "s\<lparr>sy_table := \<lparr>pt_objs = (pt_objs (sy_table s))(?p \<mapsto> a), pt_keys = pt_keys (sy_table s) @ [?p]\<rparr>,
               sy_spawning := sy_spawning s @ [?p]\<rparr>"
  have eq: "kop_do k s = ?s'" using ok KAdd by (simp add: table_add_def)
  have fresh: "agent_at s ?p = None" using ok KAdd by simp
  have ags: "agent_at ?s' = (agent_at s)(?p \<mapsto> a)" by (simp add: fun_eq_iff agent_at_def)
  have cl: "claims ws ?s' = claims ws s + {#?p#}" by (simp add: claims_def)
  have new: "?p \<notin># claims ws s" using inv fresh by (auto simp: pool_inv_def)
  have pcs: "pc_ok ?s' pc" if mem: "pc \<in> set ws" for pc
  proof -
    obtain i where "i < length ws" "pc = ws ! i" using mem by (metis in_set_conv_nth)
    then have "?p \<notin># own pc" using new own_claimed [of i ws ?p s] by auto
    moreover have "pc_ok s pc" using inv mem by (simp add: pool_inv_def)
    ultimately show ?thesis using ags by (cases pc) (auto simp: live_def)
  qed
  have "\<forall>p. live ?s' p \<longrightarrow> sy_stop ?s' \<or> p \<in># claims ws ?s'"
    using inv unfolding cl pool_inv_def live_def ags by auto
  then show ?thesis
    unfolding eq using inv new pcs cl ags
    by (auto simp: pool_inv_def not_in_iff)
next
  case (KEnqueue p)
  let ?s1 = "s\<lparr>sy_spawning := remove1 p (sy_spawning s)\<rparr>"
  have p: "p \<in> set (sy_spawning s)" using ok KEnqueue by simp
  then have "p \<in># claims ws s" by (simp add: claims_def)
  then obtain a where a: "agent_at s p = Some a" using inv by (auto simp: pool_inv_def)
  then have a1: "agent_at ?s1 p = Some a" by simp
  note q = queue_put_spec [OF a1]
  have adv: "advance s (queue_put p ?s1)"
    using q(1) by (simp add: advance_def)
  show ?thesis
    unfolding KEnqueue kop_do.simps
    by (rule pool_inv_piece [OF inv adv, where D = "if is_terminal a then {#p#} else {#}"])
       (use q p in \<open>auto simp: ac_simps\<close>)
next
  case (KDequeue p)
  let ?s' = "s\<lparr>sy_queue := snd (rq_pop p (sy_queue s))\<rparr>"
  have "advance s ?s'" by (rule same_agents) simp
  then show ?thesis
    unfolding KDequeue kop_do.simps
    by (rule pool_inv_piece [OF inv, where D = "if p \<in> set (rq_q (sy_queue s)) then {#p#} else {#}"])
       (use ok KDequeue in \<open>auto simp: rq_pop_def live_def\<close>)
next
  case (KUnregister p)
  show ?thesis
    unfolding KUnregister kop_do.simps by (rule kop_frame [OF inv]) auto
next
  case (KDropBox p)
  show ?thesis
    unfolding KDropBox kop_do.simps by (rule kop_frame [OF inv]) auto
next
  case (KTopup n)
  show ?thesis
    unfolding KTopup kop_do.simps by (rule kop_frame [OF inv]) auto
next
  case KStop
  show ?thesis
    unfolding KStop kop_do.simps by (rule kop_frame [OF inv]) auto
qed (use inv in \<open>auto intro: kop_mild\<close>)

lemma pool_inv_thread: "pool_inv (ws, s) \<Longrightarrow> pool_inv (ws @ [Idle], s)"
  by (auto simp: pool_inv_def claims_def)

lemma pool_inv_init: "pool_inv ([], sys_init cap w)"
  by (auto simp: pool_inv_def claims_def sys_init_def rq_init_def live_def agent_at_def table_init_def)

section \<open>The ledger is kept\<close>

lemma all_calls_bump:
  assumes "dom (agent_at s') = dom (agent_at s)" and "finite (dom (agent_at s))" and "agent_at s p \<noteq> None"
    and "\<forall>r. calls_at s' r = calls_at s r + (if r = p then d else 0)"
  shows "all_calls s' = all_calls s + d"
proof -
  have "p \<in> dom (agent_at s)" using assms(3) by auto
  then have "(\<Sum>r \<in> dom (agent_at s). if r = p then d else 0) = d"
    using assms(2) by simp
  then show ?thesis
    by (simp add: all_calls_def assms(1,4) sum.distrib)
qed

lemma all_calls_same:
  assumes "dom (agent_at s') = dom (agent_at s)" and "\<forall>r. calls_at s' r = calls_at s r"
  shows "all_calls s' = all_calls s"
  using assms by (simp add: all_calls_def)

lemma advance_dom: "advance s s' \<Longrightarrow> dom (agent_at s') = dom (agent_at s)"
  by (auto simp: dom_def advanceD(1))

lemma advance_std:
  assumes "advance s s'" and "agent_at s' p = Some b" and "\<forall>p a. agent_at s p = Some a \<longrightarrow> std_pager a"
  shows "std_pager b"
  using advanceD(3) [OF assms(1,2)] assms(3) by (auto simp: adv_def std_pager_def)

text \<open>The shared bookkeeping, in the form the steps of workers and kernel need it.\<close>

lemma ledger_inv_level:
  assumes "ledger_inv (ws, s)" and "advance s s'" and "level s s'"
  shows "ledger_inv (ws, s')"
  using assms advance_dom [OF assms(2)] all_calls_same [of s' s]
  by (auto simp: ledger_inv_def level_def)

lemma ledger_funded:
  assumes "ledger_inv (ws, s)" and "i < length ws"
  shows "funded (ws ! i) s"
proof -
  have "held (ws ! i) \<le> tally held ws" using assms(2) held_nonneg by (intro tally_member) auto
  moreover have "0 \<le> all_calls s"
    unfolding all_calls_def using assms(1) by (intro sum_nonneg) (auto simp: ledger_inv_def)
  ultimately show ?thesis using assms(1) by (auto simp: ledger_inv_def funded_def)
qed

lemma ledger_inv_billing:
  assumes led: "ledger_inv (ws, s)" and i: "i < length ws" and adv: "advance s s'"
    and bill: "billing (ws ! i) s pc' s'"
  shows "ledger_inv (ws[i := pc'], s')"
proof -
  have fin: "finite (dom (agent_at s))" using led by (simp add: ledger_inv_def)
  obtain d where d: "all_calls s' = all_calls s + d" "\<forall>r. 0 \<le> calls_at s' r"
      "q_remaining (quota_of s') + held pc' + d = q_remaining (quota_of s) + held (ws ! i)"
    using bill all_calls_bump [OF advance_dom [OF adv] fin] all_calls_same [OF advance_dom [OF adv]] led
    unfolding billing_def ledger_inv_def by fastforce
  moreover have "tally held (ws[i := pc']) + held (ws ! i) = tally held ws + held pc'"
    using i by (rule tally_update)
  ultimately show ?thesis
    using led bill advance_dom [OF adv] by (auto simp: ledger_inv_def billing_def)
qed

lemma kop_level:
  assumes "kop_ok k s" and "pool_inv (ws, s)" and "\<forall>a. k \<noteq> KAdd a" and "\<forall>n. k \<noteq> KTopup n"
  shows "advance s (kop_do k s) \<and> level s (kop_do k s)"
proof (cases k)
  case (KEnqueue p)
  let ?s1 = "s\<lparr>sy_spawning := remove1 p (sy_spawning s)\<rparr>"
  have "p \<in># claims ws s" using assms(1) KEnqueue by (simp add: claims_def)
  then obtain a where "agent_at s p = Some a" using assms(2) by (auto simp: pool_inv_def)
  then have "agent_at ?s1 p = Some a" by simp
  from queue_put_spec(1,2) [OF this] show ?thesis
    unfolding KEnqueue kop_do.simps by (simp add: advance_def level_def calls_at_def)
qed (use assms(3,4) on_agent_mild in \<open>auto simp: advance_def level_def calls_at_def option.rel_refl\<close>)

lemma kop_ledger:
  assumes led: "ledger_inv (ws, s)" and inv: "pool_inv (ws, s)" and ok: "kop_ok k s"
  shows "ledger_inv (ws, kop_do k s)"
proof (cases k)
  case (KAdd a)
  let ?p = "acb_pid a" and ?s' = "kop_do k s"
  have fresh: "agent_at s ?p = None" and zero: "acb_llm_calls_used a = 0" using ok KAdd by auto
  have ags: "agent_at ?s' = (agent_at s)(?p \<mapsto> a)"
    using ok KAdd by (simp add: fun_eq_iff agent_at_def table_add_def)
  have q: "quota_of ?s' = quota_of s" using ok KAdd by (simp add: table_add_def quota_of_def)
  have calls: "calls_at ?s' r = calls_at s r" for r using fresh zero by (simp add: calls_at_def ags)
  have "dom (agent_at ?s') = insert ?p (dom (agent_at s))" "?p \<notin> dom (agent_at s)"
    using fresh by (auto simp: ags)
  then have "all_calls ?s' = all_calls s"
    using led fresh by (simp add: all_calls_def calls ledger_inv_def) (simp add: calls_at_def)
  then show ?thesis
    using led by (simp add: ledger_inv_def q calls ags)
next
  case (KTopup n)
  have "all_calls (kop_do k s) = all_calls s" by (simp add: KTopup all_calls_def calls_at_def)
  then show ?thesis
    using led ok KTopup by (auto simp: ledger_inv_def topup_def calls_at_def)
qed (use kop_level [OF ok inv] ledger_inv_level [OF led] in auto)

text \<open>A property of agents that steps neither give nor take away.\<close>

definition stable :: "(agent \<Rightarrow> bool) \<Rightarrow> bool" where
  "stable P \<longleftrightarrow> (\<forall>a b. adv a b \<longrightarrow> P a = P b)"

lemma advance_back:
  assumes "stable P" and "advance s s'" and "\<forall>p b. agent_at s' p = Some b \<longrightarrow> P b"
  shows "\<forall>p a. agent_at s p = Some a \<longrightarrow> P a"
proof (intro allI impI)
  fix p a
  assume a: "agent_at s p = Some a"
  then obtain b where b: "agent_at s' p = Some b" using advanceD(1) [OF assms(2), of p] by fastforce
  from advanceD(3) [OF assms(2) b] a have "adv a b" by simp
  with assms(1,3) b show "P a" by (auto simp: stable_def)
qed

text \<open>Agents never leave the store.\<close>

lemma kop_back:
  assumes "kop_ok k s" and "pool_inv (ws, s)" and "stable P" and "\<forall>p a. agent_at (kop_do k s) p = Some a \<longrightarrow> P a"
  shows "\<forall>p a. agent_at s p = Some a \<longrightarrow> P a"
proof (cases "\<exists>a. k = KAdd a")
  case True
  then obtain a where k: "k = KAdd a" by blast
  then have "agent_at (kop_do k s) = (agent_at s)(acb_pid a \<mapsto> a)" "agent_at s (acb_pid a) = None"
    using assms(1) by (simp_all add: fun_eq_iff agent_at_def table_add_def)
  with assms(4) show ?thesis by (metis fun_upd_other option.distinct(1))
next
  case False
  have "advance s (kop_do k s)"
  proof (cases "\<exists>n. k = KTopup n")
    case True
    then show ?thesis by auto
  next
    case top: False
    with False kop_level [OF assms(1,2)] show ?thesis by auto
  qed
  then show ?thesis using assms(4) by (rule advance_back [OF assms(3)])
qed

section \<open>Agents with the standard pager leave the quota alone\<close>

lemma assemble_default_quota:
  "w_quota (snd (fst (assemble env \<lparr>cpg_budget = b, cpg_policies = default_policies m\<rparr> extra st)))
     = w_quota (snd st)"
proof -
  obtain a w where st: "st = (a, w)" by (cases st)
  obtain a' w' r where out: "assemble_with (evict env) (default_policies m) b extra (a, w) = ((a', w'), r)"
    by (metis surj_pair)
  then have "w_quota w' = w_quota w"
  proof (cases rule: assemble_with_result)
    case (raised e)
    from default_loop [OF raised(2)] show ?thesis by simp
  next
    case (sent a1 w1)
    from default_loop [OF sent(2)] sent(4) show ?thesis by simp
  qed
  with out show ?thesis by (simp add: st assemble_def)
qed

lemma std_pagerE:
  assumes "std_pager a"
  obtains b m where "acb_pager a = Some \<lparr>cpg_budget = b, cpg_policies = default_policies m\<rparr>"
  using assms by (auto simp: std_pager_def)

lemma build_messages_quota:
  assumes "std_pager (fst st)"
  shows "w_quota (snd (fst (build_messages env (running st)))) = w_quota (snd st)"
proof -
  obtain b m where "acb_pager (fst st) = Some \<lparr>cpg_budget = b, cpg_policies = default_policies m\<rparr>"
    using assms by (rule std_pagerE)
  moreover have "acb_pager (fst (running st)) = acb_pager (fst st)" by (simp add: running_def)
  ultimately show ?thesis
    by (simp add: build_messages_def pager_for_def assemble_default_quota)
qed

lemma plain_step_quota:
  assumes "std_pager (fst st)"
  shows "w_quota (snd (fst (run_plain_step env st))) = w_quota (snd st)"
  by (cases rule: run_plain_step_cases [of env st]) (simp_all add: build_messages_quota [OF assms] plain_finish_simps(6))

lemma coder_built_quota:
  assumes "std_pager (fst st)"
  shows "w_quota (snd (fst (coder_built c env st))) = w_quota (snd st)"
proof -
  obtain b m where "acb_pager (fst st) = Some \<lparr>cpg_budget = b, cpg_policies = default_policies m\<rparr>"
    using assms by (rule std_pagerE)
  then show ?thesis
    by (simp add: coder_built_def pager_for_def assemble_default_quota)
qed

lemma coder_finish_quota: "w_quota (snd (fst (coder_finish env r st))) = w_quota (snd st)"
proof (cases "acb_state (fst st) = ZOMBIE")
  case True
  then show ?thesis by (simp add: coder_finish_def Let_def)
next
  case False
  let ?st1 = "record_exchange (acb_llm_calls_used (charge r (fst st)) = 1) r (charge r (fst st), snd st)"
  obtain st' x where "coder_act env (cr_content r) ?st1 = (st', x)" by (metis surj_pair)
  with coder_act_agent [OF this] False show ?thesis
    by (simp add: coder_finish_def Let_def)
qed

lemma coder_step_quota:
  assumes "std_pager (fst st)"
  shows "w_quota (snd (fst (run_coder_step env st))) = w_quota (snd st)"
  by (cases rule: run_coder_step_cases [of env st])
     (simp_all add: coder_built_quota [OF assms] coder_finish_quota)

lemma react_messages_quota:
  assumes "std_pager (fst st)"
  shows "w_quota (snd (fst (react_messages env (react_ready st)))) = w_quota (snd st)"
proof -
  obtain b m where "acb_pager (fst st) = Some \<lparr>cpg_budget = b, cpg_policies = default_policies m\<rparr>"
    using assms by (rule std_pagerE)
  then show ?thesis
    by (simp add: react_messages_def react_ready_def running_def set_react_def assemble_default_quota Let_def)
qed

lemma react_ready_quota: "w_quota (snd (react_ready st)) = w_quota (snd st)"
  by (simp add: react_ready_def set_react_def)

lemma react_finish_quota: "w_quota (snd (fst (react_finish env r st))) = w_quota (snd st)"
  using react_finish_spec [of env r st] by (cases "react_finish env r st") auto

lemma react_step_quota:
  assumes "std_pager (fst st)"
  shows "w_quota (snd (fst (run_react_step env st))) = w_quota (snd st)"
  by (cases rule: run_react_step_cases [of st env])
     (simp_all add: react_messages_quota [OF assms] react_finish_quota react_ready_quota set_react_def)

lemma run_step_quota:
  "std_pager a \<Longrightarrow> w_quota (snd (fst (run_step env (a, w)))) = w_quota w"
  using plain_step_quota [of "(a, w)"] coder_step_quota [of "(a, w)"] react_step_quota [of "(a, w)"]
  by (simp add: run_step_def)

section \<open>The contract of a step runner and the pool\<close>

text \<open>
  What the pool relies on for its step runner: a step keeps the identity of the agent, does not
  revive it, makes at most one request, and says that there is no more work only of a
  terminal agent; and the step of a \<open>modest\<close> agent spends the shared quota only through the
  pool.
\<close>

locale pool_runner =
  fixes runner :: step_fun and modest :: "agent \<Rightarrow> bool"
  assumes runner_frame: "step_frame (fst st) (fst (fst (runner env st)))"
    and runner_absorbing: "is_terminal (fst st) \<Longrightarrow> is_terminal (fst (fst (runner env st)))"
    and runner_calls: "calls_between (fst st) (fst (fst (runner env st))) \<in> {0, 1}"
    and runner_done: "snd (runner env st) = Inr False \<Longrightarrow> is_terminal (fst (fst (runner env st)))"
    and keeps_quota: "modest (fst st) \<Longrightarrow> w_quota (snd (fst (runner env st))) = w_quota (snd st)"
    and modest_stable: "stable modest"
begin

text \<open>The state the call leaves, with an exception turned into an error.\<close>

lemma call_runner_unfold:
  assumes "agent_at s p = Some a" and "call_runner runner env p n s = (pc', s')"
  obtains st keep where "s' = leave_busy (sys_write p st s)"
    and "pc' = Called p n (acb_llm_calls_used (fst st) \<noteq> acb_llm_calls_used a) keep"
    and "adv a (fst st)" and "calls_between a (fst st) \<in> {0, 1}" and "keep \<or> is_terminal (fst st)"
    and "modest a \<longrightarrow> w_quota (snd st) = quota_of s"
proof -
  let ?st0 = "(a, sy_world s)"
  obtain st1 r where run: "runner env ?st0 = (st1, r)" by (metis surj_pair)
  have frame: "step_frame a (fst st1)" and absb: "is_terminal a \<Longrightarrow> is_terminal (fst st1)"
    and calls: "calls_between a (fst st1) \<in> {0, 1}"
    and fin: "r = Inr False \<Longrightarrow> is_terminal (fst st1)"
    and q: "modest a \<Longrightarrow> w_quota (snd st1) = quota_of s"
    using runner_frame [of ?st0 env] runner_absorbing [of ?st0 env] runner_calls [of ?st0 env]
      runner_done [of env ?st0] keeps_quota [of ?st0 env] run
    by (simp_all add: quota_of_def)
  show ?thesis
  proof (cases r)
    case (Inl e)
    let ?st = "do_fail ERROR (''worker crash: '' @ exc_str e) st1"
    show ?thesis
    proof (rule that [of ?st False])
      show "s' = leave_busy (sys_write p ?st s)"
        "pc' = Called p n (acb_llm_calls_used (fst ?st) \<noteq> acb_llm_calls_used a) False"
        using assms run Inl by (simp_all add: call_runner_def Let_def)
      show "adv a (fst ?st)" using frame absb by (simp add: adv_def step_frame_def)
      show "calls_between a (fst ?st) \<in> {0, 1}" using calls by (simp add: calls_between_def)
      show "False \<or> is_terminal (fst ?st)" by (simp add: terminal_def terminal_states_def)
      show "modest a \<longrightarrow> w_quota (snd ?st) = quota_of s" using q by simp
    qed
  next
    case (Inr again)
    show ?thesis
    proof (rule that [of st1 again])
      show "s' = leave_busy (sys_write p st1 s)"
        "pc' = Called p n (acb_llm_calls_used (fst st1) \<noteq> acb_llm_calls_used a) again"
        using assms run Inr by (simp_all add: call_runner_def Let_def)
      show "adv a (fst st1)" using frame absb by (simp add: adv_def step_frame_def)
      show "again \<or> is_terminal (fst st1)" using fin Inr by auto
    qed (use calls q in auto)
  qed
qed

lemma call_runner_effect:
  assumes "agent_at s p = Some a" and "call_runner runner env p n s = (pc', s')"
  shows "effect (Calling p n) s pc' s'"
proof -
  obtain st keep where s': "s' = leave_busy (sys_write p st s)"
    and pc': "pc' = Called p n (acb_llm_calls_used (fst st) \<noteq> acb_llm_calls_used a) keep"
    and ad: "adv a (fst st)" and keep: "keep \<or> is_terminal (fst st)"
    using assms by (rule call_runner_unfold)
  have ags: "agent_at s' = (agent_at s)(p \<mapsto> fst st)" by (simp add: s' leave_busy_def)
  have "advance s s'"
    using sys_write_advance [OF assms(1) ad] by (simp add: advance_def ags)
  then show ?thesis
    using keep by (auto simp: pc' s' leave_busy_def live_def intro!: effect_moved)
qed

lemma call_runner_turn:
  assumes "agent_at s p = Some a" and "call_runner runner env p n s = (pc', s')" and "modest a"
  shows "turn (Calling p n) s pc' s'"
proof -
  obtain st keep where s': "s' = leave_busy (sys_write p st s)"
    and pc': "pc' = Called p n (acb_llm_calls_used (fst st) \<noteq> acb_llm_calls_used a) keep"
    and calls: "calls_between a (fst st) \<in> {0, 1}" and q: "modest a \<longrightarrow> w_quota (snd st) = quota_of s"
    using assms(1,2) by (rule call_runner_unfold)
  have ags: "agent_at s' = (agent_at s)(p \<mapsto> fst st)" by (simp add: s' leave_busy_def)
  have "billing (Calling p n) s pc' s'" if "funded (Calling p n) s"
  proof -
    let ?d = "calls_between a (fst st)"
    have q': "w_quota (snd st) = quota_of s" using q assms(3) by simp
    have "\<forall>r. calls_at s' r = calls_at s r + (if r = p then ?d else 0)"
      using assms(1) by (simp add: calls_at_def ags calls_between_def)
    moreover have "q_remaining (quota_of s') + held pc' + ?d = q_remaining (quota_of s) + held (Calling p n)"
      using q' calls by (auto simp: s' pc' leave_busy_def calls_between_def)
    moreover have "quota_of s' = quota_of s" using q' by (simp add: s' leave_busy_def)
    ultimately show ?thesis
      using that calls assms(1) unfolding billing_def funded_def
      by - (intro conjI, simp, simp, rule exI [where x = p], rule exI [where x = ?d], auto)
  qed
  with call_runner_effect [OF assms(1,2)] show ?thesis by (simp add: turn_def)
qed

text \<open>Every program point.\<close>

lemma worker_turn:
  assumes step: "worker_step wp runner notified env pc s = (pc', s')"
    and owns: "\<forall>p. p \<in># own pc \<longrightarrow> agent_at s p \<noteq> None" and ok: "pc_ok s pc"
    and flight: "act pc \<le> rq_in_flight (sy_queue s)"
    and mod: "\<forall>p n a. pc = Calling p n \<and> agent_at s p = Some a \<longrightarrow> modest a"
  shows "turn pc s pc' s'"
proof (cases pc)
  case Idle
  with step loop_top_effect [of wp notified s pc' s'] show ?thesis by (auto intro: turn_level)
next
  case (Picked p)
  with step owns dispatch_enter_effect [of s p _ wp pc' s'] show ?thesis by (auto intro: turn_level)
next
  case (Receiving p)
  with step receive_input_effect [of wp p s pc' s'] show ?thesis by (auto intro: turn_level)
next
  case (Reparking p)
  with step owns repark_waiting_effect [of s p _ wp pc' s'] show ?thesis by (auto intro: turn_level)
next
  case (Loop p n keep)
  with step ok loop_round_turn [of s p n keep pc' s'] show ?thesis by auto
next
  case (Short p n)
  with step on_agent_mild [of "do_move BLOCKED" s p] show ?thesis by (auto intro!: effect_moved turn_level)
next
  case (Blocked p n)
  with step wait_quota_turn [of p n s pc' s'] show ?thesis by simp
next
  case (Woken p n got)
  with step after_wait_turn [of p n got s pc' s'] show ?thesis by simp
next
  case (Holding p n)
  with step busy_frame [of s] show ?thesis by (auto simp: enter_busy_def intro!: effect_moved turn_level)
next
  case (Calling p n)
  with step owns mod call_runner_turn [of s p _ env n pc' s'] show ?thesis by auto
next
  case (Called p n made keep)
  with step owns ok settle_turn [of s p _ n made keep pc' s'] show ?thesis by auto
next
  case (After p keep)
  with step ok forward_result_turn [of s p keep wp] show ?thesis by auto
next
  case (Yielding p keep)
  with step owns ok yield_rest_turn [of s p _ keep] show ?thesis by auto
next
  case (Requeue p)
  with step owns queue_put_turn [of s p _ pc] show ?thesis by auto
next
  case Finishing
  with step flight task_done_turn [of s] show ?thesis by auto
next
  case Exited
  with step show ?thesis by (auto intro!: effect_moved turn_level)
qed

lemma worker_effect:
  assumes step: "worker_step wp runner notified env pc s = (pc', s')"
    and owns: "\<forall>p. p \<in># own pc \<longrightarrow> agent_at s p \<noteq> None" and "pc_ok s pc"
    and "act pc \<le> rq_in_flight (sy_queue s)"
  shows "effect pc s pc' s'"
proof (cases "\<exists>p n. pc = Calling p n")
  case True
  then obtain p n where pc: "pc = Calling p n" by blast
  with step owns call_runner_effect [of s p _ env n pc' s'] show ?thesis by auto
next
  case False
  then show ?thesis using worker_turn [OF assms] by (auto simp: turn_def)
qed

lemma pool_inv_step:
  assumes "pool_step wp runner c c'" and "pool_inv c"
  shows "pool_inv c'"
  using assms
proof cases
  case (worker i ws notified env s pc s')
  then have "effect (ws ! i) s pc s'"
    using worker_effect worker_pre [of ws s i] assms(2) by blast
  then show ?thesis
    using worker assms(2) pool_inv_effect [of ws s i pc s'] by simp
qed (use assms(2) in \<open>simp_all add: kop_inv pool_inv_thread\<close>)

lemma pool_inv_runs:
  assumes "pool_runs wp runner ([], sys_init cap w) c"
  shows "pool_inv c"
  using assms unfolding pool_runs_def
  by (induction rule: rtranclp_induct) (auto simp: pool_inv_init intro: pool_inv_step)

lemma ledger_inv_step:
  assumes "pool_step wp runner c c'" and "pool_inv c" and "ledger_inv c"
    and "\<forall>p a. agent_at (snd c) p = Some a \<longrightarrow> modest a"
  shows "ledger_inv c'"
  using assms(1)
proof cases
  case (worker i ws notified env s pc s')
  have "\<forall>p n a. ws ! i = Calling p n \<and> agent_at s p = Some a \<longrightarrow> modest a" using assms(4) worker(1) by auto
  with worker have t: "turn (ws ! i) s pc s'"
    using worker_turn worker_pre [of ws s i] assms(2) by blast
  moreover have "funded (ws ! i) s" using assms(3) worker by (auto intro: ledger_funded)
  ultimately show ?thesis
    using worker assms(3) ledger_inv_billing [of ws s i s' pc] by (auto simp: turn_def effect_def)
next
  case (kernel k s ws)
  then show ?thesis using kop_ledger assms by auto
next
  case (thread ws s)
  with assms(3) show ?thesis by (auto simp: ledger_inv_def)
qed

lemma modest_step_back:
  assumes "pool_step wp runner c c'" and "pool_inv c"
    and "\<forall>p a. agent_at (snd c') p = Some a \<longrightarrow> modest a"
  shows "\<forall>p a. agent_at (snd c) p = Some a \<longrightarrow> modest a"
  using assms(1)
proof cases
  case (worker i ws notified env s pc s')
  then have "effect (ws ! i) s pc s'"
    using worker_effect worker_pre [of ws s i] assms(2) by blast
  then have "advance s s'" by (simp add: effect_def)
  then show ?thesis using worker assms(3) advance_back [OF modest_stable] by auto
next
  case (kernel k s ws)
  then show ?thesis using kop_back [of k s ws, OF _ _ modest_stable] assms(2,3) by simp
next
  case (thread ws s)
  with assms(3) show ?thesis by simp
qed

lemma ledger_inv_runs:
  assumes "pool_runs wp runner ([], sys_init cap w) c" and "q_remaining (w_quota w) = q_total (w_quota w)"
    and "0 \<le> q_total (w_quota w)" and "\<forall>p a. agent_at (snd c) p = Some a \<longrightarrow> modest a"
  shows "ledger_inv c"
  using assms(1,4) unfolding pool_runs_def
proof (induction rule: rtranclp_induct)
  case base
  show ?case
    using assms(2,3)
    by (simp add: ledger_inv_def sys_init_def all_calls_def agent_at_def table_init_def calls_at_def
        quota_of_def dom_def)
next
  case (step c c')
  have inv: "pool_inv c" using step.hyps(1) by (intro pool_inv_runs) (simp add: pool_runs_def)
  note prev = modest_step_back [OF step.hyps(2) inv step.prems]
  from ledger_inv_step [OF step.hyps(2) inv step.IH [OF prev] prev] show ?case .
qed

end

interpretation pool: pool_runner run_step std_pager
proof unfold_locales
  fix env st
  show "is_terminal (fst st) \<Longrightarrow> is_terminal (fst (fst (run_step env st)))"
    using runner.step_absorbing [of st env] by (simp add: is_terminal_def)
  show "std_pager (fst st) \<Longrightarrow> w_quota (snd (fst (run_step env st))) = w_quota (snd st)"
    using run_step_quota [of "fst st" env "snd st"] by simp
  show "stable std_pager" by (auto simp: stable_def adv_def std_pager_def)
qed (rule runner.step_frame_ok runner.step_calls runner.step_done, assumption?)+

section \<open>Reading the invariants\<close>

lemma claims_two:
  assumes "i < length ws" "j < length ws" "i \<noteq> j"
  shows "own (ws ! i) + own (ws ! j) \<subseteq># tally own ws"
proof -
  have "tally own (ws[i := Idle]) + own (ws ! i) = tally own ws"
    using assms(1) by (rule tally_own_split)
  moreover have "tally own (ws[i := Idle, j := Idle]) + own (ws ! j) = tally own (ws[i := Idle])"
    using tally_own_split [of j "ws[i := Idle]"] assms by simp
  ultimately show ?thesis by (metis add.assoc add.commute mset_subset_eq_add_right)
qed

lemma act_if: "act pc = (if pc \<noteq> Idle \<and> pc \<noteq> Exited then 1 else 0)"
  by (cases pc) auto

lemma calling_if: "calling pc = (if \<exists>p n. pc = Calling p n then 1 else 0)"
  by (cases pc) auto

lemmas tally_act = tally_count [of act, OF act_if]

lemmas tally_calling = tally_count [of calling, OF calling_if]

lemma pool_inv_exclusive:
  assumes "pool_inv (ws, s)"
  shows "distinct (rq_q (sy_queue s))"
    and "i < length ws \<Longrightarrow> j < length ws \<Longrightarrow> p \<in># own (ws ! i) \<Longrightarrow> p \<in># own (ws ! j) \<Longrightarrow> i = j"
    and "i < length ws \<Longrightarrow> p \<in># own (ws ! i) \<Longrightarrow> p \<notin> set (rq_q (sy_queue s))"
proof -
  have one: "count (claims ws s) p \<le> 1" for p using assms by (simp add: pool_inv_def)
  show "distinct (rq_q (sy_queue s))"
    unfolding distinct_count_atmost_1
  proof
    fix p
    have "count (mset (rq_q (sy_queue s))) p \<le> 1" using one [of p] by (simp add: claims_def)
    then show "count (mset (rq_q (sy_queue s))) p = (if p \<in> set (rq_q (sy_queue s)) then 1 else 0)"
      by (auto simp: le_Suc_eq)
  qed
  show "i = j" if "i < length ws" "j < length ws" "p \<in># own (ws ! i)" "p \<in># own (ws ! j)"
  proof (rule ccontr)
    assume "i \<noteq> j"
    from mset_subset_eq_count [OF claims_two [OF that(1,2) this], of p]
    have "count (own (ws ! i)) p + count (own (ws ! j)) p \<le> 1"
      using one [of p] by (simp add: claims_def)
    moreover have "0 < count (own (ws ! i)) p" "0 < count (own (ws ! j)) p" using that by simp_all
    ultimately show False by linarith
  qed
  show "p \<notin> set (rq_q (sy_queue s))" if "i < length ws" "p \<in># own (ws ! i)"
  proof
    assume "p \<in> set (rq_q (sy_queue s))"
    then have "0 < count (mset (rq_q (sy_queue s))) p" by simp
    moreover have "count (own (ws ! i)) p \<le> count (tally own ws) p"
      using tally_own_split [OF that(1)] by (metis mset_subset_eq_add_right mset_subset_eq_count)
    moreover have "0 < count (own (ws ! i)) p" using that by simp
    ultimately show False using one [of p] unfolding claims_def count_union by linarith
  qed
qed

lemma drained_workers:
  assumes "pool_inv (ws, s)" and "rq_is_drained (sy_queue s)"
  shows "pc \<in> set ws \<Longrightarrow> pc = Idle \<or> pc = Exited" and "tally own ws = {#}" and "tally held ws = 0"
proof -
  have "tally act ws = 0" using assms by (simp add: pool_inv_def rq_is_drained_def)
  then have none: "filter (\<lambda>pc. pc \<noteq> Idle \<and> pc \<noteq> Exited) ws = []"
    using tally_act [of ws] by simp
  then show idle: "pc = Idle \<or> pc = Exited" if "pc \<in> set ws" for pc
    using that by (auto simp: filter_empty_conv)
  have "own pc = {#} \<and> held pc = 0" if "pc \<in> set ws" for pc using idle [OF that] by auto
  then have "map own ws = map (\<lambda>_. {#}) ws" "map held ws = map (\<lambda>_. 0) ws" by auto
  then show "tally own ws = {#}" "tally held ws = 0" unfolding tally_def by (simp_all only: sum_list_0)
qed

section \<open>A run of one worker\<close>

text \<open>A worker on its own, for \<open>n\<close> of its steps.\<close>

fun drive :: "worker_pool \<Rightarrow> step_fun \<Rightarrow> env \<Rightarrow> nat \<Rightarrow> wpc \<times> sys \<Rightarrow> wpc \<times> sys" where
  "drive wp runner env 0 c = c"
| "drive wp runner env (Suc n) c = drive wp runner env n (worker_step wp runner True env (fst c) (snd c))"

lemma drive_runs:
  "drive wp runner env n (pc, s) = (pc', s') \<Longrightarrow> pool_runs wp runner ([pc], s) ([pc'], s')"
proof (induction n arbitrary: pc s)
  case (Suc n)
  obtain pc1 s1 where w: "worker_step wp runner True env pc s = (pc1, s1)" by (metis surj_pair)
  have "pool_step wp runner ([pc], s) ([pc][0 := pc1], s1)"
    by (rule worker [of _ _ _ _ True env]) (simp_all add: w)
  moreover have "pool_runs wp runner ([pc1], s1) ([pc'], s')"
    using Suc w by simp
  ultimately show ?case
    unfolding pool_runs_def by (simp add: converse_rtranclp_into_rtranclp)
qed (simp add: pool_runs_def)

definition demo_pool :: worker_pool where
  "demo_pool = \<lparr>wp_scheduler = RoundRobin 2, wp_bus = True, wp_input_deadline_s = None\<rparr>"

definition demo_start :: sys where
  "demo_start = kop_do (KEnqueue 3) (kop_do (KAdd plain_agent) (sys_init 8 (fresh_world 5)))"

definition demo_end :: "wpc \<times> sys" where
  "demo_end = drive demo_pool run_step (calm (answer ''ok'')) 9 (Idle, demo_start)"

lemma demo_runs: "pool_runs demo_pool run_step ([], sys_init 8 (fresh_world 5)) ([fst demo_end], snd demo_end)"
proof -
  let ?step = "pool_step demo_pool run_step" and ?s0 = "sys_init 8 (fresh_world 5)"
  let ?s1 = "kop_do (KAdd plain_agent) ?s0"
  have "?step ([], ?s0) ([Idle], ?s0)" using thread [of demo_pool run_step "[]" ?s0] by simp
  moreover have "?step ([Idle], ?s0) ([Idle], ?s1)"
    by (rule kernel) (simp add: sys_init_def agent_at_def table_init_def plain_agent_def new_agent_def)
  moreover have "?step ([Idle], ?s1) ([Idle], demo_start)"
    unfolding demo_start_def
    by (rule kernel) (simp add: sys_init_def table_add_def table_init_def plain_agent_def new_agent_def)
  moreover have "pool_runs demo_pool run_step ([Idle], demo_start) ([fst demo_end], snd demo_end)"
    by (rule drive_runs [of _ _ "calm (answer ''ok'')" 9]) (simp add: demo_end_def)
  ultimately show ?thesis
    unfolding pool_runs_def by (meson converse_rtranclp_into_rtranclp)
qed

lemma demo_outcome:
  "fst demo_end = Idle" "rq_is_drained (sy_queue (snd demo_end))" "\<not> sy_stop (snd demo_end)"
  "sy_spawning (snd demo_end) = []" "q_remaining (quota_of (snd demo_end)) = 4"
  "map_option acb_state (agent_at (snd demo_end) 3) = Some DONE"
  by code_simp+

lemma drive_std:
  "pool_inv ([pc], s) \<Longrightarrow> \<forall>p a. agent_at s p = Some a \<longrightarrow> std_pager a \<Longrightarrow>
     drive wp run_step env n (pc, s) = (pc', s') \<Longrightarrow> agent_at s' p = Some a \<Longrightarrow> std_pager a"
proof (induction n arbitrary: pc s)
  case (Suc n)
  obtain pc1 s1 where w: "worker_step wp run_step True env pc s = (pc1, s1)" by (metis surj_pair)
  have t: "effect pc s pc1 s1"
    using pool.worker_effect [OF w] worker_pre [OF Suc.prems(1), of 0] by simp
  then have "advance s s1" by (simp add: effect_def)
  then have "\<forall>p a. agent_at s1 p = Some a \<longrightarrow> std_pager a"
    using advance_std Suc.prems(2) by blast
  moreover have "pool_inv ([pc1], s1)"
    using pool_inv_effect [OF Suc.prems(1), of 0 pc1 s1] t by simp
  ultimately show ?case using Suc.IH [of pc1 s1] Suc.prems(3,4) w by simp
qed auto

lemma demo_std: "agent_at (snd demo_end) p = Some a \<Longrightarrow> std_pager a"
proof -
  assume a: "agent_at (snd demo_end) p = Some a"
  let ?s0 = "sys_init 8 (fresh_world 5)" and ?s1 = "kop_do (KAdd plain_agent) (sys_init 8 (fresh_world 5))"
  have ok: "kop_ok (KAdd plain_agent) ?s0"
    by (simp add: sys_init_def agent_at_def table_init_def plain_agent_def new_agent_def)
  have inv0: "pool_inv ([Idle], ?s0)" using pool_inv_thread [OF pool_inv_init] by simp
  have inv1: "pool_inv ([Idle], ?s1)" using inv0 ok by (rule kop_inv)
  have ok1: "kop_ok (KEnqueue 3) ?s1"
    by (simp add: sys_init_def table_add_def table_init_def plain_agent_def new_agent_def)
  have inv2: "pool_inv ([Idle], demo_start)" unfolding demo_start_def using inv1 ok1 by (rule kop_inv)
  have std1: "\<forall>p a. agent_at ?s1 p = Some a \<longrightarrow> std_pager a"
    by (auto simp: sys_init_def agent_at_def table_add_def table_init_def plain_agent_def std_pager_def
        split: if_splits)
  have "advance ?s1 demo_start"
    using kop_level [OF ok1 inv1] by (simp add: demo_start_def)
  then have "\<forall>p a. agent_at demo_start p = Some a \<longrightarrow> std_pager a"
    using advance_std std1 by blast
  then show ?thesis
    using drive_std [OF inv2, of demo_pool "calm (answer ''ok'')" 9 "fst demo_end" "snd demo_end" p a] a
    by (simp add: demo_end_def)
qed

section \<open>Properties\<close>

text \<open>
  C3. One worker per agent, in every interleaving of any number of workers with spawns, kills,
  reaps, top-ups and shutdown: no agent is queued twice, none is handled by two workers, none
  is queued while a worker handles it; the queue's in-flight counter is the number of workers
  between taking an agent and its \<open>task_done\<close>, and \<open>busy\<close> is the number of workers
  inside the step runner.
\<close>

theorem pool_exclusive_ownership:
  assumes "pool_runs wp run_step ([], sys_init cap w) (ws, s)"
  shows "distinct (rq_q (sy_queue s))
    \<and> (\<forall>i j p. i < length ws \<longrightarrow> j < length ws \<longrightarrow> p \<in># own (ws ! i) \<longrightarrow> p \<in># own (ws ! j) \<longrightarrow> i = j)
    \<and> (\<forall>i p. i < length ws \<longrightarrow> p \<in># own (ws ! i) \<longrightarrow> p \<notin> set (rq_q (sy_queue s)))
    \<and> rq_in_flight (sy_queue s) = int (length (filter (\<lambda>pc. pc \<noteq> Idle \<and> pc \<noteq> Exited) ws))
    \<and> sy_busy s = int (length (filter (\<lambda>pc. \<exists>p n. pc = Calling p n) ws))"
proof -
  have inv: "pool_inv (ws, s)" using assms by (rule pool.pool_inv_runs)
  then have "rq_in_flight (sy_queue s) = tally act ws" "sy_busy s = tally calling ws"
    by (simp_all add: pool_inv_def)
  then have "rq_in_flight (sy_queue s) = int (length (filter (\<lambda>pc. pc \<noteq> Idle \<and> pc \<noteq> Exited) ws))"
    "sy_busy s = int (length (filter (\<lambda>pc. \<exists>p n. pc = Calling p n) ws))"
    by (simp_all only: tally_act tally_calling)
  then show ?thesis
    using pool_inv_exclusive [OF inv] by (intro conjI allI impI)
qed

theorem pool_exclusive_ownership_witness:
  "distinct (rq_q (sy_queue (snd demo_end))) \<and> rq_in_flight (sy_queue (snd demo_end)) = 0"
  using pool_exclusive_ownership [OF demo_runs] by (simp add: demo_outcome)

text \<open>
  Idle means finished. In every interleaving, when the queue reports drained (what
  \<open>wait_idle\<close> waits for), the pool is not shutting down and no spawn is half way, every
  agent ever spawned has reached a terminal state: none was lost between a worker and the
  queue, and no work is hidden in a worker.
\<close>

theorem idle_means_finished:
  assumes "pool_runs wp run_step ([], sys_init cap w) (ws, s)"
    and "rq_is_drained (sy_queue s)" and "\<not> sy_stop s" and "sy_spawning s = []"
    and "agent_at s p = Some a"
  shows "is_terminal a"
proof -
  have inv: "pool_inv (ws, s)" using assms(1) by (rule pool.pool_inv_runs)
  have "claims ws s = {#}"
    using drained_workers(2) [OF inv assms(2)] assms(2,4) by (simp add: claims_def rq_is_drained_def)
  then have "\<not> live s p" using inv assms(3) by (auto simp: pool_inv_def)
  then show ?thesis using assms(5) by (simp add: live_def)
qed

theorem idle_means_finished_witness:
  "\<exists>a. agent_at (snd demo_end) 3 = Some a \<and> acb_state a = DONE \<and> is_terminal a"
proof -
  obtain a where a: "agent_at (snd demo_end) 3 = Some a" "acb_state a = DONE"
    using demo_outcome(6) by auto
  with idle_means_finished [OF demo_runs demo_outcome(2-4) a(1)] show ?thesis by blast
qed

text \<open>
  C4. The global quota is charged exactly. In every interleaving of workers whose agents use the
  kernel's standard pager, with spawns, kills, reaps, top-ups and shutdown, the units used are
  the LLM requests all agents have made plus the units workers hold at that moment; nothing is
  overdrawn, and when the queue is drained the units used are exactly the requests made: steps
  that made no request, crashes, denials and shutdowns while waiting leak nothing.
\<close>

theorem quota_charged_exactly:
  assumes "pool_runs wp run_step ([], sys_init cap w) (ws, s)"
    and "q_remaining (w_quota w) = q_total (w_quota w)" and "0 \<le> q_total (w_quota w)"
    and "\<forall>p a. agent_at s p = Some a \<longrightarrow> std_pager a"
  shows "q_total (quota_of s) - q_remaining (quota_of s) = all_calls s + tally held ws
    \<and> 0 \<le> q_remaining (quota_of s) \<and> 0 \<le> tally held ws \<and> tally held ws \<le> int (length ws)
    \<and> (rq_is_drained (sy_queue s) \<longrightarrow> q_total (quota_of s) - q_remaining (quota_of s) = all_calls s)"
proof -
  have inv: "pool_inv (ws, s)" using assms(1) by (rule pool.pool_inv_runs)
  have "ledger_inv (ws, s)" using pool.ledger_inv_runs [OF assms(1-3)] assms(4) by simp
  moreover have "tally held ws \<le> int (length ws)"
    unfolding tally_def using sum_list_mono [of ws held "\<lambda>_. 1"] held_le
    by (simp add: sum_list_triv)
  moreover have "0 \<le> tally held ws" using held_nonneg by (rule tally_nonneg)
  ultimately show ?thesis
    using drained_workers(3) [OF inv] by (auto simp: ledger_inv_def)
qed

theorem quota_charged_exactly_witness:
  "all_calls (snd demo_end) = 1 \<and> q_total (quota_of (snd demo_end)) = 5"
proof -
  have q: "q_total (quota_of (snd demo_end)) = 5" by code_simp
  have "agent_at (snd demo_end) p = Some a \<Longrightarrow> std_pager a" for p a
    using demo_std [of p a] .
  then have "q_total (quota_of (snd demo_end)) - q_remaining (quota_of (snd demo_end)) = all_calls (snd demo_end)"
    using quota_charged_exactly [OF demo_runs] demo_outcome(2) by (simp add: fresh_world_def)
  with q demo_outcome(5) show ?thesis by simp
qed

end
