(* ===== verification/Process_Safety.thy ===== *)
theory Process_Safety
  imports Process_Pool Pool_Safety
begin

text \<open>
  Safety of the process back end: the report of a child arrives exactly or not at all, the
  global budget is never exceeded in any interleaving, and the one way in which a result is
  forwarded twice.
\<close>

section \<open>Reports through the pipe\<close>

lemma write_report_prefix: "prefix (write_report ns view) view"
proof (induction ns view rule: write_report.induct)
  case (2 n ns view)
  show ?case
  proof (cases "view = []")
    case False
    then have "prefix (write_report ns (drop (max 1 n) view)) (drop (max 1 n) view)" by (rule 2)
    then have "prefix (take (max 1 n) view @ write_report ns (drop (max 1 n) view))
        (take (max 1 n) view @ drop (max 1 n) view)" by (simp only: same_prefix_prefix)
    with False show ?thesis by (simp only: write_report.simps append_take_drop_id if_False)
  qed simp
qed simp

lemma write_report_all: "length view \<le> length ns \<Longrightarrow> write_report ns view = view"
proof (induction ns view rule: write_report.induct)
  case (2 n ns view)
  show ?case
  proof (cases "view = []")
    case False
    then have "length (drop (max 1 n) view) \<le> length ns" using "2.prems" by (cases view) auto
    with 2 False show ?thesis by simp
  qed simp
qed simp

lemma read_report_all: "concat (read_report ns s) = s"
proof (induction ns s rule: read_report.induct)
  case (1 ns s)
  then show ?case by (subst read_report.simps) (simp add: Let_def)
qed

lemma state_of_value_inverse: "state_of_value (state_value s) = Some s"
  by (cases s) (simp_all add: state_of_value_def all_states_def)

lemma payload_nonempty [simp]: "child_payload a \<noteq> []" "crash_payload e a \<noteq> []"
  by (simp_all add: child_payload_def crash_payload_def)

definition payload_obj :: "(string \<times> atom) list \<Rightarrow> (string \<times> jvalue) list" where
  "payload_obj kvs = map (\<lambda>kv. (fst kv, atom_value (snd kv))) kvs"

lemma apply_report:
  assumes "kvs \<noteq> []"
  shows "apply_result now (dumps kvs) a =
    (let m = payload_obj kvs; a1 = apply_fields m a
     in (stamp_finish now (if is_terminal a1 then a1 else a1\<lparr>acb_state := reported_state m\<rparr>), Inr True))"
  using loads_dumps [OF assms] by (simp add: apply_result_def payload_obj_def dumps_members Let_def)

lemma terminal_apply_fields [simp]:
  "is_terminal (apply_fields m a) = is_terminal a" "acb_state (apply_fields m a) = acb_state a"
  by (simp_all add: is_terminal_def apply_fields_def)

lemma stamp_finish_simps [simp]:
  "acb_state (stamp_finish now a) = acb_state a" "acb_result (stamp_finish now a) = acb_result a"
  "acb_llm_calls_used (stamp_finish now a) = acb_llm_calls_used a"
  "acb_tokens_used (stamp_finish now a) = acb_tokens_used a" "acb_error (stamp_finish now a) = acb_error a"
  "acb_pid (stamp_finish now a) = acb_pid a"
  by (simp_all add: stamp_finish_def)

lemma opt_atom_value: "atom_value (opt_atom x) = (case x of None \<Rightarrow> JNull | Some s \<Rightarrow> JText s)"
  by (simp add: opt_atom_def split: option.split)

lemma child_fields:
  "obj_get (payload_obj (child_payload c)) ''result'' = Some (atom_value (opt_atom (acb_result c)))"
  "obj_get (payload_obj (child_payload c)) ''error'' = Some (atom_value (opt_atom (acb_error c)))"
  "obj_get (payload_obj (child_payload c)) ''tokens_used'' = Some (JInteger (acb_tokens_used c))"
  "obj_get (payload_obj (child_payload c)) ''llm_calls_used'' = Some (JInteger (acb_llm_calls_used c))"
  "obj_get (payload_obj (child_payload c)) ''state'' = Some (JText (state_value (acb_state c)))"
  by (simp_all add: obj_get_def payload_obj_def child_payload_def)

lemma crash_fields:
  "obj_get (payload_obj (crash_payload e c)) ''result'' = Some (atom_value (opt_atom (acb_result c)))"
  "obj_get (payload_obj (crash_payload e c)) ''error'' = Some (JText (''child crash: '' @ exc_str e))"
  "obj_get (payload_obj (crash_payload e c)) ''tokens_used'' = Some (JInteger (acb_tokens_used c))"
  "obj_get (payload_obj (crash_payload e c)) ''llm_calls_used'' = Some (JInteger (acb_llm_calls_used c))"
  "obj_get (payload_obj (crash_payload e c)) ''state'' = Some (JText ''ERROR'')"
  by (simp_all add: obj_get_def payload_obj_def crash_payload_def)

lemma reported:
  "reported_state (payload_obj (child_payload c)) = acb_state c"
  "reported_state (payload_obj (crash_payload e c)) = ERROR"
  using state_of_value_inverse [of ERROR]
  by (simp_all add: reported_state_def child_fields crash_fields state_of_value_inverse)

text \<open>A complete report, and a report cut short.\<close>

lemma child_main_cases:
  assumes "child_main runner env st = (st', raw, code)"
  obtains "child_loop runner env child_step_cap st = (st', None)" "raw = dumps (child_payload (fst st'))" "code = 0"
  | e where "child_loop runner env child_step_cap st = (st', Some e)" "raw = dumps (crash_payload e (fst st'))" "code = 1"
  using assms by (cases "child_loop runner env child_step_cap st"; cases "snd (child_loop runner env child_step_cap st)")
    (auto simp: child_main_def)

lemma apply_complete:
  assumes "child_main runner env st = (st', raw, code)"
  shows "snd (apply_result now raw a) = Inr True"
    and "acb_llm_calls_used (fst (apply_result now raw a)) = acb_llm_calls_used (fst st')"
    and "acb_tokens_used (fst (apply_result now raw a)) = acb_tokens_used (fst st')"
    and "acb_result (fst (apply_result now raw a)) = (case acb_result (fst st') of None \<Rightarrow> acb_result a | Some r \<Rightarrow> Some r)"
    and "acb_state (fst (apply_result now raw a)) =
      (if is_terminal a then acb_state a else if code = 0 then acb_state (fst st') else ERROR)"
proof -
  from assms have "\<exists>m. apply_result now raw a = (stamp_finish now (if is_terminal a then apply_fields m a
        else (apply_fields m a)\<lparr>acb_state := reported_state m\<rparr>), Inr True)
      \<and> obj_get m ''llm_calls_used'' = Some (JInteger (acb_llm_calls_used (fst st')))
      \<and> obj_get m ''tokens_used'' = Some (JInteger (acb_tokens_used (fst st')))
      \<and> obj_get m ''result'' = Some (atom_value (opt_atom (acb_result (fst st'))))
      \<and> reported_state m = (if code = 0 then acb_state (fst st') else ERROR)"
  proof (cases rule: child_main_cases)
    case 1
    then show ?thesis
      by (intro exI [of _ "payload_obj (child_payload (fst st'))"]) (simp add: apply_report child_fields reported Let_def)
  next
    case (2 e)
    then show ?thesis
      by (intro exI [of _ "payload_obj (crash_payload e (fst st'))"]) (simp add: apply_report crash_fields reported Let_def)
  qed
  then obtain m where m: "apply_result now raw a = (stamp_finish now (if is_terminal a then apply_fields m a
        else (apply_fields m a)\<lparr>acb_state := reported_state m\<rparr>), Inr True)"
    "obj_get m ''llm_calls_used'' = Some (JInteger (acb_llm_calls_used (fst st')))"
    "obj_get m ''tokens_used'' = Some (JInteger (acb_tokens_used (fst st')))"
    "obj_get m ''result'' = Some (atom_value (opt_atom (acb_result (fst st'))))"
    "reported_state m = (if code = 0 then acb_state (fst st') else ERROR)" by blast
  show "snd (apply_result now raw a) = Inr True"
    using m(1) by simp
  show "acb_state (fst (apply_result now raw a)) =
      (if is_terminal a then acb_state a else if code = 0 then acb_state (fst st') else ERROR)"
    using m(1,5) by simp
  show "acb_llm_calls_used (fst (apply_result now raw a)) = acb_llm_calls_used (fst st')"
    "acb_tokens_used (fst (apply_result now raw a)) = acb_tokens_used (fst st')"
    "acb_result (fst (apply_result now raw a)) = (case acb_result (fst st') of None \<Rightarrow> acb_result a | Some r \<Rightarrow> Some r)"
    using m(1-4) by (simp_all add: apply_fields_def opt_atom_value split: option.split)
qed

lemma apply_cut:
  assumes "child_main runner env st = (st', raw, code)" and "strict_prefix got raw"
  shows "snd (apply_result now got a) = Inr False"
    and "acb_llm_calls_used (fst (apply_result now got a)) = acb_llm_calls_used a"
    and "acb_tokens_used (fst (apply_result now got a)) = acb_tokens_used a"
    and "acb_result (fst (apply_result now got a)) = acb_result a"
    and "acb_state (fst (apply_result now got a)) = (if is_terminal a then acb_state a else ERROR)"
proof -
  have "\<exists>kvs. kvs \<noteq> [] \<and> raw = dumps kvs"
    using assms(1) by (cases rule: child_main_cases) (use payload_nonempty in blast)+
  then have "loads got = None" using loads_cut assms(2) by blast
  then show "snd (apply_result now got a) = Inr False"
    "acb_llm_calls_used (fst (apply_result now got a)) = acb_llm_calls_used a"
    "acb_tokens_used (fst (apply_result now got a)) = acb_tokens_used a"
    "acb_result (fst (apply_result now got a)) = acb_result a"
    "acb_state (fst (apply_result now got a)) = (if is_terminal a then acb_state a else ERROR)"
    by (simp_all add: apply_result_def fail_if_live_def set_error_def move_state)
qed

section \<open>The budget\<close>

text \<open>The units a worker has reserved, and the requests of its child that are not settled yet.\<close>

fun reserved :: "qpc \<Rightarrow> int" where
  "reserved (QRunning p rv a q pager) = rv_reserve rv"
| "reserved (QReading p rv raw n) = rv_reserve rv"
| "reserved pc = 0"

fun unsettled :: "qpc \<Rightarrow> int" where
  "unsettled (QReading p rv raw n) = n"
| "unsettled pc = 0"

fun qpc_ok :: "qpc \<Rightarrow> bool" where
  "qpc_ok (QRunning p rv a q pager) =
     (0 \<le> rv_reserve rv \<and> acb_quota_remaining a = rv_reserve rv \<and> acb_llm_calls_used a = rv_before rv)"
| "qpc_ok (QReading p rv raw n) =
     (0 \<le> n \<and> n \<le> rv_reserve rv
      \<and> (\<forall>now a. snd (apply_result now raw a) = Inr False
           \<or> snd (apply_result now raw a) = Inr True
             \<and> acb_llm_calls_used (fst (apply_result now raw a)) = rv_before rv + n))"
| "qpc_ok pc = True"

definition budget_inv :: "qpc list \<times> psys \<Rightarrow> bool" where
  "budget_inv c = (case c of (ws, s) \<Rightarrow>
     q_total (quota_of (ps_sys s)) - q_remaining (quota_of (ps_sys s)) = tally reserved ws + ps_spent s
     \<and> 0 \<le> q_remaining (quota_of (ps_sys s))
     \<and> ps_calls s \<le> ps_spent s + tally unsettled ws \<and> 0 \<le> ps_spent s
     \<and> (\<forall>pc \<in> set ws. qpc_ok pc))"

lemma reserved_nonneg: "qpc_ok pc \<Longrightarrow> 0 \<le> reserved pc"
  by (cases pc) auto

lemma unsettled_le: "qpc_ok pc \<Longrightarrow> unsettled pc \<le> reserved pc"
  by (cases pc) auto

lemma tally_le_ok: "\<forall>pc \<in> set ws. qpc_ok pc \<Longrightarrow> tally unsettled ws \<le> tally reserved ws"
  by (induction ws) (auto simp: tally_def intro: add_mono unsettled_le)

lemma tally_reserved_ok: "\<forall>pc \<in> set ws. qpc_ok pc \<Longrightarrow> 0 \<le> tally reserved ws"
  by (induction ws) (auto simp: tally_def dest: reserved_nonneg)

lemma tally_reserved_member:
  "\<forall>pc \<in> set ws. qpc_ok pc \<Longrightarrow> i < length ws \<Longrightarrow> reserved (ws ! i) \<le> tally reserved ws"
proof (induction ws arbitrary: i)
  case (Cons pc ws)
  then show ?case
    using reserved_nonneg [of pc] tally_reserved_ok [of ws] by (cases i) (fastforce simp: tally_def)+
qed simp

text \<open>A step of a worker that touches neither the quota nor the ledger.\<close>

lemma budget_inv_same:
  assumes "budget_inv (ws, s)" and "i < length ws" and "quota_of (ps_sys s') = quota_of (ps_sys s)"
    and "ps_spent s' = ps_spent s" and "ps_calls s' = ps_calls s"
    and "reserved (ws ! i) = 0" and "unsettled (ws ! i) = 0" and "reserved pc = 0" and "unsettled pc = 0"
    and "qpc_ok pc"
  shows "budget_inv (ws[i := pc], s')"
  using assms tally_update [OF assms(2), of reserved pc] tally_update [OF assms(2), of unsettled pc]
    set_update_subset_insert [of ws i pc]
  by (auto simp: budget_inv_def)

lemma loop_top_quota: "quota_of (snd (loop_top wp notified s)) = quota_of s"
  using loop_top_effect [of wp notified s] by (cases "loop_top wp notified s") (auto simp: level_def)

lemma receive_input_quota: "quota_of (snd (receive_input wp p s)) = quota_of s"
  using receive_input_effect [of wp p s] by (cases "receive_input wp p s") (auto simp: level_def)

lemma repark_waiting_quota: "quota_of (snd (repark_waiting wp p s)) = quota_of s"
proof (cases "agent_at s p")
  case (Some a)
  then show ?thesis
    using repark_waiting_effect [of s p a wp] by (cases "repark_waiting wp p s") (auto simp: level_def)
qed (simp add: repark_waiting_def)

lemma queue_put_quota: "quota_of (queue_put p s) = quota_of s"
  by (simp add: queue_put_def quota_of_def split: prod.split)

lemma on_agent_quota: "mild f \<Longrightarrow> quota_of (on_agent p f s) = quota_of s"
  using on_agent_mild(2) [of f s p] by (simp add: level_def)

lemma start_if_new_quota: "quota_of (start_if_new p s) = quota_of s"
  by (simp add: start_if_new_def on_agent_quota split: option.split)

lemma busy_quota: "quota_of (enter_busy s) = quota_of s" "quota_of (leave_busy s) = quota_of s"
    "quota_of (task_done s) = quota_of s"
  by (simp_all add: enter_busy_def leave_busy_def task_done_def)

lemmas same_quota = loop_top_quota receive_input_quota repark_waiting_quota queue_put_quota on_agent_quota
  start_if_new_quota busy_quota forward_result_keeps(6)

lemma after_pcs [simp]:
  "reserved (after_top pc) = 0" "unsettled (after_top pc) = 0" "qpc_ok (after_top pc)"
  "reserved (after_receive p pc) = 0" "unsettled (after_receive p pc) = 0" "qpc_ok (after_receive p pc)"
  "reserved (after_repark p pc) = 0" "unsettled (after_repark p pc) = 0" "qpc_ok (after_repark p pc)"
  by (cases pc; simp)+

text \<open>What a child can have done within its budget.\<close>

lemma child_loop_calls:
  assumes "child_loop run_step env cap (a, w) = (st, r)" and "0 \<le> acb_quota_remaining a"
  shows "0 \<le> calls_between a (fst st) \<and> calls_between a (fst st) \<le> acb_quota_remaining a"
proof (cases "e_factory env")
  case (Inl e)
  with assms show ?thesis by (auto simp: child_loop_def calls_between_def)
next
  case (Inr c)
  then have "run_steps (run_step (child_env c env)) cap (a, w) = (st, r)" using assms(1) by (simp add: child_loop_def)
  from runner.steps_spec [OF _ this] assms(2) show ?thesis by auto
qed

lemma child_run_ok:
  assumes "child_run run_step env fate (a, w) = (st, raw)" and "0 \<le> acb_quota_remaining a"
  shows "0 \<le> calls_between a (fst st) \<and> calls_between a (fst st) \<le> acb_quota_remaining a
    \<and> (\<forall>now b. snd (apply_result now raw b) = Inr False
        \<or> snd (apply_result now raw b) = Inr True
          \<and> acb_llm_calls_used (fst (apply_result now raw b)) = acb_llm_calls_used a + calls_between a (fst st))"
proof (cases fate)
  case (KilledRunning k)
  obtain st1 r where "child_loop run_step env (min k child_step_cap) (a, w) = (st1, r)" by fastforce
  with child_loop_calls [OF this assms(2)] assms(1) KilledRunning show ?thesis
    by (simp add: child_run_def apply_result_def)
next
  case Completes
  then obtain code where main: "child_main run_step env (a, w) = (st, raw, code)"
    using assms(1) by (auto simp: child_run_def split: prod.splits)
  then obtain r where "child_loop run_step env child_step_cap (a, w) = (st, r)" by (cases rule: child_main_cases) auto
  with child_loop_calls [OF this assms(2)] apply_complete(1,2) [OF main] show ?thesis
    by (simp add: calls_between_def)
next
  case (KilledWriting ns)
  then obtain raw1 code where main: "child_main run_step env (a, w) = (st, raw1, code)" and raw: "raw = write_report ns raw1"
    using assms(1) by (auto simp: child_run_def split: prod.splits)
  then obtain r where loop: "child_loop run_step env child_step_cap (a, w) = (st, r)" by (cases rule: child_main_cases) auto
  have "raw = raw1 \<or> strict_prefix raw raw1" using write_report_prefix [of ns raw1] raw by auto
  then show ?thesis
    using child_loop_calls [OF loop assms(2)] apply_complete(1,2) [OF main] apply_cut(1) [OF main]
    by (auto simp: calls_between_def)
qed

lemma budget_inv_change:
  assumes inv: "budget_inv (ws, s)" and i: "i < length ws" and ok: "qpc_ok pc"
    and tot: "q_total (quota_of (ps_sys s')) = q_total (quota_of (ps_sys s))"
    and rem: "q_remaining (quota_of (ps_sys s')) + reserved pc + ps_spent s'
      = q_remaining (quota_of (ps_sys s)) + reserved (ws ! i) + ps_spent s"
    and calls: "ps_calls s' + ps_spent s + unsettled (ws ! i) \<le> ps_calls s + ps_spent s' + unsettled pc"
    and pos: "0 \<le> q_remaining (quota_of (ps_sys s'))" "0 \<le> ps_spent s'"
  shows "budget_inv (ws[i := pc], s')"
proof -
  have "\<forall>x \<in> set (ws[i := pc]). qpc_ok x"
    using inv ok set_update_subset_insert [of ws i pc] by (auto simp: budget_inv_def)
  moreover have "tally reserved (ws[i := pc]) + reserved (ws ! i) = tally reserved ws + reserved pc"
    "tally unsettled (ws[i := pc]) + unsettled (ws ! i) = tally unsettled ws + unsettled pc"
    using tally_update [OF i] by blast+
  ultimately show ?thesis using inv tot rem calls pos by (simp add: budget_inv_def)
qed

lemma reserve_and_fork_inv:
  assumes inv: "budget_inv (ws, s)" and i: "i < length ws" and pc: "ws ! i = QReserving p"
    and step: "reserve_and_fork host cpid p s = (pc', s')"
  shows "budget_inv (ws[i := pc'], s')"
proof (cases "agent_at (ps_sys s) p")
  case None
  with step show ?thesis using budget_inv_same [OF inv i] pc by (auto simp: reserve_and_fork_def)
next
  case (Some a)
  let ?q = "quota_of (ps_sys s)"
  have pos: "0 \<le> q_remaining ?q" "0 \<le> ps_spent s" using inv by (auto simp: budget_inv_def)
  obtain r q where rq: "reserve_quota a ?q = (r, q)" by fastforce
  have q: "q_total q = q_total ?q" "q_remaining q = q_remaining ?q - max 0 (min (acb_quota_remaining a) (q_remaining ?q))"
    using rq by (auto simp: reserve_quota_def acquire_up_to_def Let_def split: if_splits)
  show ?thesis
  proof (cases r)
    case None
    then have "max 0 (min (acb_quota_remaining a) (q_remaining ?q)) = 0"
      using rq by (auto simp: reserve_quota_def acquire_up_to_def Let_def split: if_splits)
    then have "q = ?q" using q by (cases q; cases ?q) auto
    with step Some None rq show ?thesis
      using budget_inv_same [OF inv i, of s' pc'] pc by (auto simp: reserve_and_fork_def)
  next
    case (Some rv)
    then have rv: "rv_reserve rv = max 0 (min (acb_quota_remaining a) (q_remaining ?q))"
      "rv_before rv = acb_llm_calls_used a"
      using rq by (auto simp: reserve_quota_def acquire_up_to_def Let_def split: if_splits)
    have out: "pc' = QRunning p rv (set_budget (rv_reserve rv) a) q (w_default_pager (sy_world (ps_sys s)))"
      "quota_of (ps_sys s') = q" "ps_spent s' = ps_spent s" "ps_calls s' = ps_calls s"
      using step \<open>agent_at (ps_sys s) p = Some a\<close> Some rq
      by (auto simp: reserve_and_fork_def Let_def quota_of_def sys_write_def split: prod.splits option.splits)
    show ?thesis
      by (rule budget_inv_change [OF inv i]) (use out rv q pc pos in \<open>auto simp: set_budget_def\<close>)
  qed
qed

lemma run_child_inv:
  assumes inv: "budget_inv (ws, s)" and i: "i < length ws" and pc: "ws ! i = QRunning p rv a q pager"
    and step: "run_child run_step env fate p rv a q pager s = (pc', s')"
  shows "budget_inv (ws[i := pc'], s')"
proof -
  have ok: "0 \<le> rv_reserve rv" "acb_quota_remaining a = rv_reserve rv" "acb_llm_calls_used a = rv_before rv"
    using inv i pc by (fastforce simp: budget_inv_def dest: nth_mem)+
  let ?w = "sy_world (ps_sys s)"
  obtain st raw where run: "child_run run_step env fate (a, ?w\<lparr>w_quota := q, w_default_pager := pager\<rparr>) = (st, raw)"
    by fastforce
  note child = child_run_ok [OF run]
  have out: "pc' = QReading p rv raw (calls_between a (fst st))" "quota_of (ps_sys s') = quota_of (ps_sys s)"
    "ps_spent s' = ps_spent s" "ps_calls s' = ps_calls s + calls_between a (fst st)"
    using step run by (auto simp: run_child_def Let_def quota_of_def)
  have "qpc_ok pc'" using child ok by (simp add: out(1))
  then show ?thesis
    by (rule budget_inv_change [OF inv i]) (use out pc inv in \<open>auto simp: budget_inv_def\<close>)
qed

lemma finish_child_inv:
  assumes inv: "budget_inv (ws, s)" and i: "i < length ws" and pc: "ws ! i = QReading p rv raw n"
    and step: "finish_child p rv raw s = (pc', s')"
  shows "budget_inv (ws[i := pc'], s')"
proof -
  have okpc: "qpc_ok (QReading p rv raw n)" using inv i pc by (fastforce simp: budget_inv_def dest: nth_mem)
  then have n: "0 \<le> n" "n \<le> rv_reserve rv" by simp_all
  let ?q = "quota_of (ps_sys s)"
  have pos: "0 \<le> q_remaining ?q" "0 \<le> ps_spent s"
    and used: "q_total ?q - q_remaining ?q = tally reserved ws + ps_spent s"
    and all: "\<forall>pc \<in> set ws. qpc_ok pc" using inv by (auto simp: budget_inv_def)
  have room: "rv_reserve rv \<le> q_total ?q - q_remaining ?q"
    using tally_reserved_member [OF all i] pc used pos by simp
  show ?thesis
  proof (cases "agent_at (ps_sys s) p")
    case None
    then show ?thesis
      by (intro budget_inv_change [OF inv i]) (use step pc n pos in \<open>auto simp: finish_child_def\<close>)
  next
    case (Some a)
    let ?now = "now_of (sy_world (ps_sys s))"
    obtain a1 r where ap: "apply_result ?now raw a = (a1, r)" by fastforce
    have "snd (apply_result ?now raw a) = Inr False
        \<or> snd (apply_result ?now raw a) = Inr True
          \<and> acb_llm_calls_used (fst (apply_result ?now raw a)) = rv_before rv + n"
      using okpc by simp
    then have res: "r = Inr False \<or> r = Inr True \<and> acb_llm_calls_used a1 = rv_before rv + n" using ap by simp
    moreover have "made_of rv a1 = n" if "acb_llm_calls_used a1 = rv_before rv + n"
      unfolding made_of_def that using n(1) by linarith
    ultimately have "\<exists>completed. r = Inr completed \<and> (completed \<longrightarrow> made_of rv a1 = n)" by blast
    then obtain completed where c: "r = Inr completed" "completed \<longrightarrow> made_of rv a1 = n" by blast
    let ?q' = "settle_quota rv completed a1 ?q"
    have out: "pc' = QLeaving p" "quota_of (ps_sys s') = ?q'" "ps_calls s' = ps_calls s"
      "ps_spent s' = ps_spent s + (if completed then made_of rv a1 else rv_reserve rv)"
      using step Some ap c(1) by (auto simp: finish_child_def Let_def)
    have "q_total ?q' = q_total ?q"
      "q_remaining ?q' = q_remaining ?q + (if completed then rv_reserve rv - n else 0)"
      using c(2) n room by (auto simp: settle_quota_def refund_def)
    with out c n pos show ?thesis
      by (intro budget_inv_change [OF inv i]) (auto simp: pc)
  qed
qed

lemma process_step_inv:
  assumes inv: "budget_inv (ws, s)" and i: "i < length ws"
    and step: "process_step wp run_step host notified env cpid fate (ws ! i) s = (pc', s')"
  shows "budget_inv (ws[i := pc'], s')"
proof (cases "ws ! i")
  case (QReserving p)
  with step reserve_and_fork_inv [OF inv i] show ?thesis by simp
next
  case (QRunning p rv a q pager)
  with step run_child_inv [OF inv i] show ?thesis by simp
next
  case (QReading p rv raw n)
  with step finish_child_inv [OF inv i] show ?thesis by simp
next
  case (QPicked p)
  with step show ?thesis
    by (intro budget_inv_same [OF inv i]) (auto simp: process_dispatch_def same_quota split: option.splits if_splits)
qed (use step in \<open>auto simp: lift_pc_def same_quota intro!: budget_inv_same [OF inv i]\<close>)

lemma kop_quota:
  assumes "kop_ok k s"
  shows "\<exists>n \<ge> 0. q_total (quota_of (kop_do k s)) = q_total (quota_of s) + n
    \<and> q_remaining (quota_of (kop_do k s)) = q_remaining (quota_of s) + n"
proof (cases k)
  case (KTopup n)
  with assms show ?thesis by (intro exI [of _ n]) (simp add: topup_def)
next
  case (KAdd a)
  then show ?thesis by (intro exI [of _ 0]) (simp split: sum.split)
qed (intro exI [of _ 0]; simp add: same_quota)+

lemma process_pool_step_inv:
  assumes "process_pool_step wp run_step host c c'" and "budget_inv c"
  shows "budget_inv c'"
  using assms
proof cases
  case (pworker i ws notified env cpid fate s pc s')
  with assms(2) process_step_inv show ?thesis by simp
next
  case (pkernel k s ws)
  from kop_quota [OF pkernel(3)] obtain n where "0 \<le> n"
    "q_total (quota_of (kop_do k (ps_sys s))) = q_total (quota_of (ps_sys s)) + n"
    "q_remaining (quota_of (kop_do k (ps_sys s))) = q_remaining (quota_of (ps_sys s)) + n" by blast
  with pkernel assms(2) show ?thesis by (simp add: budget_inv_def)
next
  case (pthread ws s)
  with assms(2) show ?thesis by (simp add: budget_inv_def)
qed

lemma process_runs_inv:
  assumes "process_runs wp run_step host c c'" and "budget_inv c"
  shows "budget_inv c'"
  using assms(1) unfolding process_runs_def
  by (induction rule: rtranclp_induct) (use assms(2) process_pool_step_inv in blast)+

lemma psys_init_inv:
  "0 \<le> q_total (w_quota w) \<Longrightarrow> q_remaining (w_quota w) = q_total (w_quota w) \<Longrightarrow> budget_inv ([], psys_init cap w fs)"
  by (simp add: budget_inv_def psys_init_def sys_init_def quota_of_def)

section \<open>Properties\<close>

text \<open>Runs by a schedule: a worker moves, the kernel makes a piece of a call, a thread starts.\<close>

datatype pmove = W nat fate | K kop | T

definition no_cgroups :: cg_host where
  "no_cgroups = \<lparr>cf_available = False, cf_can_mkdir = (\<lambda>_. False), cf_can_write = (\<lambda>_. False)\<rparr>"

fun play :: "worker_pool \<Rightarrow> env \<Rightarrow> pmove list \<Rightarrow> qpc list \<times> psys \<Rightarrow> qpc list \<times> psys" where
  "play wp env [] c = c"
| "play wp env (W i fate # ms) (ws, s) =
     (if i < length ws
      then let (pc, s') = process_step wp run_step no_cgroups True env 100 fate (ws ! i) s in play wp env ms (ws[i := pc], s')
      else play wp env ms (ws, s))"
| "play wp env (K k # ms) (ws, s) =
     play wp env ms (ws, if kop_ok k (ps_sys s) then s\<lparr>ps_sys := kop_do k (ps_sys s)\<rparr> else s)"
| "play wp env (T # ms) (ws, s) = play wp env ms (ws @ [QIdle], s)"

lemma play_runs: "process_runs wp run_step no_cgroups c (play wp env ms c)"
proof (induction wp env ms c rule: play.induct)
  case (1 wp env c)
  show ?case by (simp add: process_runs_def)
next
  case (2 wp env i fate ms ws s)
  obtain pc s' where step: "process_step wp run_step no_cgroups True env 100 fate (ws ! i) s = (pc, s')" by fastforce
  show ?case
  proof (cases "i < length ws")
    case True
    with 2 step show ?thesis
      unfolding process_runs_def by (auto intro: converse_rtranclp_into_rtranclp process_pool_step.pworker)
  next
    case False
    with 2 show ?thesis by simp
  qed
next
  case (3 wp env k ms ws s)
  show ?case
  proof (cases "kop_ok k (ps_sys s)")
    case True
    with 3 show ?thesis
      unfolding process_runs_def by (auto intro: converse_rtranclp_into_rtranclp process_pool_step.pkernel)
  next
    case False
    with 3 show ?thesis by simp
  qed
next
  case (4 wp env ms ws s)
  then show ?case
    unfolding process_runs_def by (auto intro: converse_rtranclp_into_rtranclp process_pool_step.pthread)
qed

definition piping_agent :: agent where
  "piping_agent = plain_agent\<lparr>acb_pipe_to := Some 9\<rparr>"

text \<open>
  The first worker finds the budget empty, puts the agent back and sleeps; after a top-up the
  second worker runs it and forwards its result; then the first worker wakes up.
\<close>

definition twice_moves :: "pmove list" where
  "twice_moves = [T, T, K (KAdd piping_agent), K (KEnqueue 3)] @ replicate 7 (W 0 Completes) @ [K (KTopup 5)]
     @ replicate 10 (W 1 Completes) @ replicate 3 (W 0 Completes)"

definition twice_end :: "qpc list \<times> psys" where
  "twice_end = play demo_pool (calm (answer ''ok'')) twice_moves ([], psys_init 8 (fresh_world 0) [])"

definition outcome :: "qpc list \<times> psys \<Rightarrow> string list \<times> int option \<times> int \<times> int \<times> bool" where
  "outcome c =
     (let s = ps_sys (snd c)
      in (map py_content (box_of (sy_bus s) 9), map_option acb_llm_calls_used (agent_at s 3), ps_calls (snd c),
          q_remaining (quota_of s), fst c = [QFinishing, QIdle]))"

lemma twice_outcome: "outcome twice_end = ([''ok'', ''ok''], Some 1, 1, 4, True)"
  by code_simp

text \<open>
  C6. The report of a child process arrives exactly or not at all. However the child's writes
  are split, and however the parent's reads are, the parent ends up with what was written; if
  the child wrote everything, the parent's control block gets the child's counters, its result
  and its state (ERROR if the child crashed), unless it was finished (killed) meanwhile, when
  its state stays; if the child was killed at any earlier byte, nothing of the report is taken
  over, and a live agent ends in ERROR.
\<close>

theorem child_report_exact:
  assumes "child_main runner env st = (st', raw, code)"
    and "received = concat (read_report sizes (write_report writes raw))"
    and "apply_result now received a = (a', r)"
  shows "(length raw \<le> length writes \<longrightarrow> received = raw)
    \<and> r = Inr (received = raw)
    \<and> (if received = raw
       then acb_llm_calls_used a' = acb_llm_calls_used (fst st') \<and> acb_tokens_used a' = acb_tokens_used (fst st')
         \<and> acb_result a' = (case acb_result (fst st') of None \<Rightarrow> acb_result a | Some t \<Rightarrow> Some t)
         \<and> acb_state a' = (if is_terminal a then acb_state a else if code = 0 then acb_state (fst st') else ERROR)
       else acb_llm_calls_used a' = acb_llm_calls_used a \<and> acb_tokens_used a' = acb_tokens_used a
         \<and> acb_result a' = acb_result a \<and> acb_state a' = (if is_terminal a then acb_state a else ERROR))"
proof -
  have rec: "received = write_report writes raw" using assms(2) by (simp add: read_report_all)
  then have pre: "received = raw \<or> strict_prefix received raw" using write_report_prefix [of writes raw] by auto
  have out: "a' = fst (apply_result now received a)" "r = snd (apply_result now received a)" using assms(3) by simp_all
  have "length raw \<le> length writes \<longrightarrow> received = raw" using rec write_report_all by simp
  with pre show ?thesis
    unfolding out using apply_complete [OF assms(1), of now a] apply_cut [OF assms(1), of received now a]
    by (cases "received = raw") simp_all
qed

theorem child_report_exact_witness:
  "\<exists>st' raw code a'. child_main run_step (calm (answer ''ok'')) (plain_agent, fresh_world 5) = (st', raw, code)
     \<and> apply_result 9 raw plain_agent = (a', Inr True) \<and> acb_result a' = Some ''ok'' \<and> acb_state a' = DONE"
proof -
  let ?c = "child_main run_step (calm (answer ''ok'')) (plain_agent, fresh_world 5)"
  have e: "acb_result (fst (fst ?c)) = Some ''ok''" "acb_state (fst (fst ?c)) = DONE" "snd (snd ?c) = 0"
    by code_simp+
  obtain st' raw code where c: "?c = (st', raw, code)" by (rule prod_cases3)
  obtain a' r where ap: "apply_result 9 raw plain_agent = (a', r)" by fastforce
  have "raw = concat (read_report [] (write_report (replicate (length raw) 1) raw))"
    by (simp add: read_report_all write_report_all)
  from child_report_exact [OF c this ap] e c have "r = Inr True" "acb_result a' = Some ''ok''" "acb_state a' = DONE"
    by (simp_all add: plain_agent_def is_terminal_def terminal_def terminal_states_def new_agent_def)
  with c ap show ?thesis by blast
qed

text \<open>
  C5. Agent processes cannot exceed the system's budget. In every interleaving of any number of
  workers of the process back end with spawns, kills, reaps and top-ups, and however children
  end, the units taken are exactly those reserved for running children plus those settled; the
  requests charged in all children are at most the units taken, and so at most the total; when
  no child is running, the units taken are the units settled.
\<close>

theorem process_budget:
  assumes "process_runs wp run_step host ([], psys_init cap w fs) (ws, s)"
    and "0 \<le> q_total (w_quota w)" and "q_remaining (w_quota w) = q_total (w_quota w)"
  shows "q_total (quota_of (ps_sys s)) - q_remaining (quota_of (ps_sys s)) = tally reserved ws + ps_spent s
    \<and> ps_calls s \<le> q_total (quota_of (ps_sys s)) - q_remaining (quota_of (ps_sys s))
    \<and> ps_calls s \<le> q_total (quota_of (ps_sys s)) \<and> 0 \<le> q_remaining (quota_of (ps_sys s))"
proof -
  have inv: "budget_inv (ws, s)" using process_runs_inv [OF assms(1) psys_init_inv [OF assms(2,3)]] .
  then have "tally unsettled ws \<le> tally reserved ws" by (simp add: budget_inv_def tally_le_ok)
  with inv show ?thesis by (simp add: budget_inv_def)
qed

theorem process_budget_witness:
  "ps_calls (snd twice_end) = 1 \<and> 1 \<le> q_total (quota_of (ps_sys (snd twice_end)))"
proof -
  have one: "ps_calls (snd twice_end) = 1" using twice_outcome by (simp add: outcome_def Let_def)
  have "process_runs demo_pool run_step no_cgroups ([], psys_init 8 (fresh_world 0) []) (fst twice_end, snd twice_end)"
    unfolding twice_end_def using play_runs by simp
  from process_budget [OF this] one show ?thesis by (simp add: fresh_world_def)
qed

text \<open>
  C31. The process back end can forward a result twice. A worker that finds the budget empty puts
  the agent back on the queue and sleeps, but then goes on to forward the agent's result; if
  another worker has run the agent to the end in the meantime, the consumer receives the
  result of one request twice.
\<close>

theorem process_pipe_twice:
  "\<exists>ws s. process_runs demo_pool run_step no_cgroups ([], psys_init 8 (fresh_world 0) []) (ws, s)
     \<and> map py_content (box_of (sy_bus (ps_sys s)) 9) = [''ok'', ''ok'']
     \<and> map_option acb_llm_calls_used (agent_at (ps_sys s) 3) = Some 1"
proof (intro exI conjI)
  show "process_runs demo_pool run_step no_cgroups ([], psys_init 8 (fresh_world 0) []) (fst twice_end, snd twice_end)"
    unfolding twice_end_def using play_runs by simp
qed (use twice_outcome in \<open>simp_all add: outcome_def Let_def\<close>)

end
