(* ===== verification/Process_Tree.thy ===== *)
theory Process_Tree
  imports Process_Table
begin

text \<open>
  The process tree (\<open>gcos/kernel/process_tree.py\<close>): traversal along the
  \<open>children\<close> and \<open>parent_pid\<close> fields of the PCBs in the table, reaping of
  descendants, linking and the flat tree view. PCB objects are named by their PID.

  The traversals are loops over a work list with no bound of their own, so they are
  partial functions: \<open>None\<close> means that the loop does not return. On a forest (every
  child has a larger PID than its parent and records it as its parent, which is what
  \<open>Kernel.spawn\<close> builds) they are proved to return; on a PCB that is its own child they
  are proved not to.
\<close>

section \<open>Traversal\<close>

definition children_of :: "ptable \<Rightarrow> pid \<Rightarrow> pid list" where
  "children_of t p =
     (case table_get t p of
        None \<Rightarrow> []
      | Some parent \<Rightarrow> filter (\<lambda>c. table_get t c \<noteq> None) (acb_children parent))"

text \<open>The loop of \<open>descendants_of\<close>: pop the end of the stack, push its children.\<close>

partial_function (option) desc_loop ::
  "ptable \<Rightarrow> pid list \<Rightarrow> pid list \<Rightarrow> pid list option" where
  "desc_loop t stack out =
     (if stack = [] then Some out
      else desc_loop t (butlast stack @ children_of t (last stack)) (out @ [last stack]))"

definition descendants_of :: "ptable \<Rightarrow> pid \<Rightarrow> pid list option" where
  "descendants_of t p = desc_loop t (children_of t p) []"

partial_function (option) anc_loop ::
  "ptable \<Rightarrow> agent option \<Rightarrow> pid list \<Rightarrow> pid list option" where
  "anc_loop t cur out =
     (case cur of
        None \<Rightarrow> Some out
      | Some a \<Rightarrow>
          (case acb_parent_pid a of
             None \<Rightarrow> Some out
           | Some q \<Rightarrow>
               (case table_get t q of
                  None \<Rightarrow> Some out
                | Some parent \<Rightarrow> anc_loop t (Some parent) (out @ [acb_pid parent]))))"

definition ancestors_of :: "ptable \<Rightarrow> pid \<Rightarrow> pid list option" where
  "ancestors_of t p = anc_loop t (table_get t p) []"

section \<open>Reaping, linking, viewing\<close>

definition reap_error :: "string \<Rightarrow> pid \<Rightarrow> string" where
  "reap_error reason rt = ''reaped: '' @ reason @ '' (root='' @ show_int rt @ '')''"

definition reap_one :: "time \<Rightarrow> string \<Rightarrow> pid \<Rightarrow> pid \<Rightarrow> ptable \<times> nat \<Rightarrow> ptable \<times> nat" where
  "reap_one now reason rt c tn =
     (case pt_objs (fst tn) c of
        None \<Rightarrow> tn
      | Some a \<Rightarrow>
          (if \<not> is_terminal a
           then (obj_write c (set_error (reap_error reason rt) (move now ZOMBIE a)) (fst tn),
                 Suc (snd tn))
           else tn))"

definition reap_descendants ::
  "time \<Rightarrow> string \<Rightarrow> pid \<Rightarrow> ptable \<Rightarrow> (ptable \<times> nat) option" where
  "reap_descendants now reason p t =
     (case descendants_of t p of
        None \<Rightarrow> None
      | Some ds \<Rightarrow> Some (fold (reap_one now reason p) ds (t, 0)))"

definition link :: "pid \<Rightarrow> pid \<Rightarrow> ptable \<Rightarrow> ptable" where
  "link parent child t =
     (if table_get t parent = None \<or> table_get t child = None then t
      else
        let t1 = obj_update parent
                   (\<lambda>a. if child \<notin> set (acb_children a)
                        then a\<lparr>acb_children := acb_children a @ [child]\<rparr> else a) t
        in obj_update child (\<lambda>a. a\<lparr>acb_parent_pid := Some parent\<rparr>) t1)"

text \<open>
  The nested \<open>walk\<close> of \<open>tree_view\<close> as a loop over the calls still to make: the next
  call is the head, its children's calls come before the rest.
\<close>

partial_function (option) walk_loop ::
  "time \<Rightarrow> ptable \<Rightarrow> (pid \<times> nat) list \<Rightarrow> (agent_row \<times> nat) list \<Rightarrow> (agent_row \<times> nat) list option"
  where
  "walk_loop now t calls out =
     (if calls = [] then Some out
      else
        case table_get t (fst (hd calls)) of
          None \<Rightarrow> walk_loop now t (tl calls) out
        | Some a \<Rightarrow>
            walk_loop now t (map (\<lambda>c. (c, Suc (snd (hd calls)))) (acb_children a) @ tl calls)
              (out @ [(to_row now a, snd (hd calls))]))"

definition tree_view :: "time \<Rightarrow> ptable \<Rightarrow> pid \<Rightarrow> (agent_row \<times> nat) list option" where
  "tree_view now t rt = walk_loop now t [(rt, 0)] []"

definition roots :: "ptable \<Rightarrow> agent list" where
  "roots t = filter (\<lambda>a. acb_parent_pid a = None) (table_snapshot t)"

section \<open>The forest invariant and its reference traversal\<close>

text \<open>
  Every recorded child is younger than its parent and names it as its parent, and no child
  is recorded twice.
\<close>

definition forest :: "ptable \<Rightarrow> bool" where
  "forest t \<longleftrightarrow>
     (\<forall>p a. pt_objs t p = Some a \<longrightarrow>
        distinct (acb_children a) \<and>
        (\<forall>c \<in> set (acb_children a).
           p < c \<and> (\<exists>b. pt_objs t c = Some b \<and> acb_parent_pid b = Some p)))"

definition child_rel :: "ptable \<Rightarrow> (pid \<times> pid) set" where
  "child_rel t = {(p, c). c \<in> set (children_of t p)}"

text \<open>Depth-first preorder, last child first, down to depth \<open>n\<close>.\<close>

fun preorder :: "ptable \<Rightarrow> nat \<Rightarrow> pid \<Rightarrow> pid list" where
  "preorder t 0 p = [p]"
| "preorder t (Suc n) p = p # concat (map (preorder t n) (rev (children_of t p)))"

text \<open>A depth that suffices: PIDs grow along every path and none exceeds the largest key.\<close>

definition depth_bound :: "ptable \<Rightarrow> pid \<Rightarrow> nat" where
  "depth_bound t p = nat (fold max (pt_keys t) 0 - p)"

definition subtree :: "ptable \<Rightarrow> pid \<Rightarrow> pid list" where
  "subtree t p = preorder t (depth_bound t p) p"

section \<open>Lemmas\<close>

lemma fold_max_ge: "(b::int) \<le> fold max xs b \<and> (\<forall>x \<in> set xs. x \<le> fold max xs b)"
proof (induction xs arbitrary: b)
  case (Cons x xs)
  from Cons [of "max x b"] show ?case by auto
qed simp

lemma children_of_key: "c \<in> set (children_of t p) \<Longrightarrow> c \<in> set (pt_keys t)"
  by (auto simp: children_of_def table_get_def split: option.splits if_splits)

lemma children_of_forest:
  assumes "forest t"
  shows "distinct (children_of t p)"
    and "c \<in> set (children_of t p) \<Longrightarrow> p < c"
    and "c \<in> set (children_of t p) \<Longrightarrow> \<exists>b. pt_objs t c = Some b \<and> acb_parent_pid b = Some p"
proof -
  have "distinct (children_of t p) \<and> (\<forall>c \<in> set (children_of t p). p < c \<and>
      (\<exists>b. pt_objs t c = Some b \<and> acb_parent_pid b = Some p))"
  proof (cases "table_get t p")
    case (Some a)
    then have "pt_objs t p = Some a" by (simp add: table_getD)
    with assms Some show ?thesis
      by (auto simp: forest_def children_of_def)
  qed (simp add: children_of_def)
  then show "distinct (children_of t p)" "c \<in> set (children_of t p) \<Longrightarrow> p < c"
    "c \<in> set (children_of t p) \<Longrightarrow> \<exists>b. pt_objs t c = Some b \<and> acb_parent_pid b = Some p"
    by auto
qed

lemma depth_bound_child:
  assumes "forest t" and "c \<in> set (children_of t p)"
  shows "depth_bound t c < depth_bound t p"
proof -
  have "c \<le> fold max (pt_keys t) 0"
    using children_of_key [OF assms(2)] fold_max_ge by blast
  moreover have "p < c"
    using children_of_forest(2) [OF assms] .
  ultimately show ?thesis by (simp add: depth_bound_def)
qed

lemma preorder_stable:
  "forest t \<Longrightarrow> depth_bound t p \<le> n \<Longrightarrow> preorder t n p = preorder t (Suc n) p"
proof (induction n arbitrary: p)
  case 0
  then have "children_of t p = []"
    using depth_bound_child [of t _ p] by (cases "children_of t p") force+
  then show ?case by simp
next
  case (Suc n)
  have "preorder t n c = preorder t (Suc n) c" if "c \<in> set (rev (children_of t p))" for c
  proof -
    have "depth_bound t c \<le> n"
      using depth_bound_child [of t c p] that Suc.prems by simp
    with Suc.prems(1) show ?thesis by (rule Suc.IH)
  qed
  then have "map (preorder t n) (rev (children_of t p))
      = map (preorder t (Suc n)) (rev (children_of t p))"
    by (intro map_cong) auto
  then show ?case
    by (simp only: preorder.simps)
qed

lemma preorder_enough:
  assumes "forest t"
  shows "depth_bound t p + k = n \<Longrightarrow> preorder t n p = subtree t p"
proof (induction k arbitrary: n)
  case (Suc k)
  then obtain m where n: "n = Suc m" and m: "depth_bound t p + k = m" by auto
  have "preorder t n p = preorder t m p"
    using preorder_stable [OF assms, of p m] n m by simp
  with Suc.IH [OF m] show ?case by simp
qed (simp add: subtree_def)

lemma subtree_unfold:
  assumes "forest t"
  shows "subtree t p = p # concat (map (subtree t) (rev (children_of t p)))"
proof -
  have "subtree t p = preorder t (Suc (depth_bound t p)) p"
    using preorder_stable [OF assms] by (simp add: subtree_def)
  also have "\<dots> = p # concat (map (preorder t (depth_bound t p)) (rev (children_of t p)))"
    by simp
  also have "map (preorder t (depth_bound t p)) (rev (children_of t p))
      = map (subtree t) (rev (children_of t p))"
  proof (rule map_cong [OF refl])
    fix c
    assume "c \<in> set (rev (children_of t p))"
    then have "depth_bound t c < depth_bound t p"
      using depth_bound_child [OF assms] by simp
    then show "preorder t (depth_bound t p) c = subtree t c"
      using preorder_enough [OF assms, of c "depth_bound t p - depth_bound t c"] by simp
  qed
  finally show ?thesis .
qed

lemma desc_loop_subtrees:
  assumes "forest t"
  shows "desc_loop t stack out = Some (out @ concat (map (subtree t) (rev stack)))"
proof (induction "length (concat (map (subtree t) (rev stack)))" arbitrary: stack out
    rule: less_induct)
  case less
  show ?case
  proof (cases stack rule: rev_cases)
    case Nil
    then show ?thesis by (simp add: desc_loop.simps)
  next
    case (snoc ys c)
    let ?next = "ys @ children_of t c"
    have eq: "concat (map (subtree t) (rev stack)) = c # concat (map (subtree t) (rev ?next))"
      using snoc subtree_unfold [OF assms, of c] by simp
    then have "desc_loop t ?next (out @ [c])
        = Some ((out @ [c]) @ concat (map (subtree t) (rev ?next)))"
      by (intro less) simp
    then show ?thesis
      using eq by (subst desc_loop.simps) (simp add: snoc)
  qed
qed

lemma descendants_of_forest:
  "forest t \<Longrightarrow> descendants_of t p = Some (tl (subtree t p))"
  by (simp add: descendants_of_def desc_loop_subtrees subtree_unfold)

lemma set_subtree:
  assumes "forest t"
  shows "set (subtree t p) = (child_rel t)\<^sup>* `` {p}"
proof (induction "depth_bound t p" arbitrary: p rule: less_induct)
  case less
  have "set (subtree t p) = insert p (\<Union>c \<in> set (children_of t p). set (subtree t c))"
    by (subst subtree_unfold [OF assms]) auto
  also have "\<dots> = insert p (\<Union>c \<in> set (children_of t p). (child_rel t)\<^sup>* `` {c})"
    using less depth_bound_child [OF assms] by simp
  also have "\<dots> = (child_rel t)\<^sup>* `` {p}"
    by (auto simp: child_rel_def elim: converse_rtranclE intro: converse_rtrancl_into_rtrancl)
  finally show ?case .
qed

lemma child_rel_increases:
  "forest t \<Longrightarrow> (p, q) \<in> (child_rel t)\<^sup>* \<Longrightarrow> p \<le> q"
  by (erule rtrancl_induct) (auto simp: child_rel_def dest: children_of_forest(2))

lemma child_rel_single_parent:
  assumes "forest t"
  shows "single_valued ((child_rel t)\<inverse>)"
proof (rule single_valuedI)
  fix c p q
  assume "(c, p) \<in> (child_rel t)\<inverse>" and "(c, q) \<in> (child_rel t)\<inverse>"
  then have cp: "c \<in> set (children_of t p)" and cq: "c \<in> set (children_of t q)"
    by (simp_all add: child_rel_def)
  show "p = q"
    using children_of_forest(3) [OF assms cp] children_of_forest(3) [OF assms cq] by auto
qed

lemma ancestors_linear:
  assumes "forest t" and "(c, d) \<in> (child_rel t)\<^sup>*" and "(c', d) \<in> (child_rel t)\<^sup>*"
  shows "(c, c') \<in> (child_rel t)\<^sup>* \<or> (c', c) \<in> (child_rel t)\<^sup>*"
  using single_valued_confluent [OF child_rel_single_parent [OF assms(1)], of d c c'] assms(2,3)
  by (auto simp: rtrancl_converse)

lemma siblings_unrelated:
  assumes "forest t" and c: "c \<in> set (children_of t p)" and c': "c' \<in> set (children_of t p)"
    and "c \<noteq> c'"
  shows "(c, c') \<notin> (child_rel t)\<^sup>*"
proof
  assume "(c, c') \<in> (child_rel t)\<^sup>*"
  with \<open>c \<noteq> c'\<close> obtain q where q: "(c, q) \<in> (child_rel t)\<^sup>*" "(q, c') \<in> child_rel t"
    by (meson rtranclE)
  have "q = p"
    using child_rel_single_parent [OF assms(1)] q(2) c'
    by (auto simp: single_valued_def child_rel_def)
  with q(1) have "c \<le> p" using child_rel_increases [OF assms(1)] by simp
  with children_of_forest(2) [OF assms(1) c] show False by simp
qed

lemma subtrees_disjoint:
  assumes "forest t" and "c \<in> set (children_of t p)" and "c' \<in> set (children_of t p)" and "c \<noteq> c'"
  shows "set (subtree t c) \<inter> set (subtree t c') = {}"
proof -
  have "False" if "(c, d) \<in> (child_rel t)\<^sup>*" "(c', d) \<in> (child_rel t)\<^sup>*" for d
    using ancestors_linear [OF assms(1) that] siblings_unrelated [OF assms]
      siblings_unrelated [OF assms(1,3,2)] assms(4) by auto
  then show ?thesis
    by (auto simp: set_subtree [OF assms(1)])
qed

lemma distinct_subtree:
  assumes "forest t"
  shows "distinct (subtree t p)"
proof (induction "depth_bound t p" arbitrary: p rule: less_induct)
  case less
  have sub: "distinct (subtree t c)" if "c \<in> set (children_of t p)" for c
    using less depth_bound_child [OF assms that] by simp
  have notin: "p \<notin> set (subtree t c)" if "c \<in> set (children_of t p)" for c
    using children_of_forest(2) [OF assms that] child_rel_increases [OF assms]
    by (force simp: set_subtree [OF assms])
  have "distinct (concat (map (subtree t) (rev (children_of t p))))"
  proof (rule distinct_concat)
    show "distinct (map (subtree t) (rev (children_of t p)))"
    proof (simp add: distinct_map children_of_forest(1) [OF assms], rule inj_onI)
      fix c c'
      assume *: "c \<in> set (children_of t p)" "c' \<in> set (children_of t p)"
        "subtree t c = subtree t c'"
      show "c = c'"
        using arg_cong [OF *(3), of hd] by (simp add: subtree_unfold [OF assms])
    qed
  qed (auto simp: sub dest: subtrees_disjoint [OF assms])
  then show ?case
    using notin by (subst subtree_unfold [OF assms]) auto
qed

lemma set_descendants:
  assumes "forest t"
  shows "set (tl (subtree t p)) = (child_rel t)\<^sup>+ `` {p}"
proof -
  have "set (tl (subtree t p)) = (\<Union>c \<in> set (children_of t p). set (subtree t c))"
    by (subst subtree_unfold [OF assms]) auto
  also have "\<dots> = (child_rel t)\<^sup>+ `` {p}"
    by (auto simp: set_subtree [OF assms] child_rel_def rtrancl_eq_or_trancl
        intro: trancl_into_trancl2 dest: tranclD elim: converse_tranclE)
  finally show ?thesis .
qed

text \<open>What the loop of \<open>reap_descendants\<close> does to the store and to the counter.\<close>

lemma fold_reap_one:
  assumes "distinct ds"
  shows "pt_keys (fst (fold (reap_one now reason rt) ds (t, n))) = pt_keys t"
    and "pt_objs (fst (fold (reap_one now reason rt) ds (t, n))) q =
      (case pt_objs t q of
         None \<Rightarrow> None
       | Some a \<Rightarrow> Some (if q \<in> set ds \<and> \<not> is_terminal a
                        then set_error (reap_error reason rt) (move now ZOMBIE a) else a))"
    and "snd (fold (reap_one now reason rt) ds (t, n)) =
      n + length (filter (\<lambda>c. \<exists>a. pt_objs t c = Some a \<and> \<not> is_terminal a) ds)"
proof -
  have "pt_keys (fst (fold (reap_one now reason rt) ds (t, n))) = pt_keys t \<and>
      pt_objs (fst (fold (reap_one now reason rt) ds (t, n))) q =
      (case pt_objs t q of
         None \<Rightarrow> None
       | Some a \<Rightarrow> Some (if q \<in> set ds \<and> \<not> is_terminal a
                        then set_error (reap_error reason rt) (move now ZOMBIE a) else a)) \<and>
      snd (fold (reap_one now reason rt) ds (t, n)) =
      n + length (filter (\<lambda>c. \<exists>a. pt_objs t c = Some a \<and> \<not> is_terminal a) ds)"
    using assms
  proof (induction ds arbitrary: t n)
    case Nil
    then show ?case by (simp split: option.splits)
  next
    case (Cons d ds)
    obtain t' n' where step: "reap_one now reason rt d (t, n) = (t', n')"
      by (metis surj_pair)
    have other: "c \<in> set ds \<Longrightarrow> pt_objs t' c = pt_objs t c" for c
      using step Cons.prems by (auto simp: reap_one_def split: option.splits if_splits)
    have filt: "filter (\<lambda>c. \<exists>a. pt_objs t' c = Some a \<and> \<not> is_terminal a) ds
        = filter (\<lambda>c. \<exists>a. pt_objs t c = Some a \<and> \<not> is_terminal a) ds"
      using other by (auto intro: filter_cong)
    have here: "pt_keys t' = pt_keys t \<and> pt_objs t' q =
        (case pt_objs t q of
           None \<Rightarrow> None
         | Some a \<Rightarrow> Some (if q = d \<and> \<not> is_terminal a
                          then set_error (reap_error reason rt) (move now ZOMBIE a) else a)) \<and>
        n' = n + (if \<exists>a. pt_objs t d = Some a \<and> \<not> is_terminal a then 1 else 0)"
      using step by (auto simp: reap_one_def split: option.splits if_splits)
    have fold: "fold (reap_one now reason rt) (d # ds) (t, n)
        = fold (reap_one now reason rt) ds (t', n')"
      by (simp add: step)
    have "d \<notin> set ds" "distinct ds" using Cons.prems by simp_all
    then show ?case
      unfolding fold using Cons.IH [of t' n'] here filt
      by (cases "pt_objs t q") auto
  qed
  then show "pt_keys (fst (fold (reap_one now reason rt) ds (t, n))) = pt_keys t"
    and "pt_objs (fst (fold (reap_one now reason rt) ds (t, n))) q =
      (case pt_objs t q of
         None \<Rightarrow> None
       | Some a \<Rightarrow> Some (if q \<in> set ds \<and> \<not> is_terminal a
                        then set_error (reap_error reason rt) (move now ZOMBIE a) else a))"
    and "snd (fold (reap_one now reason rt) ds (t, n)) =
      n + length (filter (\<lambda>c. \<exists>a. pt_objs t c = Some a \<and> \<not> is_terminal a) ds)"
    by blast+
qed

lemma forest_reap:
  assumes "forest t"
    and "\<And>q a. pt_objs t q = Some a \<Longrightarrow> \<exists>a'. pt_objs t' q = Some a' \<and>
           acb_children a' = acb_children a \<and> acb_parent_pid a' = acb_parent_pid a"
    and "\<And>q. pt_objs t q = None \<Longrightarrow> pt_objs t' q = None"
  shows "forest t'"
  unfolding forest_def
proof (intro allI impI)
  fix p a'
  assume a': "pt_objs t' p = Some a'"
  with assms(3) obtain a where a: "pt_objs t p = Some a" by (metis not_Some_eq)
  from assms(2) [OF a] a' have "acb_children a' = acb_children a" by auto
  with assms(1) a show "distinct (acb_children a') \<and> (\<forall>c \<in> set (acb_children a'). p < c \<and>
      (\<exists>b. pt_objs t' c = Some b \<and> acb_parent_pid b = Some p))"
    unfolding forest_def using assms(2) by (metis)
qed

text \<open>
  A PCB that is its own only child keeps the loop going for ever: the fixpoint semantics of
  the loop has no result to give.
\<close>

lemma desc_loop_self_child:
  "children_of t p = [p] \<Longrightarrow> desc_loop t [p] out = None"
proof (rule ccontr)
  assume self: "children_of t p = [p]" and "desc_loop t [p] out \<noteq> None"
  then obtain r where "desc_loop t [p] out = Some r" by auto
  then have "t = t \<longrightarrow> [p] = [p] \<longrightarrow> False"
    by (rule desc_loop.raw_induct [where P = "\<lambda>u st o' r. u = t \<longrightarrow> st = [p] \<longrightarrow> False", rotated])
       (fastforce simp: self split: if_splits)
  then show False by simp
qed

section \<open>Properties\<close>

text \<open>
  C33. On the forests that spawning builds, \<open>descendants_of\<close> returns (the loop has no
  bound of its own), and what it returns is every proper descendant exactly once, in
  depth-first order with the last child first. (The docstring says breadth-first.)
\<close>

theorem descendants_exactly_once:
  assumes "forest t"
  shows "\<exists>ds. descendants_of t p = Some ds \<and> distinct ds \<and> set ds = (child_rel t)\<^sup>+ `` {p}
    \<and> p # ds = subtree t p"
proof -
  have "distinct (tl (subtree t p))" and "p # tl (subtree t p) = subtree t p"
    using distinct_subtree [OF assms, of p] subtree_unfold [OF assms, of p]
    by (simp_all add: distinct_tl)
  then show ?thesis
    using descendants_of_forest [OF assms, of p] set_descendants [OF assms, of p] by blast
qed

text \<open>A small family: 1 has the children 2 and 3, and 2 has the child 4.\<close>

definition family :: ptable where
  "family = \<lparr>pt_objs = (\<lambda>_. None)(
       1 \<mapsto> (new_agent 1 ''a'' ''x'' 0)\<lparr>acb_children := [2, 3]\<rparr>,
       2 \<mapsto> (new_agent 2 ''b'' ''x'' 0)\<lparr>acb_children := [4], acb_parent_pid := Some 1\<rparr>,
       3 \<mapsto> (move 1 ZOMBIE (new_agent 3 ''c'' ''x'' 0))\<lparr>acb_parent_pid := Some 1\<rparr>,
       4 \<mapsto> (new_agent 4 ''d'' ''x'' 0)\<lparr>acb_parent_pid := Some 2\<rparr>),
     pt_keys = [1, 2, 3, 4]\<rparr>"

lemma family_ok: "table_inv family" "forest family"
  by (auto simp: table_inv_def forest_def family_def new_agent_def split: if_splits)

theorem descendants_exactly_once_witness:
  "forest family \<and> descendants_of family 1 = Some [3, 2, 4] \<and>
   (\<exists>ds. descendants_of family 1 = Some ds \<and> set ds = (child_rel family)\<^sup>+ `` {1})"
proof -
  have "descendants_of family 1 = Some [3, 2, 4]"
    by (simp add: descendants_of_def desc_loop.simps children_of_def table_get_def family_def
        new_agent_def)
  with descendants_exactly_once [OF family_ok(2), of 1] show ?thesis
    using family_ok(2) by blast
qed

text \<open>
  Reaping after the death of a process: on a forest \<open>reap_descendants\<close> returns, turns
  exactly the live proper descendants into zombies carrying the reason and the root's PID,
  leaves every other PCB (the root, strangers, descendants that had already finished)
  untouched, and returns the number it reaped; nothing below the root is live afterwards.
\<close>

theorem reap_descendants_exact:
  assumes "table_inv t" and "forest t"
  shows "\<exists>t' n. reap_descendants now reason p t = Some (t', n) \<and> table_inv t' \<and> forest t'
    \<and> (\<forall>q a. pt_objs t q = Some a \<longrightarrow> pt_objs t' q =
          Some (if (p, q) \<in> (child_rel t)\<^sup>+ \<and> \<not> is_terminal a
                then set_error (reap_error reason p) (move now ZOMBIE a) else a))
    \<and> n = card {q. (p, q) \<in> (child_rel t)\<^sup>+ \<and> (\<exists>a. pt_objs t q = Some a \<and> \<not> is_terminal a)}
    \<and> (\<forall>q a. (p, q) \<in> (child_rel t)\<^sup>+ \<longrightarrow> pt_objs t' q = Some a \<longrightarrow> is_terminal a)"
proof -
  let ?ds = "tl (subtree t p)"
  let ?r = "fold (reap_one now reason p) ?ds (t, 0)"
  have dist: "distinct ?ds"
    using distinct_subtree [OF assms(2)] by (rule distinct_tl)
  have mem: "q \<in> set ?ds \<longleftrightarrow> (p, q) \<in> (child_rel t)\<^sup>+" for q
    using set_descendants [OF assms(2)] by auto
  note keys = fold_reap_one(1) [OF dist, of now reason p t 0]
  note objs = fold_reap_one(2) [OF dist, of now reason p t 0]
  note count = fold_reap_one(3) [OF dist, of now reason p t 0]
  have inv: "table_inv (fst ?r)"
    using assms(1) by (auto simp: table_inv_def keys objs split: option.splits)
  have forest: "forest (fst ?r)"
    by (rule forest_reap [OF assms(2)]) (auto simp: objs)
  have "snd ?r = card (set (filter (\<lambda>c. \<exists>a. pt_objs t c = Some a \<and> \<not> is_terminal a) ?ds))"
    using count dist by (subst distinct_card) simp_all
  then have n: "snd ?r = card {q. (p, q) \<in> (child_rel t)\<^sup>+ \<and>
      (\<exists>a. pt_objs t q = Some a \<and> \<not> is_terminal a)}"
    by (simp add: mem)
  have "reap_descendants now reason p t = Some (fst ?r, snd ?r)"
    by (simp add: reap_descendants_def descendants_of_forest [OF assms(2)])
  then show ?thesis
    using inv forest n by (intro exI conjI) (auto simp: objs mem split: option.splits)
qed

theorem reap_descendants_exact_witness:
  "table_inv family \<and> forest family \<and>
   (\<exists>t' n. reap_descendants 5 ''killed'' 1 family = Some (t', n) \<and>
      pt_objs t' 4 = Some (set_error (reap_error ''killed'' 1)
        (move 5 ZOMBIE ((new_agent 4 ''d'' ''x'' 0)\<lparr>acb_parent_pid := Some 2\<rparr>))))"
proof -
  have "2 \<in> set (children_of family 1)" and "4 \<in> set (children_of family 2)"
    by (simp_all add: children_of_def table_get_def family_def new_agent_def)
  then have "(1, 4) \<in> (child_rel family)\<^sup>+"
    by (auto simp: child_rel_def intro: trancl_into_trancl)
  moreover have "pt_objs family 4 = Some ((new_agent 4 ''d'' ''x'' 0)\<lparr>acb_parent_pid := Some 2\<rparr>)"
    by (simp add: family_def)
  moreover have "\<not> is_terminal ((new_agent 4 ''d'' ''x'' 0)\<lparr>acb_parent_pid := Some 2\<rparr>)"
    by (simp add: is_terminal_def new_agent_def)
  moreover obtain t' n where r: "reap_descendants 5 ''killed'' 1 family = Some (t', n)" and
    "\<forall>q a. pt_objs family q = Some a \<longrightarrow> pt_objs t' q =
          Some (if (1, q) \<in> (child_rel family)\<^sup>+ \<and> \<not> is_terminal a
                then set_error (reap_error ''killed'' 1) (move 5 ZOMBIE a) else a)"
    using reap_descendants_exact [OF family_ok, of 5 "''killed''" 1] by auto
  ultimately have "pt_objs t' 4 = Some (set_error (reap_error ''killed'' 1)
      (move 5 ZOMBIE ((new_agent 4 ''d'' ''x'' 0)\<lparr>acb_parent_pid := Some 2\<rparr>)))"
    by simp
  with r family_ok show ?thesis by blast
qed

text \<open>
  The traversal is only safe on forests: for a PCB that lists itself as its only child
  \<open>descendants_of\<close> (and with it \<open>reap_descendants\<close>) never returns.
\<close>

theorem self_child_never_returns:
  assumes "children_of t p = [p]"
  shows "descendants_of t p = None \<and> reap_descendants now reason p t = None"
  using desc_loop_self_child [OF assms]
  by (simp add: descendants_of_def reap_descendants_def assms)

theorem self_child_never_returns_witness:
  "descendants_of \<lparr>pt_objs = [1 \<mapsto> (new_agent 1 ''a'' ''x'' 0)\<lparr>acb_children := [1]\<rparr>],
                   pt_keys = [1]\<rparr> 1 = None"
  using self_child_never_returns [of "\<lparr>pt_objs = [1 \<mapsto> (new_agent 1 ''a'' ''x'' 0)\<lparr>acb_children := [1]\<rparr>],
                   pt_keys = [1]\<rparr>" 1]
  by (simp add: children_of_def table_get_def new_agent_def)

end
