(* ===== verification/Pid_Alloc.thy ===== *)
theory Pid_Alloc
  imports Prelude
begin

text \<open>
  The PID allocator (\<open>gcos/kernel/pid_alloc.py\<close>): a counter whose \<open>next\<close> hands out
  and consumes a PID and whose \<open>peek\<close> reads the next one, by consuming it and rebuilding
  the counter. Each method holds the lock, so a method is one step.
\<close>

section \<open>The allocator\<close>

text \<open>\<open>itertools.count(n)\<close> is represented by the value it yields next.\<close>

record pid_allocator =
  pa_counter :: int

definition pid_init :: "int \<Rightarrow> pid_allocator" where
  "pid_init start = \<lparr>pa_counter = start\<rparr>"

definition pid_next :: "pid_allocator \<Rightarrow> pid \<times> pid_allocator" where
  "pid_next s = (pa_counter s, \<lparr>pa_counter = pa_counter s + 1\<rparr>)"

definition pid_peek :: "pid_allocator \<Rightarrow> pid \<times> pid_allocator" where
  "pid_peek s = (let (p, _) = pid_next s in (p, \<lparr>pa_counter = p\<rparr>))"

text \<open>A sequence of calls by any threads: \<open>True\<close> for \<open>next\<close>, \<open>False\<close> for \<open>peek\<close>; the PIDs handed out.\<close>

fun pid_run :: "bool list \<Rightarrow> pid_allocator \<Rightarrow> pid list" where
  "pid_run [] s = []"
| "pid_run (True # cs) s = (let (p, s') = pid_next s in p # pid_run cs s')"
| "pid_run (False # cs) s = (let (p, s') = pid_peek s in pid_run cs s')"

section \<open>Lemmas\<close>

lemma pid_peek_same [simp]: "pid_peek s = (pa_counter s, s)"
  by (simp add: pid_peek_def pid_next_def)

lemma pid_run_upto: "pid_run cs s = map (\<lambda>i. pa_counter s + int i) [0..<length (filter (\<lambda>c. c) cs)]"
proof (induction cs s rule: pid_run.induct)
  case (2 cs s)
  have "pid_run (True # cs) s
      = pa_counter s # map (\<lambda>i. pa_counter s + 1 + int i) [0..<length (filter (\<lambda>c. c) cs)]"
    using "2.IH" by (simp add: pid_next_def)
  also have "\<dots> = map (\<lambda>i. pa_counter s + int i) (0 # map Suc [0..<length (filter (\<lambda>c. c) cs)])"
    by (simp add: comp_def algebra_simps)
  also have "0 # map Suc [0..<length (filter (\<lambda>c. c) cs)] = [0..<length (filter (\<lambda>c. c) (True # cs))]"
    by (simp add: upt_conv_Cons map_Suc_upt del: upt_Suc)
  finally show ?case .
qed simp_all

section \<open>Properties\<close>

text \<open>
  PIDs are unique and monotone whatever the interleaving of \<open>next\<close> and \<open>peek\<close>:
  the k-th call of \<open>next\<close> returns \<open>start + k\<close>, so no PID is handed out twice, PID 0 is
  never handed out by an allocator that starts at 1, and a \<open>peek\<close> returns exactly the PID
  of the following \<open>next\<close> without consuming it.
\<close>

theorem pids_fresh_and_peek_exact:
  "distinct (pid_run cs (pid_init 1)) \<and> sorted (pid_run cs (pid_init 1))
   \<and> 0 \<notin> set (pid_run cs (pid_init 1))
   \<and> fst (pid_peek s) = fst (pid_next s) \<and> snd (pid_peek s) = s"
proof -
  have run: "pid_run cs (pid_init 1) = map (\<lambda>i. 1 + int i) [0..<length (filter (\<lambda>c. c) cs)]"
    by (simp add: pid_run_upto pid_init_def)
  have "distinct (pid_run cs (pid_init 1))"
    unfolding run by (simp add: distinct_map inj_on_def)
  moreover have "sorted (pid_run cs (pid_init 1))"
    unfolding run by (simp add: sorted_iff_nth_mono)
  moreover have "0 \<notin> set (pid_run cs (pid_init 1))"
    unfolding run by auto
  ultimately show ?thesis
    by (simp add: pid_next_def)
qed

end
