(* ===== verification/Ring_Log.thy ===== *)
theory Ring_Log
  imports Py_Text
begin

text \<open>
  The ring of recent kernel events (\<open>gcos/kernel/ring_log.py\<close>): a bounded buffer that
  drops its oldest record, its use as a logging handler, and the handler's attachment to a
  logger.
\<close>

section \<open>The ring\<close>

text \<open>Extra fields of a record (\<open>**fields\<close>) are pairs of strings.\<close>

record log_rec =
  lr_ts :: time
  lr_kind :: string
  lr_msg :: string
  lr_fields :: "(string \<times> string) list"

record ring_log =
  rl_capacity :: nat
  rl_level :: int
  rl_buf :: "log_rec list"
  rl_attached :: "string option"

definition ring_init :: "nat \<Rightarrow> int \<Rightarrow> ring_log" where
  "ring_init capacity level =
     \<lparr>rl_capacity = capacity, rl_level = level, rl_buf = [], rl_attached = None\<rparr>"

text \<open>\<open>deque(maxlen=n).append\<close>: the last \<open>n\<close> of the extended list.\<close>

definition deque_append :: "nat \<Rightarrow> 'a \<Rightarrow> 'a list \<Rightarrow> 'a list" where
  "deque_append n x xs = drop (Suc (length xs) - n) (xs @ [x])"

definition ring_append :: "time \<Rightarrow> string \<Rightarrow> string \<Rightarrow> (string \<times> string) list \<Rightarrow> ring_log \<Rightarrow> ring_log"
  where
  "ring_append now kind msg extra r =
     r\<lparr>rl_buf := deque_append (rl_capacity r)
         \<lparr>lr_ts = now, lr_kind = kind, lr_msg = msg, lr_fields = extra\<rparr> (rl_buf r)\<rparr>"

definition ring_snapshot :: "int option \<Rightarrow> ring_log \<Rightarrow> log_rec list" where
  "ring_snapshot limit r =
     (case limit of None \<Rightarrow> rl_buf r | Some n \<Rightarrow> slice_from (- n) (rl_buf r))"

definition ring_clear :: "ring_log \<Rightarrow> ring_log" where
  "ring_clear r = r\<lparr>rl_buf := []\<rparr>"

definition ring_len :: "ring_log \<Rightarrow> nat" where
  "ring_len r = length (rl_buf r)"

text \<open>
  \<open>emit\<close> of a log record with the given logger name, level name and rendered message;
  \<open>formatted\<close> is the outcome of rendering, on an exception the \<open>repr\<close> is logged.
\<close>

definition ring_emit ::
  "time \<Rightarrow> string \<Rightarrow> string \<Rightarrow> py_exc + string \<Rightarrow> string \<Rightarrow> ring_log \<Rightarrow> ring_log" where
  "ring_emit now logger levelname formatted raw r =
     (let msg = (case formatted of Inl e \<Rightarrow> raw | Inr m \<Rightarrow> m)
      in ring_append now (str_lower levelname) msg
           [(''logger'', logger), (''level'', levelname)] r)"

text \<open>A Python logger: its level (0 is \<open>NOTSET\<close>) and whether this ring is among its handlers.\<close>

record py_logger =
  lg_name :: string
  lg_level :: int
  lg_has_ring :: bool

definition attach_to_logger :: "py_logger \<Rightarrow> ring_log \<Rightarrow> py_logger \<times> ring_log" where
  "attach_to_logger l r =
     (let l1 = (if lg_level l = 0 \<or> rl_level r < lg_level l then l\<lparr>lg_level := rl_level r\<rparr> else l)
      in (l1\<lparr>lg_has_ring := True\<rparr>, r\<lparr>rl_attached := Some (lg_name l)\<rparr>))"

definition detach :: "py_logger \<Rightarrow> ring_log \<Rightarrow> py_logger \<times> ring_log" where
  "detach l r =
     (if rl_attached r \<noteq> None then (l\<lparr>lg_has_ring := False\<rparr>, r\<lparr>rl_attached := None\<rparr>) else (l, r))"

text \<open>A record reaches the handler when the logger lets its level through and has the handler.\<close>

definition log_through ::
  "py_logger \<Rightarrow> time \<Rightarrow> int \<Rightarrow> string \<Rightarrow> string \<Rightarrow> ring_log \<Rightarrow> ring_log" where
  "log_through l now level levelname msg r =
     (if lg_level l \<le> level \<and> lg_has_ring l \<and> rl_level r \<le> level
      then ring_emit now (lg_name l) levelname (Inr msg) msg r else r)"

section \<open>Lemmas\<close>

lemma deque_append_last:
  "deque_append n x (drop (length xs - n) xs) = drop (Suc (length xs) - n) (xs @ [x])"
proof (cases "length xs \<le> n")
  case True
  then show ?thesis by (simp add: deque_append_def)
next
  case False
  then have "drop (Suc n - n) (drop (length xs - n) xs @ [x])
      = drop (Suc (length xs) - n) (xs @ [x])"
    by (cases n) (auto simp: Suc_diff_Suc not_le)
  with False show ?thesis by (simp add: deque_append_def)
qed

lemma fold_deque_append:
  "fold (deque_append n) xs (drop (length ys - n) ys) = drop (length (ys @ xs) - n) (ys @ xs)"
proof (induction xs arbitrary: ys)
  case (Cons x xs)
  have "fold (deque_append n) (x # xs) (drop (length ys - n) ys)
      = fold (deque_append n) xs (drop (length (ys @ [x]) - n) (ys @ [x]))"
    by (simp add: deque_append_last)
  also have "\<dots> = drop (length (ys @ x # xs) - n) (ys @ x # xs)"
    using Cons.IH [of "ys @ [x]"] by simp
  finally show ?case .
qed simp

definition append_rec :: "log_rec \<Rightarrow> ring_log \<Rightarrow> ring_log" where
  "append_rec x r = ring_append (lr_ts x) (lr_kind x) (lr_msg x) (lr_fields x) r"

lemma fold_append_rec:
  "fold append_rec xs r = r\<lparr>rl_buf := fold (deque_append (rl_capacity r)) xs (rl_buf r)\<rparr>"
proof (induction xs arbitrary: r)
  case (Cons x xs)
  have "append_rec x r = r\<lparr>rl_buf := deque_append (rl_capacity r) x (rl_buf r)\<rparr>"
    by (cases x) (simp add: append_rec_def ring_append_def)
  then show ?case by (simp add: Cons.IH)
qed simp

section \<open>Properties\<close>

text \<open>
  The ring holds exactly the most recent records: after any number of appends it holds
  the last \<open>capacity\<close> of them in order (so never more than its capacity), a snapshot with
  a positive limit returns the last \<open>limit\<close> of those, and a limit of zero returns all of
  them.
\<close>

theorem ring_holds_most_recent:
  "rl_buf (fold append_rec xs (ring_init cap lvl)) = drop (length xs - cap) xs
   \<and> ring_len (fold append_rec xs (ring_init cap lvl)) = min cap (length xs)
   \<and> ring_snapshot (Some (int (Suc k))) (fold append_rec xs (ring_init cap lvl))
       = drop (length xs - min cap (Suc k)) xs
   \<and> ring_snapshot (Some 0) (fold append_rec xs (ring_init cap lvl))
       = ring_snapshot None (fold append_rec xs (ring_init cap lvl))"
proof -
  let ?r = "fold append_rec xs (ring_init cap lvl)"
  have buf: "rl_buf ?r = drop (length xs - cap) xs"
    using fold_deque_append [of cap xs "[]"] by (simp add: fold_append_rec ring_init_def)
  have len: "ring_len ?r = min cap (length xs)"
    by (simp add: ring_len_def buf)
  have "slice_from (- int (Suc k)) (rl_buf ?r)
      = drop (length xs - (length xs - cap) - Suc k + (length xs - cap)) xs"
    by (simp only: slice_from_last buf length_drop drop_drop)
  also have "length xs - (length xs - cap) - Suc k + (length xs - cap) = length xs - min cap (Suc k)"
    by linarith
  finally have snap: "ring_snapshot (Some (int (Suc k))) ?r = drop (length xs - min cap (Suc k)) xs"
    by (simp only: ring_snapshot_def option.case)
  show ?thesis
    using buf len snap by (simp add: ring_snapshot_def slice_from_def)
qed

text \<open>
  Attaching the ring makes every record at or above its level reach it, whatever the
  logger's level was; a second attachment changes nothing, and after detaching nothing more
  arrives.
\<close>

theorem attach_then_log_arrives:
  assumes "attach_to_logger l r = (l1, r1)" and "rl_level r \<le> level"
  shows "log_through l1 now level name msg r1
           = ring_append now (str_lower name) msg [(''logger'', lg_name l), (''level'', name)] r1
    \<and> attach_to_logger l1 r1 = (l1, r1)
    \<and> log_through (fst (detach l1 r1)) now level name msg (snd (detach l1 r1)) = snd (detach l1 r1)"
proof -
  have l1: "lg_level l1 \<le> rl_level r" "lg_has_ring l1" "lg_name l1 = lg_name l"
    and r1: "r1 = r\<lparr>rl_attached := Some (lg_name l)\<rparr>"
    using assms(1) by (auto simp: attach_to_logger_def Let_def split: if_splits)
  have arrives: "log_through l1 now level name msg r1
      = ring_append now (str_lower name) msg [(''logger'', lg_name l), (''level'', name)] r1"
    using l1 r1 assms(2) by (simp add: log_through_def ring_emit_def)
  have again: "attach_to_logger l1 r1 = (l1, r1)"
    using assms(1) by (auto simp: attach_to_logger_def Let_def split: if_splits)
  show ?thesis
    using arrives again r1 by (simp add: detach_def log_through_def)
qed

theorem attach_then_log_arrives_witness:
  "ring_len (log_through (fst (attach_to_logger \<lparr>lg_name = ''gcos'', lg_level = 30, lg_has_ring = False\<rparr>
       (ring_init 4 20))) 1 20 ''INFO'' ''hello''
     (snd (attach_to_logger \<lparr>lg_name = ''gcos'', lg_level = 30, lg_has_ring = False\<rparr> (ring_init 4 20)))) = 1"
  using attach_then_log_arrives [of "\<lparr>lg_name = ''gcos'', lg_level = 30, lg_has_ring = False\<rparr>"
      "ring_init 4 20" _ _ 20 1 "''INFO''" "''hello''", OF prod.collapse [symmetric]]
  by (simp add: ring_init_def ring_len_def ring_append_def deque_append_def attach_to_logger_def)

end
