(* ===== verification/Batcher.thy ===== *)
theory Batcher
  imports World
begin

text \<open>
  The rate-limited client (\<open>gcos/backend/batcher.py\<close>): a token bucket, a bounded
  semaphore and counters around the real client. A call of \<open>chat\<close> is a machine over the
  points where it touches shared state, and the threads that call it interleave freely. Clock
  readings are those of the monotonic clock, so they never decrease.
\<close>

section \<open>Statistics\<close>

record batcher_stats =
  bs_total_calls :: int
  bs_total_wait_s :: real
  bs_total_chat_s :: real
  bs_in_flight :: int
  bs_peak_in_flight :: int
  bs_last_429_ts :: "time option"
  bs_last_error :: "string option"

definition stats_init :: batcher_stats where
  "stats_init =
     \<lparr>bs_total_calls = 0, bs_total_wait_s = 0, bs_total_chat_s = 0, bs_in_flight = 0,
      bs_peak_in_flight = 0, bs_last_429_ts = None, bs_last_error = None\<rparr>"

record stats_row =
  sr_total_calls :: int
  sr_total_wait_s :: real
  sr_avg_wait_ms :: real
  sr_total_chat_s :: real
  sr_in_flight :: int
  sr_peak_in_flight :: int
  sr_last_429_ts :: "time option"
  sr_last_error :: "string option"

definition stats_snapshot :: "batcher_stats \<Rightarrow> stats_row" where
  "stats_snapshot s =
     \<lparr>sr_total_calls = bs_total_calls s,
      sr_total_wait_s = round_to 3 (bs_total_wait_s s),
      sr_avg_wait_ms =
        round_to 2 (if bs_total_calls s \<noteq> 0
                    then bs_total_wait_s s / real_of_int (bs_total_calls s) * 1000 else 0),
      sr_total_chat_s = round_to 3 (bs_total_chat_s s),
      sr_in_flight = bs_in_flight s,
      sr_peak_in_flight = bs_peak_in_flight s,
      sr_last_429_ts = bs_last_429_ts s,
      sr_last_error = bs_last_error s\<rparr>"

section \<open>The token bucket\<close>

record token_bucket =
  tb_rate :: real
  tb_capacity :: real
  tb_tokens :: real
  tb_last :: time

definition bucket_init :: "real \<Rightarrow> int option \<Rightarrow> time \<Rightarrow> token_bucket" where
  "bucket_init rate burst now =
     (let cap = real_of_int (case burst of None \<Rightarrow> max 1 \<lfloor>rate\<rfloor> | Some n \<Rightarrow> n)
      in \<lparr>tb_rate = rate, tb_capacity = cap, tb_tokens = cap, tb_last = now\<rparr>)"

text \<open>One pass through the lock: tokens taken, the time to wait, or the division by a zero rate.\<close>

datatype attempt = Granted | Wait real | Raised py_exc

definition refill :: "time \<Rightarrow> token_bucket \<Rightarrow> token_bucket" where
  "refill now b =
     b\<lparr>tb_last := now, tb_tokens := min (tb_capacity b) (tb_tokens b + (now - tb_last b) * tb_rate b)\<rparr>"

definition bucket_try :: "int \<Rightarrow> time \<Rightarrow> token_bucket \<Rightarrow> attempt \<times> token_bucket" where
  "bucket_try n now b =
     (let b1 = refill now b
      in if real_of_int n \<le> tb_tokens b1
         then (Granted, b1\<lparr>tb_tokens := tb_tokens b1 - real_of_int n\<rparr>)
         else if tb_rate b1 = 0 then (Raised (OtherExc ''ZeroDivisionError'' ''float division by zero''), b1)
         else (Wait ((real_of_int n - tb_tokens b1) / tb_rate b1), b1))"

text \<open>
  \<open>acquire(n, timeout)\<close> with nobody else at the bucket: \<open>readings\<close> are the clock
  readings of each round, inside the lock and for the comparison with the deadline. No result
  means that the call still waits.
\<close>

fun bucket_acquire ::
  "int \<Rightarrow> time option \<Rightarrow> (time \<times> time) list \<Rightarrow> token_bucket \<Rightarrow> (py_exc + bool) option \<times> token_bucket" where
  "bucket_acquire n deadline [] b = (None, b)"
| "bucket_acquire n deadline ((now, later) # readings) b =
     (case bucket_try n now b of
        (Granted, b1) \<Rightarrow> (Some (Inr True), b1)
      | (Raised e, b1) \<Rightarrow> (Some (Inl e), b1)
      | (Wait w, b1) \<Rightarrow>
          (case deadline of
             None \<Rightarrow> bucket_acquire n deadline readings b1
           | Some d \<Rightarrow> if d < later + w then (Some (Inr False), b1)
                       else bucket_acquire n deadline readings b1))"

section \<open>The client\<close>

record batcher =
  ba_bucket :: token_bucket
  ba_slots :: int
  ba_max_concurrent :: int
  ba_stats :: batcher_stats

text \<open>\<open>inner\<close> is the underlying client or the outcome of \<open>SolarClient(config)\<close>.\<close>

definition batcher_init ::
  "py_exc + client \<Rightarrow> int \<Rightarrow> real \<Rightarrow> int option \<Rightarrow> time \<Rightarrow> py_exc + batcher" where
  "batcher_init inner max_concurrent rate burst now =
     (case inner of
        Inl e \<Rightarrow> Inl e
      | Inr c \<Rightarrow>
          if max_concurrent < 0
          then Inl (OtherExc ''ValueError'' ''semaphore initial value must be >= 0'')
          else Inr \<lparr>ba_bucket = bucket_init rate burst now, ba_slots = max_concurrent,
                    ba_max_concurrent = max_concurrent, ba_stats = stats_init\<rparr>)"

definition batcher_stats_of :: "batcher \<Rightarrow> stats_row" where
  "batcher_stats_of b = stats_snapshot (ba_stats b)"

definition on_stats :: "(batcher_stats \<Rightarrow> batcher_stats) \<Rightarrow> batcher \<Rightarrow> batcher" where
  "on_stats f b = b\<lparr>ba_stats := f (ba_stats b)\<rparr>"

definition note_enter :: "real \<Rightarrow> batcher_stats \<Rightarrow> batcher_stats" where
  "note_enter waited s =
     s\<lparr>bs_in_flight := bs_in_flight s + 1,
       bs_peak_in_flight :=
         (if bs_peak_in_flight s < bs_in_flight s + 1 then bs_in_flight s + 1 else bs_peak_in_flight s),
       bs_total_wait_s := bs_total_wait_s s + waited,
       bs_total_calls := bs_total_calls s + 1\<rparr>"

definition looks_throttled :: "string \<Rightarrow> bool" where
  "looks_throttled msg = (contains_sub ''429'' msg \<or> contains_sub ''rate'' (str_lower msg))"

definition note_result :: "real \<Rightarrow> time \<Rightarrow> py_exc + chat_result \<Rightarrow> batcher_stats \<Rightarrow> batcher_stats" where
  "note_result took wall r s =
     (case r of
        Inr _ \<Rightarrow> s\<lparr>bs_total_chat_s := bs_total_chat_s s + took, bs_last_error := None\<rparr>
      | Inl e \<Rightarrow>
          (let s1 = s\<lparr>bs_last_error := Some (exc_type e @ '': '' @ exc_str e)\<rparr>
           in if looks_throttled (exc_str e) then s1\<lparr>bs_last_429_ts := Some wall\<rparr> else s1))"

definition note_leave :: "batcher_stats \<Rightarrow> batcher_stats" where
  "note_leave s = s\<lparr>bs_in_flight := bs_in_flight s - 1\<rparr>"

text \<open>The points of a call of \<open>chat\<close>; the last holds what it returned or raised.\<close>

datatype chat_pc =
    ChatOut
  | AtBucket time
  | AtSem time
  | Entering time
  | Chatting time
  | Chatted time "py_exc + chat_result"
  | Leaving "py_exc + chat_result"
  | Releasing "py_exc + chat_result"
  | Returned "py_exc + chat_result"

text \<open>
  One step of a call at a clock reading: \<open>wall\<close> is the wall clock, \<open>inner\<close> what the
  underlying client answers. A call that finds no token or no slot stays where it is.
\<close>

fun chat_step ::
  "time \<Rightarrow> time \<Rightarrow> py_exc + chat_result \<Rightarrow> chat_pc \<Rightarrow> batcher \<Rightarrow> chat_pc \<times> batcher" where
  "chat_step now wall inner ChatOut b = (AtBucket now, b)"
| "chat_step now wall inner (AtBucket t0) b =
     (case bucket_try 1 now (ba_bucket b) of
        (Granted, k) \<Rightarrow> (AtSem t0, b\<lparr>ba_bucket := k\<rparr>)
      | (Wait w, k) \<Rightarrow> (AtBucket t0, b\<lparr>ba_bucket := k\<rparr>)
      | (Raised e, k) \<Rightarrow> (Returned (Inl e), b\<lparr>ba_bucket := k\<rparr>))"
| "chat_step now wall inner (AtSem t0) b =
     (if 0 < ba_slots b then (Entering t0, b\<lparr>ba_slots := ba_slots b - 1\<rparr>) else (AtSem t0, b))"
| "chat_step now wall inner (Entering t0) b = (Chatting now, on_stats (note_enter (now - t0)) b)"
| "chat_step now wall inner (Chatting t1) b = (Chatted t1 inner, b)"
| "chat_step now wall inner (Chatted t1 r) b = (Leaving r, on_stats (note_result (now - t1) wall r) b)"
| "chat_step now wall inner (Leaving r) b = (Releasing r, on_stats note_leave b)"
| "chat_step now wall inner (Releasing r) b = (Returned r, b\<lparr>ba_slots := ba_slots b + 1\<rparr>)"
| "chat_step now wall inner (Returned r) b = (AtBucket now, b)"

inductive batch_step :: "chat_pc list \<times> batcher \<Rightarrow> chat_pc list \<times> batcher \<Rightarrow> bool" where
  caller: "i < length ts \<Longrightarrow> tb_last (ba_bucket b) \<le> now \<Longrightarrow>
    chat_step now wall inner (ts ! i) b = (pc, b') \<Longrightarrow> batch_step (ts, b) (ts[i := pc], b')"
| newcomer: "batch_step (ts, b) (ts @ [ChatOut], b)"

definition batch_runs :: "chat_pc list \<times> batcher \<Rightarrow> chat_pc list \<times> batcher \<Rightarrow> bool" where
  "batch_runs = batch_step\<^sup>*\<^sup>*"

section \<open>Invariants\<close>

text \<open>Who holds a slot, who is counted as in flight, who has a token and is not yet counted as a call.\<close>

fun has_slot :: "chat_pc \<Rightarrow> int" where
  "has_slot ChatOut = 0" | "has_slot (AtBucket t) = 0" | "has_slot (AtSem t) = 0"
| "has_slot (Returned r) = 0" | "has_slot pc = 1"

fun counted :: "chat_pc \<Rightarrow> int" where
  "counted (Chatting t) = 1" | "counted (Chatted t r) = 1" | "counted (Leaving r) = 1"
| "counted pc = 0"

fun token_only :: "chat_pc \<Rightarrow> int" where
  "token_only (AtSem t) = 1" | "token_only (Entering t) = 1" | "token_only pc = 0"

definition batch_inv :: "int \<Rightarrow> real \<Rightarrow> real \<Rightarrow> time \<Rightarrow> chat_pc list \<times> batcher \<Rightarrow> bool" where
  "batch_inv m rate cap start c = (case c of (ts, b) \<Rightarrow>
     ba_slots b = m - tally has_slot ts \<and> 0 \<le> ba_slots b
     \<and> bs_in_flight (ba_stats b) = tally counted ts
     \<and> tally counted ts \<le> bs_peak_in_flight (ba_stats b) \<and> bs_peak_in_flight (ba_stats b) \<le> m
     \<and> tb_rate (ba_bucket b) = rate \<and> tb_capacity (ba_bucket b) = cap
     \<and> start \<le> tb_last (ba_bucket b) \<and> 0 \<le> tb_tokens (ba_bucket b)
     \<and> real_of_int (bs_total_calls (ba_stats b)) + real_of_int (tally token_only ts) + tb_tokens (ba_bucket b)
         \<le> cap + rate * (tb_last (ba_bucket b) - start))"

lemma counted_le_slot: "counted pc \<le> has_slot pc"
  by (cases pc) auto

lemma token_only_nonneg: "0 \<le> token_only pc"
  by (cases pc) auto

lemma counted_nonneg: "0 \<le> counted pc"
  by (cases pc) auto

lemma tally_mono: "(\<And>x. f x \<le> (g x :: int)) \<Longrightarrow> tally f xs \<le> tally g xs"
  unfolding tally_def by (rule sum_list_mono)

text \<open>What a pass through the bucket does to the ledger of tokens.\<close>

lemma bucket_try_ledger:
  assumes "bucket_try 1 now b = (out, b')" and "tb_last b \<le> now" and "0 \<le> tb_rate b"
    and "0 \<le> tb_tokens b" and "0 \<le> tb_capacity b"
  shows "tb_rate b' = tb_rate b \<and> tb_capacity b' = tb_capacity b \<and> tb_last b' = now \<and> 0 \<le> tb_tokens b'
    \<and> (if out = Granted then 1 else 0) + tb_tokens b' \<le> tb_tokens b + tb_rate b * (now - tb_last b)"
proof -
  have "0 \<le> (now - tb_last b) * tb_rate b" using assms(2,3) by simp
  then show ?thesis
    using assms by (auto simp: bucket_try_def refill_def Let_def mult.commute split: if_splits)
qed

lemma chat_step_inv:
  assumes inv: "batch_inv m rate cap start (ts, b)" and i: "i < length ts" and now: "tb_last (ba_bucket b) \<le> now"
    and step: "chat_step now wall inner (ts ! i) b = (pc, b')" and rate: "0 \<le> rate" "0 \<le> cap"
  shows "batch_inv m rate cap start (ts[i := pc], b')"
proof -
  note upd = tally_update [OF i, of has_slot pc] tally_update [OF i, of counted pc] tally_update [OF i, of token_only pc]
  have le: "tally counted (ts[i := pc]) \<le> tally has_slot (ts[i := pc])"
    using counted_le_slot by (rule tally_mono)
  show ?thesis
  proof (cases "ts ! i")
    case (AtBucket t0)
    obtain out k where tr: "bucket_try 1 now (ba_bucket b) = (out, k)" by (cases "bucket_try 1 now (ba_bucket b)")
    have led: "tb_rate k = rate" "tb_capacity k = cap" "tb_last k = now" "0 \<le> tb_tokens k"
      "(if out = Granted then 1 else 0) + tb_tokens k \<le> tb_tokens (ba_bucket b) + rate * (now - tb_last (ba_bucket b))"
      using bucket_try_ledger [OF tr now] inv rate by (auto simp: batch_inv_def)
    have sum: "rate * (now - tb_last (ba_bucket b)) + rate * (tb_last (ba_bucket b) - start) = rate * (now - start)"
      by (simp add: algebra_simps)
    show ?thesis
    proof (cases out)
      case Granted
      with AtBucket step tr upd inv led sum now show ?thesis by (auto simp: batch_inv_def)
    next
      case (Wait w)
      with AtBucket step tr upd inv led sum now show ?thesis by (auto simp: batch_inv_def)
    next
      case (Raised e)
      with AtBucket step tr upd inv led sum now show ?thesis by (auto simp: batch_inv_def)
    qed
  next
    case (AtSem t0)
    with step upd inv i show ?thesis by (auto simp: batch_inv_def list_update_same_conv split: if_splits)
  next
    case (Entering t0)
    with step upd inv le show ?thesis by (auto simp: batch_inv_def on_stats_def note_enter_def)
  next
    case (Chatted t1 r)
    with step upd inv show ?thesis
      by (auto simp: batch_inv_def on_stats_def note_result_def Let_def split: sum.split)
  next
    case (Leaving r)
    with step upd inv show ?thesis by (auto simp: batch_inv_def on_stats_def note_leave_def)
  qed (use step upd inv in \<open>auto simp: batch_inv_def\<close>)
qed

lemma batch_runs_inv:
  assumes "batch_runs c c'" and "batch_inv m rate cap start c" and "0 \<le> rate" and "0 \<le> cap"
  shows "batch_inv m rate cap start c'"
  using assms(1) unfolding batch_runs_def
proof (induction rule: rtranclp_induct)
  case (step c1 c2)
  from step.hyps(2) step.IH show ?case
  proof cases
    case (caller i ts b now wall inner pc b')
    then show ?thesis using chat_step_inv step.IH assms(3,4) by blast
  next
    case (newcomer ts b)
    with step.IH show ?thesis by (simp add: batch_inv_def)
  qed
qed (rule assms(2))

lemma batcher_init_inv:
  assumes "batcher_init inner m rate burst start = Inr b" and "0 \<le> tb_capacity (ba_bucket b)"
  shows "batch_inv m rate (tb_capacity (ba_bucket b)) start ([], b)"
  using assms
  by (auto simp: batcher_init_def batch_inv_def bucket_init_def stats_init_def Let_def split: sum.splits if_splits)

section \<open>Properties\<close>

text \<open>
  C9. The kernel never overloads the service. In every interleaving of any number of threads
  calling \<open>chat\<close>, at most \<open>max_concurrent\<close> of them are inside the underlying client at
  once; the in-flight counter is exactly the number of threads between entering and leaving,
  never exceeds its peak, and the peak never exceeds the cap; the free slots and the slots held
  add up, so the bounded semaphore is never over-released.
\<close>

theorem batcher_caps_concurrency:
  assumes "batcher_init inner m rate burst start = Inr b0" and "batch_runs ([], b0) (ts, b)"
    and "0 \<le> rate" and "0 \<le> tb_capacity (ba_bucket b0)"
  shows "int (length (filter (\<lambda>pc. \<exists>t. pc = Chatting t) ts)) \<le> bs_in_flight (ba_stats b)
    \<and> bs_in_flight (ba_stats b) = tally counted ts
    \<and> bs_in_flight (ba_stats b) \<le> bs_peak_in_flight (ba_stats b) \<and> bs_peak_in_flight (ba_stats b) \<le> m
    \<and> ba_slots b + tally has_slot ts = m \<and> 0 \<le> ba_slots b"
proof -
  have inv: "batch_inv m rate (tb_capacity (ba_bucket b0)) start (ts, b)"
    using batch_runs_inv [OF assms(2) batcher_init_inv [OF assms(1,4)] assms(3,4)] .
  have "int (length (filter (\<lambda>pc. \<exists>t. pc = Chatting t) ts)) \<le> tally counted ts"
  proof (induction ts)
    case (Cons pc ts)
    then show ?case using counted_nonneg [of pc] by (auto simp: tally_def)
  qed simp
  with inv show ?thesis by (auto simp: batch_inv_def)
qed

text \<open>A batcher with two slots, five requests per second, and one thread in flight.\<close>

definition demo_batcher :: batcher where
  "demo_batcher =
     \<lparr>ba_bucket = bucket_init 5 None 0, ba_slots = 2, ba_max_concurrent = 2, ba_stats = stats_init\<rparr>"

text \<open>A call that runs alone, at one moment.\<close>

primrec chat_alone :: "nat \<Rightarrow> chat_pc \<times> batcher \<Rightarrow> chat_pc \<times> batcher" where
  "chat_alone 0 c = c"
| "chat_alone (Suc k) c = chat_alone k (chat_step 0 0 (Inl (OtherExc '''' '''')) (fst c) (snd c))"

definition demo_call :: "chat_pc list \<times> batcher" where
  "demo_call = (let c = chat_alone 4 (ChatOut, demo_batcher) in ([fst c], snd c))"

lemma demo_batcher_init: "batcher_init (Inr c) 2 5 None 0 = Inr demo_batcher"
  by (simp add: batcher_init_def demo_batcher_def)

lemma batch_runs_caller:
  "batch_runs c ([pc], b) \<Longrightarrow> tb_last (ba_bucket b) \<le> now \<Longrightarrow>
     chat_step now wall inner pc b = (pc', b') \<Longrightarrow> batch_runs c ([pc'], b')"
  unfolding batch_runs_def
  by (erule rtranclp.rtrancl_into_rtrancl) (metis batch_step.caller length_Cons list_update_code(2) nth_Cons_0 zero_less_Suc)

lemma demo_call_value:
  "demo_call = ([Chatting 0], demo_batcher\<lparr>
     ba_bucket := \<lparr>tb_rate = 5, tb_capacity = 5, tb_tokens = 4, tb_last = 0\<rparr>, ba_slots := 1,
     ba_stats := stats_init\<lparr>bs_in_flight := 1, bs_peak_in_flight := 1, bs_total_calls := 1\<rparr>\<rparr>)"
  by (simp add: demo_call_def demo_batcher_def bucket_init_def bucket_try_def refill_def on_stats_def
      note_enter_def stats_init_def Let_def numeral_eq_Suc)

lemma chat_step_last:
  "chat_step now wall inner pc b = (pc', b') \<Longrightarrow>
     tb_last (ba_bucket b') = tb_last (ba_bucket b) \<or> tb_last (ba_bucket b') = now"
  by (cases pc)
    (auto simp: on_stats_def bucket_try_def refill_def Let_def split: if_splits prod.splits attempt.splits)

lemma chat_alone_runs:
  "batch_runs c ([pc], b) \<Longrightarrow> tb_last (ba_bucket b) \<le> 0 \<Longrightarrow> chat_alone k (pc, b) = (pc', b') \<Longrightarrow>
     batch_runs c ([pc'], b')"
proof (induction k arbitrary: pc b)
  case (Suc k)
  obtain p1 b1 where s: "chat_step 0 0 (Inl (OtherExc '''' '''')) pc b = (p1, b1)"
    by (cases "chat_step 0 0 (Inl (OtherExc '''' '''')) pc b")
  have "tb_last (ba_bucket b1) \<le> 0" using chat_step_last [OF s] Suc.prems(2) by auto
  with Suc.IH [OF batch_runs_caller [OF Suc.prems(1,2) s]] Suc.prems(3) s show ?case by simp
qed simp

lemma demo_call_runs: "batch_runs ([], demo_batcher) demo_call"
proof -
  have "batch_runs ([], demo_batcher) ([ChatOut], demo_batcher)"
    unfolding batch_runs_def using batch_step.newcomer [of "[]" demo_batcher] by auto
  moreover have "tb_last (ba_bucket demo_batcher) \<le> 0" by (simp add: demo_batcher_def bucket_init_def)
  ultimately show ?thesis
    unfolding demo_call_def Let_def using chat_alone_runs prod.collapse by metis
qed

theorem batcher_caps_concurrency_witness:
  "bs_in_flight (ba_stats (snd demo_call)) = 1 \<and> bs_peak_in_flight (ba_stats (snd demo_call)) \<le> 2"
proof -
  have cap: "0 \<le> tb_capacity (ba_bucket demo_batcher)" by (simp add: demo_batcher_def bucket_init_def)
  have "batch_runs ([], demo_batcher) (fst demo_call, snd demo_call)" using demo_call_runs by simp
  from batcher_caps_concurrency [OF demo_batcher_init this _ cap]
  show ?thesis by (simp add: demo_call_value tally_def)
qed

text \<open>
  C10. The rate limit holds over every window from the start: in every interleaving the number of
  calls let through is at most the capacity of the bucket plus the rate times the time that
  has passed.
\<close>

theorem batcher_rate_limit:
  assumes "batcher_init inner m rate burst start = Inr b0" and "batch_runs ([], b0) (ts, b)"
    and "0 \<le> rate" and "0 \<le> tb_capacity (ba_bucket b0)"
  shows "real_of_int (bs_total_calls (ba_stats b))
    \<le> tb_capacity (ba_bucket b0) + rate * (tb_last (ba_bucket b) - start)"
proof -
  have "batch_inv m rate (tb_capacity (ba_bucket b0)) start (ts, b)"
    using batch_runs_inv [OF assms(2) batcher_init_inv [OF assms(1,4)] assms(3,4)] .
  moreover have "0 \<le> tally token_only ts" using token_only_nonneg by (rule tally_nonneg)
  ultimately show ?thesis by (auto simp: batch_inv_def)
qed

theorem batcher_rate_limit_witness:
  "real_of_int (bs_total_calls (ba_stats (snd demo_call))) \<le> 5 \<and> bs_total_calls (ba_stats (snd demo_call)) = 1"
proof -
  have cap: "tb_capacity (ba_bucket demo_batcher) = 5" by (simp add: demo_batcher_def bucket_init_def)
  have "batch_runs ([], demo_batcher) (fst demo_call, snd demo_call)" using demo_call_runs by simp
  from batcher_rate_limit [OF demo_batcher_init this] cap show ?thesis by (simp add: demo_call_value)
qed

end
