(* ===== verification/Os_Caps.thy ===== *)
theory Os_Caps
  imports Py_Text
begin

text \<open>
  The posture of the host (\<open>gcos/osprims/__init__.py\<close>): what the probes find, the report with
  its cache, and the banner and warning of a degraded host. What the host answers to a probe
  is a parameter (\<open>probe_answers\<close>).
\<close>

section \<open>Capabilities\<close>

record os_capabilities =
  oc_platform :: string
  oc_posix :: bool
  oc_signals :: bool
  oc_mmap_madvise :: bool
  oc_posix_shm :: bool
  oc_cgroup_v2 :: bool
  oc_cgroup_writable :: bool
  oc_seccomp :: bool
  oc_ebpf :: bool

definition kernel_enforced :: "os_capabilities \<Rightarrow> bool" where
  "kernel_enforced c \<longleftrightarrow> oc_cgroup_writable c \<and> oc_signals c"

text \<open>\<open>to_dict\<close>: the fields and the derived flag.\<close>

record caps_row = os_capabilities +
  cr_kernel_enforced :: bool

definition caps_to_dict :: "os_capabilities \<Rightarrow> caps_row" where
  "caps_to_dict c = os_capabilities.extend c (caps_row.fields (kernel_enforced c))"

section \<open>Probes\<close>

text \<open>How a call that changes a directory ends.\<close>

datatype dir_outcome = Dir_done | Dir_exists | Dir_refused

text \<open>
  The answers of a host. The probe of the cgroup tree makes at most two directories and
  removes at most two; the answers are those of the first and the second call.
\<close>

record probe_answers =
  pb_system :: string
  pb_os_name :: string
  pb_sys_platform :: string
  pb_has_signal :: "string \<Rightarrow> bool"
  pb_mmap :: bool
  pb_has_advice :: "string \<Rightarrow> bool"
  pb_importable :: "string \<Rightarrow> bool"
  pb_controllers :: bool
  pb_mkdir1 :: dir_outcome
  pb_rmdir1 :: dir_outcome
  pb_mkdir2 :: dir_outcome
  pb_rmdir2 :: dir_outcome

definition probe_cgroup_v2 :: "probe_answers \<Rightarrow> bool \<times> bool" where
  "probe_cgroup_v2 a =
     (if \<not> pb_controllers a then (False, False)
      else case pb_mkdir1 a of
             Dir_exists \<Rightarrow>
               if pb_rmdir1 a \<noteq> Dir_done then (True, False)
               else if pb_mkdir2 a \<noteq> Dir_done then (True, False)
               else if pb_rmdir2 a \<noteq> Dir_done then (True, False)
               else (True, True)
           | Dir_refused \<Rightarrow> (True, False)
           | Dir_done \<Rightarrow> (True, True))"

definition probe_mmap_madvise :: "probe_answers \<Rightarrow> bool" where
  "probe_mmap_madvise a = (pb_mmap a \<and> (pb_has_advice a ''MADV_DONTNEED'' \<or> pb_has_advice a ''MADV_FREE''))"

definition probe_posix_shm :: "probe_answers \<Rightarrow> bool" where
  "probe_posix_shm a = pb_importable a ''multiprocessing.shared_memory''"

definition probe_seccomp :: "probe_answers \<Rightarrow> bool" where
  "probe_seccomp a = (starts_with ''linux'' (pb_sys_platform a) \<and> pb_importable a ''seccomp'')"

definition probe_ebpf :: "probe_answers \<Rightarrow> bool" where
  "probe_ebpf a = (starts_with ''linux'' (pb_sys_platform a) \<and> pb_importable a ''bcc'')"

definition os_caps :: "probe_answers \<Rightarrow> os_capabilities" where
  "os_caps a =
     (let posix = (pb_os_name a = ''posix'');
          (v2, w) = probe_cgroup_v2 a
      in \<lparr>oc_platform = str_lower (pb_system a), oc_posix = posix,
          oc_signals = (posix \<and> pb_has_signal a ''SIGSTOP'' \<and> pb_has_signal a ''SIGCONT''),
          oc_mmap_madvise = probe_mmap_madvise a, oc_posix_shm = probe_posix_shm a,
          oc_cgroup_v2 = v2, oc_cgroup_writable = w, oc_seccomp = probe_seccomp a,
          oc_ebpf = probe_ebpf a\<rparr>)"

section \<open>Reports\<close>

text \<open>
  \<open>caps_info(refresh)\<close>: the cache before the call (\<open>None\<close>: empty), the answers of the host if
  it is probed; the report and the cache after the call.
\<close>

definition caps_info :: "bool \<Rightarrow> probe_answers \<Rightarrow> os_capabilities option \<Rightarrow> caps_row \<times> os_capabilities option" where
  "caps_info refresh a cache =
     (let cache' = (if refresh \<or> cache = None then Some (os_caps a) else cache)
      in (caps_to_dict (the cache'), cache'))"

text \<open>The capabilities a call uses: those passed, or a probe.\<close>

definition caps_or_probe :: "os_capabilities option \<Rightarrow> probe_answers \<Rightarrow> os_capabilities" where
  "caps_or_probe caps a = (case caps of None \<Rightarrow> os_caps a | Some c \<Rightarrow> c)"

definition caps_banner :: "string \<Rightarrow> os_capabilities option \<Rightarrow> probe_answers \<Rightarrow> string" where
  "caps_banner degrade_banner caps a =
     (if \<not> kernel_enforced (caps_or_probe caps a) then degrade_banner else [])"

definition warn_if_degraded :: "string \<Rightarrow> os_capabilities option \<Rightarrow> probe_answers \<Rightarrow> string list" where
  "warn_if_degraded degrade_banner caps a =
     (if \<not> kernel_enforced (caps_or_probe caps a) then [degrade_banner] else [])"

section \<open>Properties\<close>

text \<open>
  Enforcement is never claimed on a guess: the report says that the kernel enforces limits only
  if this process has just made a directory in the cgroup tree, and has the signals; a directory
  left by somebody else does not count unless it could be removed and made again. The report
  without refresh is that of the first probe, whatever the host answers later, and a warning
  is given exactly when the banner is shown.
\<close>

theorem posture_is_probed:
  "(cr_kernel_enforced (fst (caps_info True a cache)) \<longrightarrow>
      pb_controllers a \<and> pb_has_signal a ''SIGSTOP'' \<and> pb_has_signal a ''SIGCONT''
      \<and> (pb_mkdir1 a = Dir_done \<or> pb_mkdir1 a = Dir_exists \<and> pb_mkdir2 a = Dir_done))
   \<and> fst (caps_info False b (snd (caps_info r a cache))) = fst (caps_info r a cache)
   \<and> (caps_banner (t # ts) caps a = [] \<longleftrightarrow> warn_if_degraded (t # ts) caps a = [])"
  by (auto simp: caps_info_def caps_to_dict_def kernel_enforced_def os_caps_def probe_cgroup_v2_def Let_def
      caps_row.defs os_capabilities.defs caps_banner_def warn_if_degraded_def
      split: dir_outcome.splits if_splits prod.splits)

end
