(* ===== verification/Kernel.thy ===== *)
theory Kernel
  imports Worker_Pool Process_Tree Pid_Alloc Ring_Log Cgroup Batcher Os_Caps
begin

text \<open>
  The kernel facade (\<open>gcos/kernel/kernel.py\<close>) with its configuration: construction, start
  and shutdown, \<open>spawn\<close>, \<open>kill\<close>, \<open>reap_terminal\<close>, \<open>swap_in\<close>,
  \<open>status\<close>. The state holds the shared state of the worker pool (\<open>kn_sys\<close>) and the
  workers (\<open>kn_workers\<close>), so that a kernel runs by steps of its workers interleaved with
  calls. The model is that of the thread back end; parsing of floating-point literals is a
  parameter.
\<close>

section \<open>Configuration\<close>

record kernel_config =
  kc_scheduler :: string
  kc_workers :: int
  kc_quota_total :: int
  kc_default_quota :: int
  kc_default_timeout :: real
  kc_batcher_max_concurrent :: int
  kc_batcher_rate_per_s :: real
  kc_ring_log_capacity :: int
  kc_context_budget_tokens :: int
  kc_cgroup_pids_max :: "int option"
  kc_cgroup_memory_max :: "int option"
  kc_cgroup_cpu_max :: "string option"
  kc_executor_backend :: string

definition kernel_config_default :: kernel_config where
  "kernel_config_default =
     \<lparr>kc_scheduler = ''fcfs'', kc_workers = 4, kc_quota_total = 100, kc_default_quota = 10,
      kc_default_timeout = 30, kc_batcher_max_concurrent = 4, kc_batcher_rate_per_s = 5,
      kc_ring_log_capacity = 256, kc_context_budget_tokens = 4096, kc_cgroup_pids_max = Some 512,
      kc_cgroup_memory_max = None, kc_cgroup_cpu_max = None, kc_executor_backend = ''thread''\<rparr>"

definition getenv_or :: "(string \<Rightarrow> string option) \<Rightarrow> string \<Rightarrow> string \<Rightarrow> string" where
  "getenv_or getenv name dflt = (case getenv name of None \<Rightarrow> dflt | Some v \<Rightarrow> v)"

definition opt_int :: "string option \<Rightarrow> int option \<Rightarrow> py_exc + int option" where
  "opt_int v dflt =
     (case v of
        None \<Rightarrow> Inr dflt
      | Some s \<Rightarrow> if s = '''' then Inr dflt else andthen (py_int s) (\<lambda>n. Inr (Some n)))"

definition config_from_env ::
  "(string \<Rightarrow> py_exc + real) \<Rightarrow> (string \<Rightarrow> string option) \<Rightarrow> py_exc + kernel_config" where
  "config_from_env py_float getenv =
     andthen (py_int (getenv_or getenv ''GCOS_WORKERS'' ''4'')) (\<lambda>workers.
     andthen (py_int (getenv_or getenv ''GCOS_QUOTA_TOTAL'' ''100'')) (\<lambda>quota_total.
     andthen (py_int (getenv_or getenv ''GCOS_DEFAULT_QUOTA'' ''10'')) (\<lambda>default_quota.
     andthen (py_float (getenv_or getenv ''GCOS_DEFAULT_TIMEOUT'' ''30'')) (\<lambda>default_timeout.
     andthen (py_int (getenv_or getenv ''GCOS_BATCHER_CONCURRENT'' ''4'')) (\<lambda>concurrent.
     andthen (py_float (getenv_or getenv ''GCOS_BATCHER_RATE'' ''5'')) (\<lambda>rate.
     andthen (py_int (getenv_or getenv ''GCOS_RING_LOG'' ''256'')) (\<lambda>ring.
     andthen (py_int (getenv_or getenv ''GCOS_CONTEXT_BUDGET'' ''4096'')) (\<lambda>context_budget.
     andthen (opt_int (getenv ''GCOS_CGROUP_PIDS_MAX'') (Some 512)) (\<lambda>pids_max.
     andthen (opt_int (getenv ''GCOS_CGROUP_MEMORY_MAX'') None) (\<lambda>memory_max.
       Inr \<lparr>kc_scheduler = getenv_or getenv ''GCOS_SCHEDULER'' ''fcfs'', kc_workers = workers,
            kc_quota_total = quota_total, kc_default_quota = default_quota,
            kc_default_timeout = default_timeout, kc_batcher_max_concurrent = concurrent,
            kc_batcher_rate_per_s = rate, kc_ring_log_capacity = ring,
            kc_context_budget_tokens = context_budget, kc_cgroup_pids_max = pids_max,
            kc_cgroup_memory_max = memory_max,
            kc_cgroup_cpu_max = (case getenv ''GCOS_CGROUP_CPU_MAX'' of
               None \<Rightarrow> None | Some s \<Rightarrow> if s = '''' then None else Some s),
            kc_executor_backend = getenv_or getenv ''GCOS_EXEC'' ''thread''\<rparr>))))))))))"

section \<open>The kernel\<close>

record kernel =
  kn_config :: kernel_config
  kn_pids :: pid_allocator
  kn_sys :: sys
  kn_pool :: worker_pool
  kn_workers :: "wpc list"
  kn_threads :: nat
  kn_started :: bool
  kn_daemon :: "cgroup option"
  kn_cgroups :: cg_fs
  kn_pager :: context_pager
  kn_trace :: ring_log
  kn_logger :: py_logger

text \<open>
  \<open>Kernel(config)\<close> in a process with the given world (its clock, disk and LLM requests so far),
  logger and cgroup files. The quota of the world is the kernel's own.
\<close>

definition kernel_init ::
  "kernel_config \<Rightarrow> world \<Rightarrow> py_logger \<Rightarrow> cg_fs \<Rightarrow> py_exc + kernel" where
  "kernel_init config w logger fs =
     andthen (quota_init (kc_quota_total config)) (\<lambda>quota.
     andthen (make_scheduler (kc_scheduler config)) (\<lambda>scheduler.
       if kc_ring_log_capacity config < 0
       then Inl (OtherExc ''ValueError'' ''maxlen must be non-negative'')
       else
         let (logger', trace) = attach_to_logger logger (ring_init (nat (kc_ring_log_capacity config)) 20)
         in Inr \<lparr>kn_config = config, kn_pids = pid_init 1,
                 kn_sys = sys_init 64 (w\<lparr>w_quota := quota\<rparr>),
                 kn_pool = \<lparr>wp_scheduler = scheduler, wp_bus = True, wp_input_deadline_s = None\<rparr>,
                 kn_workers = [], kn_threads = 0, kn_started = False, kn_daemon = None, kn_cgroups = fs,
                 kn_pager = \<lparr>cpg_budget = kc_context_budget_tokens config,
                             cpg_policies = default_policies True\<rparr>,
                 kn_trace = trace, kn_logger = logger'\<rparr>))"

text \<open>\<open>WorkerPool.start\<close>; \<open>factory\<close> is the outcome of the client factory.\<close>

definition pool_start :: "py_exc + client option \<Rightarrow> kernel \<Rightarrow> kernel \<times> py_exc option" where
  "pool_start factory k =
     (if kn_threads k \<noteq> 0 then (k, Some (OtherExc ''RuntimeError'' ''WorkerPool already started''))
      else case factory of
             Inl e \<Rightarrow> (k, Some e)
           | Inr c \<Rightarrow>
               (let n = nat (kc_workers (kn_config k))
                in (k\<lparr>kn_workers := kn_workers k @ replicate n Idle, kn_threads := n\<rparr>, None)))"

definition pool_shutdown :: "kernel \<Rightarrow> kernel" where
  "pool_shutdown k = k\<lparr>kn_sys := (kn_sys k)\<lparr>sy_stop := True\<rparr>, kn_threads := 0\<rparr>"

definition kernel_start :: "cg_host \<Rightarrow> int \<Rightarrow> py_exc + client option \<Rightarrow> kernel \<Rightarrow> kernel \<times> py_exc option" where
  "kernel_start host self_pid factory k =
     (if kn_started k then (k, None)
      else
        let (daemon, fs) = place_daemon host self_pid (kc_cgroup_pids_max (kn_config k))
              (kc_cgroup_memory_max (kn_config k)) (kc_cgroup_cpu_max (kn_config k)) (kn_cgroups k);
            (k', err) = pool_start factory (k\<lparr>kn_daemon := daemon, kn_cgroups := fs\<rparr>)
        in (case err of Some e \<Rightarrow> (k', Some e) | None \<Rightarrow> (k'\<lparr>kn_started := True\<rparr>, None)))"

definition drop_all :: "pid list \<Rightarrow> sys \<Rightarrow> sys" where
  "drop_all ps s = fold (\<lambda>p s. s\<lparr>sy_bus := drop_mailbox p (sy_bus s)\<rparr>) ps s"

definition kernel_shutdown :: "kernel \<Rightarrow> kernel" where
  "kernel_shutdown k =
     (if \<not> kn_started k then k
      else
        let k1 = (pool_shutdown k)\<lparr>kn_daemon := None\<rparr>
        in k1\<lparr>kn_sys := drop_all (map fst (bus_snapshot (sy_bus (kn_sys k1)))) (kn_sys k1),
              kn_started := False\<rparr>)"

section \<open>The calls\<close>

record spawn_args =
  sa_prompt :: string
  sa_name :: string
  sa_priority :: int
  sa_timeout_s :: "real option"
  sa_quota :: "int option"
  sa_capability :: "capability_set option"
  sa_parent_pid :: "pid option"
  sa_pipe_to :: "pid option"
  sa_input_from :: "pid option"

definition spawn_agent :: "kernel \<Rightarrow> spawn_args \<Rightarrow> pid \<Rightarrow> time \<Rightarrow> agent" where
  "spawn_agent k r p now =
     (new_agent p (sa_name r) (sa_prompt r) now)
       \<lparr>acb_priority := sa_priority r,
        acb_timeout_s := (case sa_timeout_s r of None \<Rightarrow> kc_default_timeout (kn_config k) | Some t \<Rightarrow> t),
        acb_quota_remaining := (case sa_quota r of None \<Rightarrow> kc_default_quota (kn_config k) | Some q \<Rightarrow> q),
        acb_capability := (case sa_capability r of None \<Rightarrow> cap_default_user | Some c \<Rightarrow> c),
        acb_parent_pid := sa_parent_pid r, acb_pipe_to := sa_pipe_to r, acb_input_from := sa_input_from r,
        acb_pager := Some (kn_pager k)\<rparr>"

definition link_parent :: "pid option \<Rightarrow> pid \<Rightarrow> sys \<Rightarrow> sys" where
  "link_parent parent p s =
     (case parent of
        None \<Rightarrow> s
      | Some q \<Rightarrow> (case table_get (sy_table s) q of
                    None \<Rightarrow> s | Some a \<Rightarrow> on_agent q (add_child p) s))"

definition spawn :: "spawn_args \<Rightarrow> kernel \<Rightarrow> kernel \<times> (py_exc + pid)" where
  "spawn r k =
     (let (p, pids) = pid_next (kn_pids k);
          k1 = k\<lparr>kn_pids := pids\<rparr>;
          a = spawn_agent k r p (now_of (sy_world (kn_sys k)))
      in case table_add a (sy_table (kn_sys k)) of
           Inl e \<Rightarrow> (k1, Inl e)
         | Inr t \<Rightarrow>
             (let s1 = (kn_sys k)\<lparr>sy_table := t\<rparr>;
                  s2 = link_parent (sa_parent_pid r) p s1;
                  s3 = (if sa_input_from r \<noteq> None then on_agent p (do_move WAITING) s2 else s2)
              in (k1\<lparr>kn_sys := queue_put p s3\<rparr>, Inr p)))"

definition kernel_get :: "pid \<Rightarrow> kernel \<Rightarrow> agent option" where
  "kernel_get p k = table_get (sy_table (kn_sys k)) p"

definition kernel_list_all :: "kernel \<Rightarrow> agent list" where
  "kernel_list_all k = table_snapshot (sy_table (kn_sys k))"

definition killed_by_user :: string where
  "killed_by_user = ''killed by user''"

text \<open>\<open>kill\<close> at a reading of the clock; \<open>None\<close> if the traversal of the tree does not return.\<close>

definition kill :: "pid \<Rightarrow> kernel \<Rightarrow> (kernel \<times> bool) option" where
  "kill p k =
     (let s = kn_sys k; now = now_of (sy_world s)
      in case table_get (sy_table s) p of
           None \<Rightarrow> Some (k, False)
         | Some a \<Rightarrow>
             if is_terminal a then Some (k, False)
             else
               case descendants_of (sy_table s) p of
                 None \<Rightarrow> None
               | Some ds \<Rightarrow>
                   (let s1 = on_agent p (zombify now killed_by_user) s;
                        s2 = s1\<lparr>sy_queue := snd (rq_pop p (sy_queue s1))\<rparr>
                    in case reap_descendants now killed_by_user p (sy_table s2) of
                         None \<Rightarrow> None
                       | Some (t, n) \<Rightarrow> Some (k\<lparr>kn_sys := drop_all (p # ds) (s2\<lparr>sy_table := t\<rparr>)\<rparr>, True)))"

definition reap_entry :: "agent \<Rightarrow> sys \<times> nat \<Rightarrow> sys \<times> nat" where
  "reap_entry a sn =
     (if is_terminal a
      then ((fst sn)\<lparr>sy_table := snd (table_remove (acb_pid a) (sy_table (fst sn))),
                     sy_bus := drop_mailbox (acb_pid a) (sy_bus (fst sn))\<rparr>, Suc (snd sn))
      else sn)"

definition reap_terminal :: "kernel \<Rightarrow> kernel \<times> nat" where
  "reap_terminal k =
     (let (s, n) = fold reap_entry (table_snapshot (sy_table (kn_sys k))) (kn_sys k, 0)
      in (k\<lparr>kn_sys := s\<rparr>, n))"

definition kernel_swap_in :: "pid \<Rightarrow> kernel \<Rightarrow> kernel \<times> (py_exc + int)" where
  "kernel_swap_in p k =
     (case table_get (sy_table (kn_sys k)) p of
        None \<Rightarrow> (k, Inr (- 1))
      | Some a \<Rightarrow>
          (k\<lparr>kn_sys := on_agent p pages_back (kn_sys k)\<rparr>, snd (swap_in (a, sy_world (kn_sys k)))))"

text \<open>\<open>k.quota.topup(n)\<close>, as the HTTP API calls it.\<close>

definition kernel_topup :: "int \<Rightarrow> kernel \<Rightarrow> kernel" where
  "kernel_topup n k = k\<lparr>kn_sys := on_quota (topup n (quota_of (kn_sys k))) (kn_sys k)\<rparr>"

definition kernel_wait_idle :: "kernel list \<Rightarrow> bool" where
  "kernel_wait_idle seen = pool_wait_idle (map kn_sys seen)"

section \<open>Status\<close>

definition count_state :: "(string \<times> nat) list \<Rightarrow> agent \<Rightarrow> (string \<times> nat) list" where
  "count_state d a =
     (let s = state_value (acb_state a)
      in AList.update s ((case map_of d s of None \<Rightarrow> 0 | Some n \<Rightarrow> n) + 1) d)"

record daemon_row =
  dr_path :: string
  dr_memory_current :: "int option"
  dr_cpu_usage_us :: "int option"
  dr_pids_max :: "int option"

record kernel_status =
  ks_scheduler :: string
  ks_workers :: int
  ks_busy :: int
  ks_queue_len :: nat
  ks_in_flight :: int
  ks_total_agents :: nat
  ks_by_state :: "(string \<times> nat) list"
  ks_quota :: quota_row
  ks_batcher :: "stats_row option"
  ks_bus_pending :: "(pid \<times> nat) list"
  ks_sandbox :: sandbox_row
  ks_osprims :: caps_row
  ks_daemon_cgroup :: "daemon_row option"
  ks_trace_size :: nat

text \<open>
  What \<open>status\<close> reads besides the kernel: the statistics of the pool's client if it has any,
  the reports of the sandbox and of the host, the files of the cgroup tree.
\<close>

record status_sources =
  se_batcher :: "stats_row option"
  se_sandbox :: sandbox_row
  se_osprims :: caps_row
  se_contents :: "string \<Rightarrow> string option"

definition daemon_report :: "(string \<Rightarrow> string option) \<Rightarrow> kernel \<Rightarrow> py_exc + daemon_row option" where
  "daemon_report contents k =
     (case kn_daemon k of
        None \<Rightarrow> Inr None
      | Some g \<Rightarrow>
          andthen (cpu_usage_us contents g) (\<lambda>usage.
            Inr (Some \<lparr>dr_path = cg_path g, dr_memory_current = memory_current contents g,
                       dr_cpu_usage_us = usage, dr_pids_max = kc_cgroup_pids_max (kn_config k)\<rparr>)))"

definition status :: "status_sources \<Rightarrow> kernel \<Rightarrow> py_exc + kernel_status" where
  "status src k =
     andthen (daemon_report (se_contents src) k) (\<lambda>daemon.
       let s = kn_sys k; snap = table_snapshot (sy_table s)
       in Inr \<lparr>ks_scheduler = sched_name (wp_scheduler (kn_pool k)), ks_workers = kc_workers (kn_config k),
          ks_busy = sy_busy s, ks_queue_len = rq_len (sy_queue s), ks_in_flight = rq_in_flight (sy_queue s),
          ks_total_agents = length snap, ks_by_state = foldl count_state [] snap,
          ks_quota = quota_snapshot (quota_of s), ks_batcher = se_batcher src,
          ks_bus_pending = bus_snapshot (sy_bus s), ks_sandbox = se_sandbox src, ks_osprims = se_osprims src,
          ks_daemon_cgroup = daemon, ks_trace_size = ring_len (kn_trace k)\<rparr>)"

section \<open>All interleavings of workers and calls\<close>

inductive kernel_step :: "kernel \<Rightarrow> kernel \<Rightarrow> bool" where
  worker_moves: "i < length (kn_workers k) \<Longrightarrow>
    worker_step (kn_pool k) run_step notified env (kn_workers k ! i) (kn_sys k) = (pc, s) \<Longrightarrow>
    kernel_step k (k\<lparr>kn_workers := (kn_workers k)[i := pc], kn_sys := s\<rparr>)"
| call_spawn: "sa_parent_pid r \<noteq> Some (pa_counter (kn_pids k)) \<Longrightarrow> kernel_step k (fst (spawn r k))"
| call_kill: "kill p k = Some (k', b) \<Longrightarrow> kernel_step k k'"
| call_reap: "kernel_step k (fst (reap_terminal k))"
| call_swap_in: "kernel_step k (fst (kernel_swap_in p k))"
| call_topup: "0 \<le> n \<Longrightarrow> kernel_step k (kernel_topup n k)"
| call_start: "kernel_step k (fst (kernel_start host self_pid factory k))"
| call_shutdown: "kernel_step k (kernel_shutdown k)"

definition kernel_runs :: "kernel \<Rightarrow> kernel \<Rightarrow> bool" where
  "kernel_runs = kernel_step\<^sup>*\<^sup>*"

end
