(* ===== verification/Kernel_Safety.thy ===== *)
theory Kernel_Safety
  imports Kernel Pool_Safety
begin

text \<open>
  Correctness of the kernel. Each call is a sequence of the kernel pieces of the pool's
  interleaving, so a kernel's runs are runs of the pool and the pool's invariants hold of them;
  the process tree stays a forest, which makes the traversals of \<open>kill\<close> return; and what
  each call does to the system.
\<close>

section \<open>Invariant\<close>

text \<open>
  The table is sound, the tree is a forest, PIDs handed out are below the counter, no spawn is
  half way between calls, and every agent uses the kernel's pager.
\<close>

definition kernel_inv :: "kernel \<Rightarrow> bool" where
  "kernel_inv k \<longleftrightarrow>
     table_inv (sy_table (kn_sys k)) \<and> forest (sy_table (kn_sys k))
     \<and> (\<forall>p \<in> dom (agent_at (kn_sys k)). p < pa_counter (kn_pids k))
     \<and> sy_spawning (kn_sys k) = []
     \<and> (\<exists>b. kn_pager k = \<lparr>cpg_budget = b, cpg_policies = default_policies True\<rparr>)
     \<and> (\<forall>p a. agent_at (kn_sys k) p = Some a \<longrightarrow> acb_pager a = Some (kn_pager k))"

section \<open>Calls are sequences of the pool's kernel pieces\<close>

lemma pool_runs_refl: "pool_runs wp runner c c"
  by (simp add: pool_runs_def)

lemma pool_runs_trans: "pool_runs wp runner c d \<Longrightarrow> pool_runs wp runner d e \<Longrightarrow> pool_runs wp runner c e"
  unfolding pool_runs_def by (rule rtranclp_trans)

lemma piece: "kop_ok x s \<Longrightarrow> kop_do x s = s' \<Longrightarrow> pool_runs wp runner (ws, s) (ws, s')"
  unfolding pool_runs_def using kernel [of x s wp runner ws] by auto

lemma on_agent_spawning [simp]:
  "on_agent p f (s\<lparr>sy_spawning := x\<rparr>) = (on_agent p f s)\<lparr>sy_spawning := x\<rparr>"
  by (simp add: on_agent_def agent_at_def sys_write_def split: option.split)

lemma link_parent_spawning:
  "link_parent q p (s\<lparr>sy_spawning := x\<rparr>) = (link_parent q p s)\<lparr>sy_spawning := x\<rparr>"
  by (simp add: link_parent_def split: option.split)

lemma link_parent_runs: "pool_runs wp runner (ws, s) (ws, link_parent q p s)"
  by (auto simp: link_parent_def pool_runs_refl split: option.split intro: piece [of "KChild _ p"])

lemma drop_all_runs: "pool_runs wp runner (ws, s) (ws, drop_all ps s)"
proof (induction ps arbitrary: s)
  case (Cons p ps)
  have "pool_runs wp runner (ws, s) (ws, s\<lparr>sy_bus := drop_mailbox p (sy_bus s)\<rparr>)"
    by (rule piece [of "KDropBox p"]) simp_all
  with Cons.IH show ?case
    unfolding drop_all_def by (auto intro: pool_runs_trans)
qed (simp add: drop_all_def pool_runs_refl)

lemma drop_all_simps [simp]:
  "sy_table (drop_all ps s) = sy_table s" "sy_queue (drop_all ps s) = sy_queue s"
  "sy_world (drop_all ps s) = sy_world s" "sy_stop (drop_all ps s) = sy_stop s"
  "sy_spawning (drop_all ps s) = sy_spawning s" "agent_at (drop_all ps s) = agent_at s"
  by (induction ps arbitrary: s) (simp_all add: drop_all_def)

lemma spawn_runs:
  assumes inv: "kernel_inv k" and "spawn r k = (k', res)"
  shows "pool_runs wp runner (ws, kn_sys k) (ws, kn_sys k') \<and> res = Inr (pa_counter (kn_pids k))"
proof -
  let ?s = "kn_sys k" and ?p = "pa_counter (kn_pids k)"
  let ?a = "spawn_agent k r ?p (now_of (sy_world ?s))"
  have pid: "acb_pid ?a = ?p" and calls: "acb_llm_calls_used ?a = 0"
    by (simp_all add: spawn_agent_def new_agent_def)
  have fresh: "agent_at ?s ?p = None" using inv by (auto simp: kernel_inv_def)
  then have key: "?p \<notin> set (pt_keys (sy_table ?s))"
    using inv by (auto simp: kernel_inv_def table_inv_def agent_at_def)
  obtain t where t: "table_add ?a (sy_table ?s) = Inr t" using key by (simp add: table_add_def pid)
  let ?s1 = "?s\<lparr>sy_table := t\<rparr>"
  let ?s2 = "link_parent (sa_parent_pid r) ?p ?s1"
  let ?s3 = "if sa_input_from r \<noteq> None then on_agent ?p (do_move WAITING) ?s2 else ?s2"
  let ?g = "\<lambda>s. s\<lparr>sy_spawning := [?p]\<rparr>"
  have sp: "sy_spawning ?s = []" using inv by (simp add: kernel_inv_def)
  have k': "kn_sys k' = queue_put ?p ?s3" and res: "res = Inr ?p"
    using assms(2) by (auto simp: spawn_def pid_next_def t Let_def)
  have "kop_do (KAdd ?a) ?s = ?g ?s1" by (simp add: t pid sp)
  then have 1: "pool_runs wp runner (ws, ?s) (ws, ?g ?s1)"
    by (rule piece [rotated]) (simp add: fresh key pid calls)
  have 2: "pool_runs wp runner (ws, ?g ?s1) (ws, ?g ?s2)"
    using link_parent_runs [of wp runner ws "?g ?s1" "sa_parent_pid r" ?p] by (simp only: link_parent_spawning)
  have 3: "pool_runs wp runner (ws, ?g ?s2) (ws, ?g ?s3)"
    by (auto simp: pool_runs_refl intro: piece [of "KPark ?p"])
  have "(?g ?s3)\<lparr>sy_spawning := []\<rparr> = ?s3"
    using sp by (auto simp: link_parent_def on_agent_def sys_write_def split: option.split)
  then have "kop_do (KEnqueue ?p) (?g ?s3) = queue_put ?p ?s3" by simp
  then have 4: "pool_runs wp runner (ws, ?g ?s3) (ws, queue_put ?p ?s3)"
    by (rule piece [rotated]) simp
  from 1 2 3 4 show ?thesis unfolding k' res by (blast intro: pool_runs_trans)
qed

lemma reap_fold_runs:
  "pool_runs wp runner (ws, s\<lparr>sy_table := fst tn\<rparr>)
     (ws, s\<lparr>sy_table := fst (fold (reap_one now reason p) ds tn)\<rparr>)"
proof (induction ds arbitrary: tn)
  case (Cons c ds)
  have "pool_runs wp runner (ws, s\<lparr>sy_table := fst tn\<rparr>) (ws, s\<lparr>sy_table := fst (reap_one now reason p c tn)\<rparr>)"
  proof (cases "fst (reap_one now reason p c tn) = fst tn")
    case False
    then obtain a where a: "pt_objs (fst tn) c = Some a" "fst (reap_one now reason p c tn)
        = obj_write c (set_error (reap_error reason p) (move now ZOMBIE a)) (fst tn)"
      by (auto simp: reap_one_def split: option.splits if_splits)
    show ?thesis
      by (rule piece [of "KZombie now c (reap_error reason p)"])
         (simp_all add: a on_agent_def agent_at_def sys_write_def zombify_def)
  qed (simp add: pool_runs_refl)
  from pool_runs_trans [OF this Cons.IH] show ?case by simp
qed (simp add: pool_runs_refl)

lemma kill_runs:
  assumes "kill p k = Some (k', b)"
  shows "pool_runs wp runner (ws, kn_sys k) (ws, kn_sys k') \<and> kn_workers k' = kn_workers k \<and> kn_pool k' = kn_pool k"
proof (cases b)
  case False
  then have "k' = k"
    using assms by (auto simp: kill_def Let_def split: option.splits if_splits)
  then show ?thesis by (simp add: pool_runs_refl)
next
  case True
  let ?s = "kn_sys k" and ?now = "now_of (sy_world (kn_sys k))"
  let ?s1 = "on_agent p (zombify ?now killed_by_user) ?s"
  let ?s2 = "?s1\<lparr>sy_queue := snd (rq_pop p (sy_queue ?s1))\<rparr>"
  obtain a ds t n where a: "table_get (sy_table ?s) p = Some a"
    and r: "reap_descendants ?now killed_by_user p (sy_table ?s2) = Some (t, n)"
    and k': "k' = k\<lparr>kn_sys := drop_all (p # ds) (?s2\<lparr>sy_table := t\<rparr>)\<rparr>"
    using assms True by (auto simp: kill_def Let_def split: option.splits if_splits)
  have 1: "pool_runs wp runner (ws, ?s) (ws, ?s1)"
    by (rule piece [of "KZombie ?now p killed_by_user"]) simp_all
  have "\<not> live ?s1 p"
    using table_getD [OF a] by (simp add: live_def on_agent_def agent_at_def sys_write_def zombify_def obj_write_def
        terminal_def terminal_states_def)
  then have 2: "pool_runs wp runner (ws, ?s1) (ws, ?s2)"
    by (intro piece [of "KDequeue p"]) simp_all
  obtain ds' where "descendants_of (sy_table ?s2) p = Some ds'"
    and "t = fst (fold (reap_one ?now killed_by_user p) ds' (sy_table ?s2, 0))"
    using r by (auto simp: reap_descendants_def split: option.splits dest: arg_cong [where f = fst])
  then have 3: "pool_runs wp runner (ws, ?s2) (ws, ?s2\<lparr>sy_table := t\<rparr>)"
    using reap_fold_runs [of wp runner ws "(sy_table ?s2, 0)" ?s2 ?now killed_by_user p ds'] by simp
  have "pool_runs wp runner (ws, ?s) (ws, drop_all (p # ds) (?s2\<lparr>sy_table := t\<rparr>))"
    by (rule pool_runs_trans [OF pool_runs_trans [OF pool_runs_trans [OF 1 2] 3] drop_all_runs])
  then show ?thesis unfolding k' by simp
qed

lemma reap_entry_runs: "pool_runs wp runner (ws, fst sn) (ws, fst (reap_entry a sn))"
proof (cases "is_terminal a")
  case True
  let ?s = "fst sn" and ?p = "acb_pid a"
  let ?s1 = "?s\<lparr>sy_table := snd (table_remove ?p (sy_table ?s))\<rparr>"
  have "pool_runs wp runner (ws, ?s) (ws, ?s1)" by (rule piece [of "KUnregister ?p"]) simp_all
  moreover have "pool_runs wp runner (ws, ?s1) (ws, ?s1\<lparr>sy_bus := drop_mailbox ?p (sy_bus ?s1)\<rparr>)"
    by (rule piece [of "KDropBox ?p"]) simp_all
  ultimately show ?thesis using True by (auto simp: reap_entry_def intro: pool_runs_trans)
qed (simp add: reap_entry_def pool_runs_refl)

lemma reap_entries_runs: "pool_runs wp runner (ws, fst sn) (ws, fst (fold reap_entry as sn))"
proof (induction "as" arbitrary: sn)
  case (Cons a "as")
  from pool_runs_trans [OF reap_entry_runs Cons.IH] show ?case by simp
qed (simp add: pool_runs_refl)

lemma threads_run: "pool_runs wp runner (ws, s) (ws @ replicate n Idle, s)"
proof (induction n arbitrary: ws)
  case (Suc n)
  have "pool_runs wp runner (ws, s) (ws @ [Idle], s)"
    using thread [of wp runner ws s] unfolding pool_runs_def by blast
  from pool_runs_trans [OF this Suc.IH] show ?case by simp
qed (simp add: pool_runs_refl)

text \<open>Starting threads and stopping: what the two lifecycle calls change.\<close>

lemma kernel_start_effect:
  "kn_sys (fst (kernel_start host self_pid factory k)) = kn_sys k"
  "kn_pool (fst (kernel_start host self_pid factory k)) = kn_pool k"
  "kn_pids (fst (kernel_start host self_pid factory k)) = kn_pids k"
  "kn_pager (fst (kernel_start host self_pid factory k)) = kn_pager k"
  "\<exists>n. kn_workers (fst (kernel_start host self_pid factory k)) = kn_workers k @ replicate n Idle"
  by (auto simp: kernel_start_def pool_start_def Let_def split: prod.splits sum.splits if_splits option.splits
      intro: exI [of _ 0])

lemma kernel_shutdown_effect:
  "kn_sys (kernel_shutdown k) = (if kn_started k
     then drop_all (map fst (bus_snapshot (sy_bus (kn_sys k)))) ((kn_sys k)\<lparr>sy_stop := True\<rparr>) else kn_sys k)"
  "kn_pool (kernel_shutdown k) = kn_pool k" "kn_pids (kernel_shutdown k) = kn_pids k"
  "kn_pager (kernel_shutdown k) = kn_pager k" "kn_workers (kernel_shutdown k) = kn_workers k"
  by (simp_all add: kernel_shutdown_def pool_shutdown_def Let_def)

lemma shutdown_runs: "pool_runs wp runner (ws, kn_sys k) (ws, kn_sys (kernel_shutdown k))"
proof (cases "kn_started k")
  case True
  have "pool_runs wp runner (ws, kn_sys k) (ws, (kn_sys k)\<lparr>sy_stop := True\<rparr>)"
    by (rule piece [of KStop]) simp_all
  from pool_runs_trans [OF this drop_all_runs] show ?thesis
    using True by (simp add: kernel_shutdown_effect)
qed (simp add: kernel_shutdown_effect pool_runs_refl)

lemma spawn_keeps:
  "kn_workers (fst (spawn r k)) = kn_workers k" "kn_pool (fst (spawn r k)) = kn_pool k"
  "kn_pager (fst (spawn r k)) = kn_pager k" "pa_counter (kn_pids (fst (spawn r k))) = pa_counter (kn_pids k) + 1"
  by (simp_all add: spawn_def pid_next_def Let_def split: sum.split)

lemma kernel_step_runs:
  assumes "kernel_step k k'" and "kernel_inv k"
  shows "pool_runs (kn_pool k) run_step (kn_workers k, kn_sys k) (kn_workers k', kn_sys k')
    \<and> kn_pool k' = kn_pool k"
  using assms(1)
proof cases
  case (worker_moves i notified env pc s)
  then show ?thesis
    using worker [of i "kn_workers k" "kn_pool k" run_step] unfolding pool_runs_def by auto
next
  case (call_spawn r)
  then show ?thesis
    using spawn_runs [OF assms(2), of r k' "snd (spawn r k)" "kn_pool k" run_step "kn_workers k"]
    by (simp add: spawn_keeps)
next
  case (call_kill p b)
  from kill_runs [OF this, of "kn_pool k" run_step "kn_workers k"] show ?thesis by simp
next
  case call_reap
  then show ?thesis
    using reap_entries_runs [of "kn_pool k" run_step "kn_workers k" "(kn_sys k, 0)"
        "table_snapshot (sy_table (kn_sys k))"]
    by (simp add: reap_terminal_def split_beta)
next
  case (call_swap_in p)
  then show ?thesis
    by (auto simp: kernel_swap_in_def pool_runs_refl split: option.split intro: piece [of "KSwapIn p"])
next
  case (call_topup n)
  then show ?thesis by (auto simp: kernel_topup_def intro: piece [of "KTopup n"])
next
  case (call_start host self_pid factory)
  obtain n where "kn_workers k' = kn_workers k @ replicate n Idle"
    using kernel_start_effect(5) call_start by blast
  then show ?thesis
    using threads_run [of "kn_pool k" run_step "kn_workers k" "kn_sys k" n] call_start
    by (simp add: kernel_start_effect)
next
  case call_shutdown
  then show ?thesis using shutdown_runs by (simp add: kernel_shutdown_effect)
qed

section \<open>The invariant is kept\<close>

text \<open>What the tree is made of: the children and the parent of every agent.\<close>

definition kin :: "sys \<Rightarrow> pid \<Rightarrow> (pid list \<times> pid option) option" where
  "kin s p = map_option (\<lambda>a. (acb_children a, acb_parent_pid a)) (agent_at s p)"

text \<open>Agents advance, the tree and the table's keys stay.\<close>

definition keeps :: "sys \<Rightarrow> sys \<Rightarrow> bool" where
  "keeps s s' \<longleftrightarrow> advance s s' \<and> kin s' = kin s \<and> pt_keys (sy_table s') = pt_keys (sy_table s)
     \<and> sy_spawning s' = sy_spawning s"

lemma keeps_refl [simp]: "keeps s s"
  by (simp add: keeps_def)

lemma keeps_trans: "keeps s t \<Longrightarrow> keeps t u \<Longrightarrow> keeps s u"
  using advance_trans by (auto simp: keeps_def)

lemma keeps_agents:
  assumes "sy_table s' = sy_table s" and "sy_spawning s' = sy_spawning s"
  shows "keeps s s'"
proof -
  have "agent_at s' = agent_at s" using assms by (simp add: agent_at_def fun_eq_iff)
  from same_agents(1) [OF this] this assms show ?thesis by (simp add: keeps_def kin_def fun_eq_iff)
qed

lemma keeps_write:
  assumes "agent_at s p = Some a" and "adv a (fst st)" and "acb_children (fst st) = acb_children a"
    and "acb_parent_pid (fst st) = acb_parent_pid a"
  shows "keeps s (sys_write p st s)"
  using assms sys_write_advance [OF assms(1,2)]
  by (auto simp: keeps_def kin_def fun_eq_iff sys_write_def obj_write_def agent_at_def)

definition gentle :: "(step_state \<Rightarrow> step_state) \<Rightarrow> bool" where
  "gentle f \<longleftrightarrow> mild f \<and> (\<forall>st. acb_children (fst (f st)) = acb_children (fst st)
     \<and> acb_parent_pid (fst (f st)) = acb_parent_pid (fst st))"

lemma gentle_pages_back: "gentle pages_back"
  unfolding gentle_def
proof (intro conjI allI mild_pages_back)
  fix st
  obtain st' r where "swap_in st = (st', r)" by (metis surj_pair)
  with load_pages_frame [of _ st st' r] obtain ps where "fst (pages_back st) = (fst st)\<lparr>acb_context_pages := ps\<rparr>"
    unfolding swap_in_def pages_back_def by fastforce
  then show "acb_children (fst (pages_back st)) = acb_children (fst st)"
    "acb_parent_pid (fst (pages_back st)) = acb_parent_pid (fst st)" by simp_all
qed

lemma gentle_intros [simp]:
  "gentle (do_move x)" "gentle (do_fail x e)" "gentle (take_input m)" "gentle (zombify t e)" "gentle pages_back"
  using gentle_pages_back by (auto simp: gentle_def take_input_def zombify_def)

lemma keeps_on_agent: "gentle f \<Longrightarrow> keeps s (on_agent p f s)"
  unfolding on_agent_def
  by (cases "agent_at s p") (auto simp: gentle_def mild_def intro!: keeps_write)

lemma keeps_queue_put: "keeps s (queue_put p s)"
proof (cases "agent_at s p")
  case None
  then show ?thesis by (auto simp: queue_put_def rq_put_def agent_at_def intro: keeps_agents)
next
  case (Some a)
  show ?thesis
  proof (cases "is_terminal a")
    case True
    with Some show ?thesis by (auto simp: queue_put_def rq_put_def agent_at_def intro: keeps_agents)
  next
    case False
    let ?st = "(move (now_of (sy_world s)) READY a, tick (sy_world s))"
    have "keeps s (sys_write p ?st s)"
      using Some by (rule keeps_write) (simp_all add: adv_def)
    moreover have "queue_put p s = (sys_write p ?st s)\<lparr>sy_queue := (sy_queue s)\<lparr>rq_q := rq_q (sy_queue s) @ [p]\<rparr>\<rparr>"
      using Some False by (simp add: queue_put_def rq_put_def agent_at_def sys_write_def)
    ultimately show ?thesis
      using keeps_trans keeps_agents by fastforce
  qed
qed

lemma keeps_call_runner:
  assumes "call_runner run_step env p n s = (pc', s')"
  shows "keeps s s'"
proof (cases "agent_at s p")
  case None
  with assms show ?thesis by (auto simp: call_runner_def leave_busy_def intro: keeps_agents)
next
  case (Some a)
  obtain st r where run: "run_step env (a, sy_world s) = (st, r)" by (metis surj_pair)
  have frame: "step_frame a (fst st)"
    using runner.step_frame_ok [of "(a, sy_world s)" env] run by simp
  have ends: "is_terminal a \<Longrightarrow> is_terminal (fst st)"
    using runner.step_absorbing [of "(a, sy_world s)" env] run by (simp add: is_terminal_def)
  let ?st = "case r of Inl e \<Rightarrow> do_fail ERROR (''worker crash: '' @ exc_str e) st | Inr b \<Rightarrow> st"
  have "s' = leave_busy (sys_write p ?st s)"
    using assms Some run by (auto simp: call_runner_def Let_def split: sum.splits)
  moreover have "keeps s (sys_write p ?st s)"
    using Some by (rule keeps_write) (use frame ends in \<open>auto simp: adv_def step_frame_def split: sum.split\<close>)
  moreover have "keeps (sys_write p ?st s) (leave_busy (sys_write p ?st s))"
    by (rule keeps_agents) (simp_all add: leave_busy_def)
  ultimately show ?thesis by (auto intro: keeps_trans)
qed

lemma worker_keeps:
  assumes "worker_step wp run_step notified env pc s = (pc', s')"
  shows "keeps s s'"
proof (cases pc)
  case Idle
  with assms show ?thesis
    by (auto simp: loop_top_def Let_def split: if_splits prod.splits option.splits intro: keeps_agents)
next
  case (Picked p)
  with assms show ?thesis
    by (auto simp: dispatch_enter_def split: option.splits if_splits intro: keeps_on_agent)
next
  case (Receiving p)
  have bus: "keeps s (s\<lparr>sy_bus := b\<rparr>)" for b by (rule keeps_agents) simp_all
  have "keeps s (on_agent p (take_input m) (s\<lparr>sy_bus := b\<rparr>))" "keeps s (s\<lparr>sy_bus := b\<rparr>)" for m b
    by (rule keeps_trans [OF bus keeps_on_agent]) (simp_all add: bus)
  with Receiving assms show ?thesis
    by (auto simp: receive_input_def Let_def split: prod.splits option.splits)
next
  case (Reparking p)
  show ?thesis
  proof (cases "agent_at s p")
    case (Some a)
    let ?s1 = "\<lambda>x. sys_write p (a\<lparr>acb_waiting_since := Some x\<rparr>, tick (sy_world s)) s"
    have 1: "keeps s (?s1 x)" for x
      using Some by (rule keeps_write) (simp_all add: adv_def is_terminal_def)
    have "keeps s (on_agent p f (?s1 x))" if "gentle f" for f x
      using keeps_trans [OF 1 keeps_on_agent [OF that]] .
    with Reparking Some assms show ?thesis
      by (auto simp: repark_waiting_def Let_def split: if_splits)
  qed (use Reparking assms in \<open>auto simp: repark_waiting_def\<close>)
next
  case (Calling p n)
  with assms show ?thesis by (auto intro: keeps_call_runner)
next
  case (Yielding p keep)
  with assms show ?thesis
    by (auto simp: yield_rest_def keeps_queue_put split: option.splits)
next
  case (After p keep)
  with assms show ?thesis
    by (auto simp: forward_result_def Let_def split: option.splits intro: keeps_agents)
next
  case (Loop p n keep)
  with assms show ?thesis
    by (cases n) (auto simp: loop_round_def on_quota_def split: if_splits prod.splits intro: keeps_agents)
qed (use assms in \<open>auto simp: on_quota_def wait_quota_def after_wait_def enter_busy_def settle_def task_done_def
      Let_def keeps_queue_put keeps_on_agent split: if_splits intro: keeps_agents\<close>)

lemma keeps_forest:
  assumes "keeps s s'" and "forest (sy_table s)"
  shows "forest (sy_table s')"
proof -
  have kin: "map_option (\<lambda>a. (acb_children a, acb_parent_pid a)) (pt_objs (sy_table s') p)
      = map_option (\<lambda>a. (acb_children a, acb_parent_pid a)) (pt_objs (sy_table s) p)" for p
    using assms(1) by (auto simp: keeps_def kin_def agent_at_def fun_eq_iff)
  have origin: "\<exists>a. pt_objs (sy_table s) p = Some a \<and> acb_children a = acb_children b \<and> acb_parent_pid a = acb_parent_pid b"
    if "pt_objs (sy_table s') p = Some b" for p b
    using kin [of p] that by (cases "pt_objs (sy_table s) p") auto
  have onward: "\<exists>b. pt_objs (sy_table s') p = Some b \<and> acb_parent_pid b = acb_parent_pid a"
    if "pt_objs (sy_table s) p = Some a" for p a
    using kin [of p] that by (cases "pt_objs (sy_table s') p") auto
  show ?thesis
    unfolding forest_def
  proof (intro allI impI conjI ballI)
    fix p b
    assume b: "pt_objs (sy_table s') p = Some b"
    then obtain a where a: "pt_objs (sy_table s) p = Some a" "acb_children a = acb_children b"
      using origin by blast
    have tree: "distinct (acb_children b) \<and> (\<forall>c \<in> set (acb_children b). p < c
        \<and> (\<exists>x. pt_objs (sy_table s) c = Some x \<and> acb_parent_pid x = Some p))"
      using assms(2) a(1) unfolding forest_def a(2) [symmetric] by blast
    then show "distinct (acb_children b)" ..
    fix c
    assume "c \<in> set (acb_children b)"
    with tree have "p < c \<and> (\<exists>x. pt_objs (sy_table s) c = Some x \<and> acb_parent_pid x = Some p)" by blast
    then show "p < c" "\<exists>x. pt_objs (sy_table s') c = Some x \<and> acb_parent_pid x = Some p"
      using onward by fastforce+
  qed
qed

text \<open>The invariant is kept when agents advance; entries of the table may go.\<close>

lemma kernel_inv_keeps:
  assumes inv: "kernel_inv k" and k: "keeps (kn_sys k) s'"
    and "kn_sys k' = s'" "kn_pids k' = kn_pids k" "kn_pager k' = kn_pager k"
  shows "kernel_inv k'"
proof -
  have adv: "advance (kn_sys k) s'" and keys: "pt_keys (sy_table s') = pt_keys (sy_table (kn_sys k))"
    using k by (simp_all add: keeps_def)
  have ids: "acb_pid b = p \<and> acb_pager b = Some (kn_pager k)" if "agent_at s' p = Some b" for p b
    using advanceD(3) [OF adv that] inv by (auto simp: kernel_inv_def table_inv_def agent_at_def adv_def)
  have "table_inv (sy_table s')"
    using inv keys ids advanceD(1) [OF adv] by (auto simp: kernel_inv_def table_inv_def agent_at_def)
  moreover have "forest (sy_table s')" using keeps_forest [OF k] inv by (simp add: kernel_inv_def)
  moreover have "dom (agent_at s') = dom (agent_at (kn_sys k))" using adv by (rule advance_dom)
  ultimately show ?thesis
    using inv ids k assms(3-5) by (simp add: kernel_inv_def keeps_def)
qed

lemma keeps_reap_one:
  "keeps (s\<lparr>sy_table := fst tn\<rparr>) (s\<lparr>sy_table := fst (reap_one now reason p c tn)\<rparr>)"
proof (cases "fst (reap_one now reason p c tn) = fst tn")
  case False
  then obtain a where a: "pt_objs (fst tn) c = Some a" "fst (reap_one now reason p c tn)
      = obj_write c (set_error (reap_error reason p) (move now ZOMBIE a)) (fst tn)"
    by (auto simp: reap_one_def split: option.splits if_splits)
  have "s\<lparr>sy_table := fst (reap_one now reason p c tn)\<rparr>
      = on_agent c (zombify now (reap_error reason p)) (s\<lparr>sy_table := fst tn\<rparr>)"
    by (simp add: a on_agent_def agent_at_def sys_write_def zombify_def)
  then show ?thesis using keeps_on_agent [of "zombify now (reap_error reason p)"] by simp
qed simp

lemma keeps_reap_fold:
  "keeps (s\<lparr>sy_table := fst tn\<rparr>) (s\<lparr>sy_table := fst (fold (reap_one now reason p) ds tn)\<rparr>)"
proof (induction ds arbitrary: tn)
  case (Cons c ds)
  from keeps_trans [OF keeps_reap_one Cons.IH] show ?case by simp
qed simp

lemma keeps_drop_all: "keeps s (drop_all ps s)"
  by (rule keeps_agents) simp_all

text \<open>What a successful kill does, in the order the code does it.\<close>

lemma kill_unfold:
  assumes "kill p k = Some (k', True)"
  obtains a ds ds' s2 where "table_get (sy_table (kn_sys k)) p = Some a" and "\<not> is_terminal a"
    and "descendants_of (sy_table (kn_sys k)) p = Some ds"
    and "s2 = (on_agent p (zombify (now_of (sy_world (kn_sys k))) killed_by_user) (kn_sys k))
           \<lparr>sy_queue := snd (rq_pop p (sy_queue (kn_sys k)))\<rparr>"
    and "descendants_of (sy_table s2) p = Some ds'"
    and "k' = k\<lparr>kn_sys := drop_all (p # ds) (s2\<lparr>sy_table :=
           fst (fold (reap_one (now_of (sy_world (kn_sys k))) killed_by_user p) ds' (sy_table s2, 0))\<rparr>)\<rparr>"
  using assms
  by (auto simp: kill_def reap_descendants_def Let_def split: option.splits if_splits
      dest: arg_cong [where f = fst])

lemma kill_keeps:
  assumes "kill p k = Some (k', b)"
  shows "keeps (kn_sys k) (kn_sys k') \<and> kn_pids k' = kn_pids k \<and> kn_pager k' = kn_pager k"
proof (cases b)
  case False
  with assms have "k' = k" by (auto simp: kill_def Let_def split: option.splits if_splits)
  then show ?thesis by simp
next
  case True
  let ?now = "now_of (sy_world (kn_sys k))"
  from assms True obtain ds ds' s2 where
    s2: "s2 = (on_agent p (zombify ?now killed_by_user) (kn_sys k))\<lparr>sy_queue := snd (rq_pop p (sy_queue (kn_sys k)))\<rparr>"
    and k': "k' = k\<lparr>kn_sys := drop_all (p # ds) (s2\<lparr>sy_table :=
           fst (fold (reap_one ?now killed_by_user p) ds' (sy_table s2, 0))\<rparr>)\<rparr>"
    by (auto elim: kill_unfold)
  let ?s3 = "s2\<lparr>sy_table := fst (fold (reap_one ?now killed_by_user p) ds' (sy_table s2, 0))\<rparr>"
  have "keeps (kn_sys k) (on_agent p (zombify ?now killed_by_user) (kn_sys k))"
    by (rule keeps_on_agent) simp
  moreover have "keeps (on_agent p (zombify ?now killed_by_user) (kn_sys k)) s2"
    unfolding s2 by (rule keeps_agents) simp_all
  moreover have "keeps s2 ?s3"
    using keeps_reap_fold [of "(sy_table s2, 0)" s2 ?now killed_by_user p ds'] by simp
  moreover have "keeps ?s3 (kn_sys k')" unfolding k' using keeps_drop_all by simp
  ultimately have "keeps (kn_sys k) (kn_sys k')" by (blast intro: keeps_trans)
  then show ?thesis unfolding k' by simp
qed

lemma filter_removeAll: "filter (\<lambda>p. p \<notin> D) (removeAll x ks) = filter (\<lambda>p. p \<noteq> x \<and> p \<notin> D) ks"
  by (induction ks) auto

lemma reap_fold_spec:
  "sy_table (fst (fold reap_entry as (s, n)))
     = (sy_table s)\<lparr>pt_keys := filter (\<lambda>p. p \<notin> acb_pid ` {a \<in> set as. is_terminal a}) (pt_keys (sy_table s))\<rparr>
   \<and> sy_spawning (fst (fold reap_entry as (s, n))) = sy_spawning s
   \<and> sy_queue (fst (fold reap_entry as (s, n))) = sy_queue s
   \<and> box_of (sy_bus (fst (fold reap_entry as (s, n))))
     = (\<lambda>p. if p \<in> acb_pid ` {a \<in> set as. is_terminal a} then [] else box_of (sy_bus s) p)
   \<and> snd (fold reap_entry as (s, n)) = n + length (filter is_terminal as)"
proof (induction "as" arbitrary: s n)
  case (Cons a "as")
  show ?case
  proof (cases "is_terminal a")
    case True
    let ?s1 = "s\<lparr>sy_table := snd (table_remove (acb_pid a) (sy_table s)), sy_bus := drop_mailbox (acb_pid a) (sy_bus s)\<rparr>"
    have "fold reap_entry (a # as) (s, n) = fold reap_entry as (?s1, Suc n)"
      using True by (simp add: reap_entry_def)
    moreover have "{x \<in> set (a # as). is_terminal x} = insert a {x \<in> set as. is_terminal x}"
      using True by auto
    ultimately show ?thesis
      using Cons.IH [of ?s1 "Suc n"] True
      by (simp add: table_remove_def filter_removeAll box_of_drop fun_eq_iff)
  next
    case False
    then have "{x \<in> set (a # as). is_terminal x} = {x \<in> set as. is_terminal x}" by auto
    with False Cons.IH [of s n] show ?thesis by (simp add: reap_entry_def)
  qed
qed simp

lemma kernel_inv_reap:
  assumes "kernel_inv k"
  shows "kernel_inv (fst (reap_terminal k))"
proof -
  let ?s = "kn_sys k"
  let ?s' = "fst (fold reap_entry (table_snapshot (sy_table ?s)) (?s, 0))"
  note sp = reap_fold_spec [of "table_snapshot (sy_table ?s)" ?s 0]
  have eq: "fst (reap_terminal k) = k\<lparr>kn_sys := ?s'\<rparr>" by (simp add: reap_terminal_def split_beta)
  have objs: "pt_objs (sy_table ?s') = pt_objs (sy_table ?s)" using sp by simp
  have "table_inv (sy_table ?s')" using assms sp by (auto simp: kernel_inv_def table_inv_def)
  moreover have "forest (sy_table ?s')" using assms objs by (simp add: kernel_inv_def forest_def)
  moreover have "agent_at ?s' = agent_at ?s" using objs by (simp add: agent_at_def fun_eq_iff)
  ultimately show ?thesis unfolding eq using assms sp by (simp add: kernel_inv_def)
qed

text \<open>A spawned agent is younger than all others, so that the tree stays a forest.\<close>

lemma spawn_sys:
  assumes inv: "kernel_inv k"
  shows "\<exists>s3. kn_sys (fst (spawn r k)) = queue_put (pa_counter (kn_pids k)) s3
    \<and> keeps (link_parent (sa_parent_pid r) (pa_counter (kn_pids k))
        ((kn_sys k)\<lparr>sy_table := \<lparr>pt_objs = (pt_objs (sy_table (kn_sys k)))(pa_counter (kn_pids k) \<mapsto>
            spawn_agent k r (pa_counter (kn_pids k)) (now_of (sy_world (kn_sys k)))),
          pt_keys = pt_keys (sy_table (kn_sys k)) @ [pa_counter (kn_pids k)]\<rparr>\<rparr>)) s3"
proof -
  let ?p = "pa_counter (kn_pids k)"
  have "agent_at (kn_sys k) ?p = None" using inv by (auto simp: kernel_inv_def)
  then have key: "?p \<notin> set (pt_keys (sy_table (kn_sys k)))"
    using inv by (auto simp: kernel_inv_def table_inv_def agent_at_def)
  have pid: "acb_pid (spawn_agent k r ?p now) = ?p" for now by (simp add: spawn_agent_def new_agent_def)
  let ?s2 = "link_parent (sa_parent_pid r) ?p
        ((kn_sys k)\<lparr>sy_table := \<lparr>pt_objs = (pt_objs (sy_table (kn_sys k)))(?p \<mapsto>
            spawn_agent k r ?p (now_of (sy_world (kn_sys k)))),
          pt_keys = pt_keys (sy_table (kn_sys k)) @ [?p]\<rparr>\<rparr>)"
  let ?s3 = "if sa_input_from r \<noteq> None then on_agent ?p (do_move WAITING) ?s2 else ?s2"
  have "kn_sys (fst (spawn r k)) = queue_put ?p ?s3"
    by (simp add: spawn_def pid_next_def Let_def table_add_def pid key)
  moreover have "keeps ?s2 ?s3" by (simp add: keeps_on_agent)
  ultimately show ?thesis by blast
qed

lemma link_forest:
  assumes "table_inv t" "forest t" "\<forall>p \<in> dom (pt_objs t). p < c" "q \<noteq> Some c"
    and "acb_children a = []" "acb_parent_pid a = q" "acb_pid a = c"
    and "s = s0\<lparr>sy_table := \<lparr>pt_objs = (pt_objs t)(c \<mapsto> a), pt_keys = pt_keys t @ [c]\<rparr>\<rparr>"
  shows "forest (sy_table (link_parent q c s)) \<and> table_inv (sy_table (link_parent q c s))"
proof -
  have new: "pt_objs t c = None" using assms(3) by (metis domIff less_irrefl)
  then have key: "c \<notin> set (pt_keys t)" using assms(1) by (auto simp: table_inv_def)
  have base: "forest (sy_table s)"
    unfolding forest_def
  proof (intro allI impI conjI ballI)
    fix p b
    assume b: "pt_objs (sy_table s) p = Some b"
    show "distinct (acb_children b)"
      using b assms by (auto simp: forest_def split: if_splits)
    fix x
    assume x: "x \<in> set (acb_children b)"
    then have pc: "p \<noteq> c" using b assms(5,8) by auto
    then have "pt_objs t p = Some b" using b assms(8) by simp
    with assms(2) x obtain y where "p < x" "pt_objs t x = Some y" "acb_parent_pid y = Some p"
      unfolding forest_def by blast
    then show "p < x" "\<exists>y. pt_objs (sy_table s) x = Some y \<and> acb_parent_pid y = Some p"
      using new assms(8) by auto
  qed
  have inv: "table_inv (sy_table s)"
    using assms(1,7,8) key by (auto simp: table_inv_def)
  show ?thesis
  proof (cases "\<exists>q' b. q = Some q' \<and> table_get (sy_table s) q' = Some b")
    case False
    then have "link_parent q c s = s" by (auto simp: link_parent_def split: option.splits)
    with base inv show ?thesis by simp
  next
    case True
    then obtain q' b where q: "q = Some q'" and b: "table_get (sy_table s) q' = Some b" by blast
    let ?b = "b\<lparr>acb_children := acb_children b @ [c]\<rparr>"
    have qc: "q' \<noteq> c" using assms(4) q by simp
    have b': "pt_objs (sy_table s) q' = Some b" "pt_objs t q' = Some b"
      using table_getD [OF b] qc assms(8) by auto
    have tab: "sy_table (link_parent q c s) = obj_write q' ?b (sy_table s)"
      using b b' by (simp add: q link_parent_def on_agent_def agent_at_def sys_write_def add_child_def)
    have fresh: "c \<notin> set (acb_children b)"
      using assms(2) b'(2) new unfolding forest_def by fastforce
    have "q' < c" using assms(3) b'(2) by auto
    have "forest (sy_table (link_parent q c s))"
      unfolding forest_def tab
    proof (intro allI impI)
      fix p x
      assume x: "pt_objs (obj_write q' ?b (sy_table s)) p = Some x"
      have step: "\<exists>y. pt_objs (obj_write q' ?b (sy_table s)) d = Some y \<and> acb_parent_pid y = Some e"
        if "pt_objs (sy_table s) d = Some z" "acb_parent_pid z = Some e" for d e z
        using that b'(1) by (auto simp: obj_write_def)
      show "distinct (acb_children x) \<and> (\<forall>d \<in> set (acb_children x). p < d \<and>
          (\<exists>y. pt_objs (obj_write q' ?b (sy_table s)) d = Some y \<and> acb_parent_pid y = Some p))"
      proof (cases "p = q'")
        case True
        then have xb: "x = ?b" using x by (simp add: obj_write_def)
        have old: "distinct (acb_children b) \<and> (\<forall>d \<in> set (acb_children b). q' < d \<and>
            (\<exists>y. pt_objs (sy_table s) d = Some y \<and> acb_parent_pid y = Some q'))"
          using base b'(1) unfolding forest_def by blast
        have "pt_objs (sy_table s) c = Some a" using assms(8) by simp
        from step [OF this] assms(6) q old fresh \<open>q' < c\<close> True step show ?thesis
          unfolding xb by auto
      next
        case False
        then have "pt_objs (sy_table s) p = Some x" using x by (simp add: obj_write_def)
        then show ?thesis using base step unfolding forest_def by blast
      qed
    qed
    moreover have "table_inv (sy_table (link_parent q c s))"
      unfolding tab using inv b'(1) by (auto simp: table_inv_def obj_write_def)
    ultimately show ?thesis ..
  qed
qed

lemma link_parent_simps [simp]:
  "sy_spawning (link_parent q p s) = sy_spawning s" "sy_world (link_parent q p s) = sy_world s"
  by (auto simp: link_parent_def on_agent_def sys_write_def add_child_def split: option.split)

lemma link_parent_agents:
  "agent_at (link_parent q p s) x = Some b \<Longrightarrow>
     \<exists>a. agent_at s x = Some a \<and> acb_pager b = acb_pager a \<and> acb_state b = acb_state a"
  by (auto simp: link_parent_def on_agent_def add_child_def split: option.splits if_splits)

lemma kernel_inv_spawn:
  assumes inv: "kernel_inv k" and parent: "sa_parent_pid r \<noteq> Some (pa_counter (kn_pids k))"
  shows "kernel_inv (fst (spawn r k))"
proof -
  let ?p = "pa_counter (kn_pids k)" and ?t = "sy_table (kn_sys k)"
  let ?a = "spawn_agent k r ?p (now_of (sy_world (kn_sys k)))"
  let ?s1 = "(kn_sys k)\<lparr>sy_table := \<lparr>pt_objs = (pt_objs ?t)(?p \<mapsto> ?a), pt_keys = pt_keys ?t @ [?p]\<rparr>\<rparr>"
  let ?s2 = "link_parent (sa_parent_pid r) ?p ?s1"
  obtain s3 where k': "kn_sys (fst (spawn r k)) = queue_put ?p s3" and s3: "keeps ?s2 s3"
    using spawn_sys [OF inv, of r] by blast
  have a: "acb_children ?a = []" "acb_parent_pid ?a = sa_parent_pid r" "acb_pid ?a = ?p"
    "acb_pager ?a = Some (kn_pager k)"
    by (simp_all add: spawn_agent_def new_agent_def)
  have tree: "forest (sy_table ?s2) \<and> table_inv (sy_table ?s2)"
  proof (rule link_forest [OF _ _ _ parent a(1-3) refl])
    show "table_inv ?t" "forest ?t" using inv by (simp_all add: kernel_inv_def)
    show "\<forall>p \<in> dom (pt_objs ?t). p < ?p" using inv by (auto simp: kernel_inv_def agent_at_def)
  qed
  have ags: "agent_at ?s1 = (agent_at (kn_sys k))(?p \<mapsto> ?a)" by (simp add: fun_eq_iff agent_at_def)
  let ?k2 = "(fst (spawn r k))\<lparr>kn_sys := ?s2\<rparr>"
  have k2: "kernel_inv ?k2"
    unfolding kernel_inv_def
  proof (intro conjI)
    show "\<forall>x \<in> dom (agent_at (kn_sys ?k2)). x < pa_counter (kn_pids ?k2)"
    proof
      fix x
      assume "x \<in> dom (agent_at (kn_sys ?k2))"
      then obtain b where "agent_at ?s2 x = Some b" by auto
      then obtain c where "agent_at ?s1 x = Some c" using link_parent_agents by blast
      then have "x = ?p \<or> x \<in> dom (agent_at (kn_sys k))" by (auto simp: ags split: if_splits)
      moreover have "\<forall>x \<in> dom (agent_at (kn_sys k)). x < ?p" using inv by (simp add: kernel_inv_def)
      ultimately have "x = ?p \<or> x < ?p" by blast
      then show "x < pa_counter (kn_pids ?k2)" by (auto simp: spawn_keeps)
    qed
    show "\<forall>x b. agent_at (kn_sys ?k2) x = Some b \<longrightarrow> acb_pager b = Some (kn_pager ?k2)"
    proof (intro allI impI)
      fix x b
      assume "agent_at (kn_sys ?k2) x = Some b"
      then have "agent_at ?s2 x = Some b" by simp
      then obtain c where "agent_at ?s1 x = Some c" "acb_pager b = acb_pager c"
        using link_parent_agents by blast
      moreover have "\<forall>p a. agent_at (kn_sys k) p = Some a \<longrightarrow> acb_pager a = Some (kn_pager k)"
        using inv by (simp add: kernel_inv_def)
      ultimately have "acb_pager b = Some (kn_pager k)" using a(4) by (cases "x = ?p") (simp_all add: ags)
      then show "acb_pager b = Some (kn_pager ?k2)" by (simp add: spawn_keeps)
    qed
  qed (use tree inv in \<open>auto simp: kernel_inv_def spawn_keeps\<close>)
  have "keeps (kn_sys ?k2) (queue_put ?p s3)"
    using keeps_trans [OF s3 keeps_queue_put [where p = ?p]] by simp
  from kernel_inv_keeps [OF k2 this k'] show ?thesis by simp
qed

lemma kernel_inv_step:
  assumes "kernel_step k k'" and "kernel_inv k"
  shows "kernel_inv k'"
  using assms(1)
proof cases
  case (worker_moves i notified env pc s)
  then show ?thesis using kernel_inv_keeps [OF assms(2) worker_keeps] by simp
next
  case (call_spawn r)
  then show ?thesis using kernel_inv_spawn [OF assms(2)] by simp
next
  case (call_kill p b)
  then show ?thesis using kernel_inv_keeps [OF assms(2), of "kn_sys k'" k'] kill_keeps by blast
next
  case call_reap
  then show ?thesis using kernel_inv_reap [OF assms(2)] by simp
next
  case (call_swap_in p)
  have "keeps (kn_sys k) (kn_sys k')"
    using call_swap_in by (auto simp: kernel_swap_in_def keeps_on_agent split: option.split)
  then show ?thesis
    by (rule kernel_inv_keeps [OF assms(2)]) (auto simp: call_swap_in kernel_swap_in_def split: option.split)
next
  case (call_topup n)
  have "keeps (kn_sys k) (kn_sys k')" unfolding call_topup by (rule keeps_agents) (simp_all add: kernel_topup_def)
  then show ?thesis by (rule kernel_inv_keeps [OF assms(2)]) (simp_all add: call_topup kernel_topup_def)
next
  case (call_start host self_pid factory)
  then show ?thesis
    using kernel_inv_keeps [OF assms(2) keeps_refl] by (simp add: kernel_start_effect)
next
  case call_shutdown
  have "keeps (kn_sys k) (kn_sys k')"
    unfolding call_shutdown by (rule keeps_agents) (simp_all add: kernel_shutdown_effect)
  then show ?thesis
    by (rule kernel_inv_keeps [OF assms(2)]) (simp_all add: call_shutdown kernel_shutdown_effect)
qed

lemma kernel_inv_init: "kernel_init config w logger fs = Inr k \<Longrightarrow> kernel_inv k"
  by (auto simp: kernel_init_def andthen_def kernel_inv_def sys_init_def table_inv_def table_init_def forest_def
      agent_at_def Let_def split: sum.splits if_splits prod.splits)

lemma kernel_runs_inv:
  assumes "kernel_runs k k'" and "kernel_inv k"
  shows "kernel_inv k' \<and> kn_pool k' = kn_pool k
    \<and> pool_runs (kn_pool k) run_step (kn_workers k, kn_sys k) (kn_workers k', kn_sys k')"
  using assms(1) unfolding kernel_runs_def
proof (induction rule: rtranclp_induct)
  case base
  with assms(2) show ?case by (simp add: pool_runs_refl)
next
  case (step y z)
  then show ?case
    using kernel_inv_step [OF step.hyps(2)] kernel_step_runs [OF step.hyps(2)] by (auto intro: pool_runs_trans)
qed

section \<open>Reachable kernels\<close>

text \<open>A kernel that was built from some configuration and has run for a while.\<close>

definition reachable :: "kernel \<Rightarrow> bool" where
  "reachable k \<longleftrightarrow> (\<exists>config w logger fs k0. kernel_init config w logger fs = Inr k0 \<and> kernel_runs k0 k)"

lemma kernel_init_sys:
  assumes "kernel_init config w logger fs = Inr k"
  shows "\<exists>q. quota_init (kc_quota_total config) = Inr q \<and> kn_sys k = sys_init 64 (w\<lparr>w_quota := q\<rparr>) \<and> kn_workers k = []"
  using assms
  by (auto simp: kernel_init_def andthen_def Let_def split: sum.splits if_splits prod.splits)

lemma reachableE:
  assumes "reachable k"
  obtains q w where "kernel_inv k" and "0 \<le> q_total q" "q_remaining q = q_total q"
    and "pool_runs (kn_pool k) run_step ([], sys_init 64 (w\<lparr>w_quota := q\<rparr>)) (kn_workers k, kn_sys k)"
proof -
  from assms obtain config w logger fs k0 where k0: "kernel_init config w logger fs = Inr k0" "kernel_runs k0 k"
    by (auto simp: reachable_def)
  from kernel_init_sys [OF k0(1)] obtain q where q: "quota_init (kc_quota_total config) = Inr q"
    "kn_sys k0 = sys_init 64 (w\<lparr>w_quota := q\<rparr>)" "kn_workers k0 = []" by blast
  have "0 \<le> q_total q" "q_remaining q = q_total q"
    using q(1) by (auto simp: quota_init_def split: if_splits)
  moreover note kernel_runs_inv [OF k0(2) kernel_inv_init [OF k0(1)]]
  ultimately show ?thesis using q by (intro that [of q w]) simp_all
qed

lemma reachable_inv: "reachable k \<Longrightarrow> kernel_inv k"
  by (erule reachableE)

lemma reachable_pool_inv: "reachable k \<Longrightarrow> pool_inv (kn_workers k, kn_sys k)"
  by (erule reachableE) (rule pool.pool_inv_runs)

lemma reachable_std:
  assumes "kernel_inv k" and "agent_at (kn_sys k) p = Some a"
  shows "std_pager a"
  using assms by (auto simp: kernel_inv_def std_pager_def)

lemma drop_all_boxes: "box_of (sy_bus (drop_all ps s)) = (\<lambda>p. if p \<in> set ps then [] else box_of (sy_bus s) p)"
proof (induction ps arbitrary: s)
  case (Cons p ps)
  have "drop_all (p # ps) s = drop_all ps (s\<lparr>sy_bus := drop_mailbox p (sy_bus s)\<rparr>)" by (simp add: drop_all_def)
  with Cons.IH [of "s\<lparr>sy_bus := drop_mailbox p (sy_bus s)\<rparr>"] show ?case
    by (auto simp: box_of_drop fun_eq_iff)
qed (simp add: drop_all_def)

text \<open>Killing the root does not move the tree below it.\<close>

lemma keeps_child_rel:
  assumes "keeps s s'"
  shows "child_rel (sy_table s') = child_rel (sy_table s)"
proof -
  have keys: "pt_keys (sy_table s') = pt_keys (sy_table s)" and
    kin: "map_option (\<lambda>a. (acb_children a, acb_parent_pid a)) (pt_objs (sy_table s') p)
      = map_option (\<lambda>a. (acb_children a, acb_parent_pid a)) (pt_objs (sy_table s) p)" for p
    using assms by (auto simp: keeps_def kin_def agent_at_def fun_eq_iff)
  have none: "table_get (sy_table s') p = None \<longleftrightarrow> table_get (sy_table s) p = None" for p
    using keys kin [of p] by (cases "pt_objs (sy_table s') p"; cases "pt_objs (sy_table s) p")
      (auto simp: table_get_def)
  have "children_of (sy_table s') p = children_of (sy_table s) p" for p
  proof (cases "table_get (sy_table s) p")
    case None
    with none [of p] show ?thesis by (simp add: children_of_def)
  next
    case (Some a)
    with none [of p] obtain b where b: "table_get (sy_table s') p = Some b" by fastforce
    have "acb_children b = acb_children a"
      using kin [of p] table_getD [OF Some] table_getD [OF b] by simp
    with Some b none show ?thesis by (simp add: children_of_def)
  qed
  then show ?thesis by (simp add: child_rel_def)
qed

lemma kill_spec:
  assumes inv: "kernel_inv k" and pool: "pool_inv (kn_workers k, kn_sys k)" and a: "kernel_get p k = Some a" "\<not> is_terminal a"
  shows "\<exists>k'. kill p k = Some (k', True)
    \<and> (\<forall>q b. agent_at (kn_sys k) q = Some b \<longrightarrow> agent_at (kn_sys k') q =
         Some (if q = p then set_error killed_by_user (move (now_of (sy_world (kn_sys k))) ZOMBIE b)
               else if (p, q) \<in> (child_rel (sy_table (kn_sys k)))\<^sup>+ \<and> \<not> is_terminal b
               then set_error (reap_error killed_by_user p) (move (now_of (sy_world (kn_sys k))) ZOMBIE b)
               else b))
    \<and> p \<notin> set (rq_q (sy_queue (kn_sys k')))
    \<and> (\<forall>q. (p, q) \<in> (child_rel (sy_table (kn_sys k)))\<^sup>* \<longrightarrow> box_of (sy_bus (kn_sys k')) q = [])"
proof -
  let ?s = "kn_sys k" and ?t = "sy_table (kn_sys k)" and ?now = "now_of (sy_world (kn_sys k))"
  let ?R = "child_rel ?t" and ?ds = "tl (subtree (sy_table (kn_sys k)) p)"
  define s1 where "s1 = on_agent p (zombify ?now killed_by_user) ?s"
  define s2 where "s2 = s1\<lparr>sy_queue := snd (rq_pop p (sy_queue s1))\<rparr>"
  have f: "forest ?t" using inv by (simp add: kernel_inv_def)
  have obj: "agent_at ?s p = Some a" using a(1) by (auto simp: kernel_get_def agent_at_def dest: table_getD)
  have k12: "keeps ?s s2"
    unfolding s1_def s2_def
    by (rule keeps_trans [OF keeps_on_agent [of "zombify ?now killed_by_user"] keeps_agents]) simp_all
  have f2: "forest (sy_table s2)" by (rule keeps_forest [OF k12 f])
  have a2: "agent_at s2 = (agent_at ?s)(p \<mapsto> set_error killed_by_user (move ?now ZOMBIE a))"
    using obj by (simp add: s2_def s1_def on_agent_def zombify_def)
  have q2: "rq_q (sy_queue s2) = remove1 p (rq_q (sy_queue ?s))"
    by (simp add: s2_def s1_def rq_pop_def remove1_idem)
  define ds2 where "ds2 = tl (subtree (sy_table s2) p)"
  define r where "r = fold (reap_one ?now killed_by_user p) ds2 (sy_table s2, 0)"
  define s3 where "s3 = s2\<lparr>sy_table := fst r\<rparr>"
  have dist: "distinct ds2" unfolding ds2_def using distinct_subtree [OF f2] by (rule distinct_tl)
  have mem: "x \<in> set ds2 \<longleftrightarrow> (p, x) \<in> ?R\<^sup>+" for x
    using set_descendants [OF f2, of p] keeps_child_rel [OF k12] by (auto simp: ds2_def)
  have irr: "(p, p) \<notin> ?R\<^sup>+"
    using distinct_subtree [OF f2, of p] subtree_unfold [OF f2, of p] mem [of p] by (auto simp: ds2_def)
  have "reap_descendants ?now killed_by_user p (sy_table s2) = Some (fst r, snd r)"
    by (simp add: reap_descendants_def descendants_of_forest [OF f2] r_def ds2_def)
  then have kill: "kill p k = Some (k\<lparr>kn_sys := drop_all (p # ?ds) s3\<rparr>, True)"
    using a unfolding kill_def Let_def kernel_get_def s3_def s2_def s1_def
    by (simp add: descendants_of_forest [OF f] split_beta)
  have ags: "agent_at s3 q = (case agent_at s2 q of None \<Rightarrow> None | Some b \<Rightarrow> Some
      (if q \<in> set ds2 \<and> \<not> is_terminal b then set_error (reap_error killed_by_user p) (move ?now ZOMBIE b) else b))"
    for q
    using fold_reap_one(2) [OF dist, of ?now killed_by_user p "sy_table s2" 0 q]
    by (simp add: s3_def r_def agent_at_def)
  have "agent_at s3 q = Some (if q = p then set_error killed_by_user (move ?now ZOMBIE b)
               else if (p, q) \<in> ?R\<^sup>+ \<and> \<not> is_terminal b
               then set_error (reap_error killed_by_user p) (move ?now ZOMBIE b) else b)"
    if "agent_at ?s q = Some b" for q b
    using that obj irr by (cases "q = p") (simp_all add: ags a2 mem)
  moreover have "p \<notin> set (rq_q (sy_queue s3))"
    using pool_inv_exclusive(1) [OF pool] by (simp add: s3_def q2)
  moreover have "box_of (sy_bus (drop_all (p # ?ds) s3)) q = []" if "(p, q) \<in> ?R\<^sup>*" for q
  proof -
    have "q \<in> set (p # ?ds)" using that set_subtree [OF f, of p] subtree_unfold [OF f, of p] by auto
    then show ?thesis by (simp add: drop_all_boxes)
  qed
  ultimately show ?thesis using kill by simp
qed

text \<open>The effect of a spawn, for any parent.\<close>

lemma queue_put_ready:
  assumes "agent_at s p = Some a" and "\<not> is_terminal a"
  shows "agent_at (queue_put p s) = (agent_at s)(p \<mapsto> move (now_of (sy_world s)) READY a)"
    and "rq_q (sy_queue (queue_put p s)) = rq_q (sy_queue s) @ [p]"
    and "pt_keys (sy_table (queue_put p s)) = pt_keys (sy_table s)"
  using assms by (auto simp: queue_put_def rq_put_def agent_at_def obj_write_def)

lemma link_parent_at:
  "agent_at (link_parent q p s) x = (if q = Some x \<and> table_get (sy_table s) x \<noteq> None
     then map_option (\<lambda>a. a\<lparr>acb_children := acb_children a @ [p]\<rparr>) (agent_at s x) else agent_at s x)"
  "sy_queue (link_parent q p s) = sy_queue s" "pt_keys (sy_table (link_parent q p s)) = pt_keys (sy_table s)"
  by (auto simp: link_parent_def on_agent_def sys_write_def add_child_def agent_at_def obj_write_def table_get_def
      split: option.splits if_splits)

lemma spawn_spec:
  assumes inv: "kernel_inv k"
  shows "\<exists>k' a. spawn r k = (k', Inr (pa_counter (kn_pids k)))
    \<and> kernel_get (pa_counter (kn_pids k)) k = None \<and> kernel_get (pa_counter (kn_pids k)) k' = Some a
    \<and> acb_state a = READY
    \<and> acb_children a = (if sa_parent_pid r = Some (pa_counter (kn_pids k)) then [pa_counter (kn_pids k)] else [])
    \<and> a\<lparr>acb_state := NEW, acb_children := []\<rparr> = spawn_agent k r (pa_counter (kn_pids k)) (now_of (sy_world (kn_sys k)))
    \<and> rq_q (sy_queue (kn_sys k')) = rq_q (sy_queue (kn_sys k)) @ [pa_counter (kn_pids k)]
    \<and> (\<forall>q b. agent_at (kn_sys k) q = Some b \<longrightarrow> agent_at (kn_sys k') q =
         Some (if sa_parent_pid r = Some q \<and> kernel_get q k \<noteq> None
               then b\<lparr>acb_children := acb_children b @ [pa_counter (kn_pids k)]\<rparr> else b))"
proof -
  let ?p = "pa_counter (kn_pids k)" and ?s = "kn_sys k" and ?t = "sy_table (kn_sys k)"
  let ?a = "spawn_agent k r ?p (now_of (sy_world ?s))"
  define s1 where "s1 = ?s\<lparr>sy_table := \<lparr>pt_objs = (pt_objs ?t)(?p \<mapsto> ?a), pt_keys = pt_keys ?t @ [?p]\<rparr>\<rparr>"
  define s2 where "s2 = link_parent (sa_parent_pid r) ?p s1"
  define s3 where "s3 = (if sa_input_from r \<noteq> None then on_agent ?p (do_move WAITING) s2 else s2)"
  have fresh: "agent_at ?s ?p = None" using inv by (auto simp: kernel_inv_def)
  then have key: "?p \<notin> set (pt_keys ?t)"
    using inv by (auto simp: kernel_inv_def table_inv_def agent_at_def)
  have a: "acb_pid ?a = ?p" "acb_state ?a = NEW" "acb_children ?a = []" "acb_input_from ?a = sa_input_from r"
    by (simp_all add: spawn_agent_def new_agent_def)
  have eq: "spawn r k = (k\<lparr>kn_pids := \<lparr>pa_counter = ?p + 1\<rparr>, kn_sys := queue_put ?p s3\<rparr>, Inr ?p)"
    by (simp add: spawn_def pid_next_def table_add_def a(1) key s1_def s2_def s3_def Let_def)
  have at1: "agent_at s1 = (agent_at ?s)(?p \<mapsto> ?a)" by (simp add: s1_def fun_eq_iff agent_at_def)
  have get1: "table_get (sy_table s1) q = (if q = ?p then Some ?a else table_get ?t q)" for q
    by (simp add: s1_def table_get_def key)
  define a2 where "a2 = ?a\<lparr>acb_children := if sa_parent_pid r = Some ?p then [?p] else []\<rparr>"
  have a2: "a2\<lparr>acb_state := NEW, acb_children := []\<rparr> = ?a" "acb_children a2 = (if sa_parent_pid r = Some ?p then [?p] else [])"
      "acb_state a2 = NEW"
    by (simp_all add: a2_def spawn_agent_def new_agent_def)
  have at2: "agent_at s2 ?p = Some a2"
    using a(3) by (auto simp: s2_def link_parent_at at1 get1 a2_def)
  define a3 where "a3 = (if sa_input_from r \<noteq> None then move (now_of (sy_world s2)) WAITING a2 else a2)"
  have at3: "agent_at s3 ?p = Some a3"
    using at2 by (simp add: s3_def a3_def on_agent_def)
  have live3: "\<not> is_terminal a3"
    using a2(3) by (simp add: a3_def is_terminal_def move_state terminal_def terminal_states_def)
  have ready: "(move x READY a3)\<lparr>acb_state := NEW, acb_children := []\<rparr> = ?a" for x
    using a2 by (auto simp: a3_def move_def transition_def is_terminal_def terminal_def terminal_states_def Let_def)
  have other: "agent_at s3 q = agent_at s2 q" if "q \<noteq> ?p" for q
    using that by (simp add: s3_def on_agent_def split: option.split)
  have q3: "sy_queue s3 = sy_queue ?s" "pt_keys (sy_table s3) = pt_keys ?t @ [?p]"
  proof -
    show "sy_queue s3 = sy_queue ?s" by (simp add: s3_def s2_def link_parent_at s1_def)
    have "pt_keys (sy_table (on_agent ?p f s)) = pt_keys (sy_table s)" for f s
      by (simp add: on_agent_def sys_write_def obj_write_def split: option.split)
    then show "pt_keys (sy_table s3) = pt_keys ?t @ [?p]" by (simp add: s3_def s2_def link_parent_at s1_def)
  qed
  note put = queue_put_ready [OF at3 live3]
  let ?b = "move (now_of (sy_world s3)) READY a3"
  have "table_get (sy_table (queue_put ?p s3)) ?p = Some ?b"
    using put(1,3) q3(2) by (simp add: table_get_def agent_at_def fun_eq_iff)
  moreover have "acb_state ?b = READY" using live3 by (simp add: move_state)
  moreover have "acb_children ?b = acb_children a2" by (simp add: a3_def)
  moreover have "agent_at (queue_put ?p s3) q = Some (if sa_parent_pid r = Some q \<and> kernel_get q k \<noteq> None
               then b\<lparr>acb_children := acb_children b @ [?p]\<rparr> else b)" if b: "agent_at ?s q = Some b" for q b
  proof -
    have "q \<noteq> ?p" using b fresh by auto
    then show ?thesis
      using b by (simp add: put(1) other s2_def link_parent_at at1 get1 kernel_get_def)
  qed
  moreover have "kernel_get ?p k = None" using key by (simp add: kernel_get_def table_get_def)
  ultimately show ?thesis
    using eq ready put(2) q3(1) a2(2) by (simp add: kernel_get_def)
qed

text \<open>A stopped pool: workers leave their loop, nothing starts, and no request is made.\<close>

lemma queue_put_calls: "calls_at (queue_put p s) = calls_at s"
proof (cases "agent_at s p")
  case None
  then show ?thesis by (simp add: queue_put_def rq_put_def agent_at_def calls_at_def fun_eq_iff)
next
  case (Some a)
  from queue_put_spec(2) [OF Some] show ?thesis by (simp add: level_def fun_eq_iff)
qed

lemma calls_at_frame [simp]:
  "calls_at (s\<lparr>sy_queue := q\<rparr>) = calls_at s" "calls_at (s\<lparr>sy_bus := b\<rparr>) = calls_at s"
  "calls_at (s\<lparr>sy_spawning := ps\<rparr>) = calls_at s" "calls_at (s\<lparr>sy_stop := x\<rparr>) = calls_at s"
  "calls_at (on_quota v s) = calls_at s"
  "calls_at (s\<lparr>sy_table := snd (table_remove p (sy_table s))\<rparr>) = calls_at s"
  by (simp_all add: calls_at_def fun_eq_iff)

lemma on_agent_calls: "mild f \<Longrightarrow> calls_at (on_agent p f s) = calls_at s"
  using on_agent_mild(2) [of f s p] by (simp add: level_def fun_eq_iff)

lemma kop_calls:
  assumes "kop_ok x s"
  shows "calls_at (kop_do x s) = calls_at s"
proof (cases x)
  case (KAdd a)
  have "agent_at (kop_do x s) = (agent_at s)(acb_pid a \<mapsto> a)" "agent_at s (acb_pid a) = None"
      "acb_llm_calls_used a = 0"
    using assms KAdd by (simp_all add: fun_eq_iff agent_at_def table_add_def)
  then show ?thesis by (simp add: calls_at_def fun_eq_iff)
qed (use assms in \<open>simp_all add: queue_put_calls on_agent_calls\<close>)

lemma stopped_step:
  assumes "pool_step wp runner c c'" and "sy_stop (snd c)" and "set (fst c) \<subseteq> {Idle, Exited}"
  shows "sy_stop (snd c') \<and> set (fst c') \<subseteq> {Idle, Exited} \<and> calls_at (snd c') = calls_at (snd c)"
  using assms(1)
proof cases
  case (worker i ws notified env s pc s')
  have "set ws \<subseteq> {Idle, Exited}" "ws ! i \<in> set ws" using worker assms(3) by simp_all
  then have "ws ! i \<in> {Idle, Exited}" by blast
  then have "pc = Exited" "s' = s"
    using worker assms(2) by (auto simp: loop_top_def)
  then show ?thesis
    using worker assms set_update_subset_insert [of ws i Exited] by auto
next
  case (kernel x s ws)
  have "sy_stop (kop_do x s) \<longleftrightarrow> sy_stop s \<or> x = KStop" if "kop_ok x s"
    using that by (cases x) (auto simp: table_add_def queue_put_def split: prod.splits)
  then show ?thesis using kernel assms kop_calls by auto
next
  case (thread ws s)
  with assms show ?thesis by auto
qed

lemma stopped_runs:
  assumes "pool_runs wp runner c c'" and "sy_stop (snd c)" and "set (fst c) \<subseteq> {Idle, Exited}"
  shows "sy_stop (snd c') \<and> set (fst c') \<subseteq> {Idle, Exited} \<and> calls_at (snd c') = calls_at (snd c)"
  using assms(1) unfolding pool_runs_def
proof (induction rule: rtranclp_induct)
  case base
  with assms show ?case by simp
next
  case (step y z)
  then show ?case using stopped_step [of wp runner y z] by simp
qed

text \<open>Counting states.\<close>

lemma count_states:
  "map_of (foldl count_state d as) v =
     (let n = length (filter (\<lambda>a. state_value (acb_state a) = v) as)
      in if n = 0 then map_of d v else Some ((case map_of d v of None \<Rightarrow> 0 | Some m \<Rightarrow> m) + n))"
proof (induction "as" arbitrary: d)
  case (Cons a "as")
  show ?case
    using Cons.IH [of "count_state d a"]
    by (auto simp: count_state_def Let_def update_conv' split: option.splits)
qed simp

section \<open>A small system\<close>

definition demo_kernel :: kernel where
  "demo_kernel = projr (kernel_init kernel_config_default (fresh_world 0)
     \<lparr>lg_name = ''gcos'', lg_level = 0, lg_has_ring = False\<rparr> [])"

definition demo_args :: "pid option \<Rightarrow> spawn_args" where
  "demo_args parent = \<lparr>sa_prompt = ''hi'', sa_name = ''a'', sa_priority = 5, sa_timeout_s = None, sa_quota = None,
     sa_capability = None, sa_parent_pid = parent, sa_pipe_to = None, sa_input_from = None\<rparr>"

definition demo_family :: kernel where
  "demo_family = fst (spawn (demo_args (Some 1)) (fst (spawn (demo_args None) demo_kernel)))"

lemma demo_kernel_init: "kernel_init kernel_config_default (fresh_world 0)
     \<lparr>lg_name = ''gcos'', lg_level = 0, lg_has_ring = False\<rparr> [] = Inr demo_kernel"
  by (simp add: demo_kernel_def kernel_init_def kernel_config_default_def andthen_def quota_init_def
      make_scheduler_def split_beta Let_def)

lemma demo_counter: "pa_counter (kn_pids demo_kernel) = 1"
  by code_simp

lemma demo_reachable: "reachable demo_kernel"
  unfolding reachable_def kernel_runs_def using demo_kernel_init by blast

lemma reachable_step: "reachable k \<Longrightarrow> kernel_step k k' \<Longrightarrow> reachable k'"
  unfolding reachable_def kernel_runs_def by (meson rtranclp.rtrancl_into_rtrancl)

lemma demo_family_reachable: "reachable demo_family"
proof -
  have "reachable (fst (spawn (demo_args None) demo_kernel))"
    using demo_reachable by (rule reachable_step) (rule call_spawn, simp add: demo_args_def)
  then show ?thesis
    unfolding demo_family_def
    by (rule reachable_step) (rule call_spawn, simp add: demo_args_def spawn_keeps demo_counter)
qed

lemma spawn_agent_fields:
  assumes "a\<lparr>acb_state := NEW\<rparr> = spawn_agent k r p now"
  shows "acb_prompt a = sa_prompt r" "acb_name a = sa_name r" "acb_priority a = sa_priority r"
    "acb_timeout_s a = (case sa_timeout_s r of None \<Rightarrow> kc_default_timeout (kn_config k) | Some t \<Rightarrow> t)"
    "acb_quota_remaining a = (case sa_quota r of None \<Rightarrow> kc_default_quota (kn_config k) | Some n \<Rightarrow> n)"
    "acb_capability a = (case sa_capability r of None \<Rightarrow> cap_default_user | Some c \<Rightarrow> c)"
    "acb_parent_pid a = sa_parent_pid r" "acb_pipe_to a = sa_pipe_to r" "acb_input_from a = sa_input_from r"
    "acb_children a = []" "acb_context_pages a = []" "acb_llm_calls_used a = 0"
    "acb_result a = None" "acb_error a = None" "acb_pager a = Some (kn_pager k)"
  using assms by (cases a; simp add: spawn_agent_def new_agent_def)+

section \<open>Properties\<close>





text \<open>
  C21. Killing takes the whole subtree, and always returns. In every reachable kernel, killing a
  live registered agent succeeds: the agent becomes a zombie, every live proper descendant
  becomes a zombie with the reaper's reason, every other agent is untouched, the agent is off
  the ready queue, and the mailboxes of the agent and its descendants are gone.
\<close>

theorem kill_takes_the_subtree:
  assumes "reachable k" and "kernel_get p k = Some a" and "\<not> is_terminal a"
  shows "\<exists>k'. kill p k = Some (k', True)
    \<and> (\<forall>q b. agent_at (kn_sys k) q = Some b \<longrightarrow> agent_at (kn_sys k') q =
         Some (if q = p then set_error killed_by_user (move (now_of (sy_world (kn_sys k))) ZOMBIE b)
               else if (p, q) \<in> (child_rel (sy_table (kn_sys k)))\<^sup>+ \<and> \<not> is_terminal b
               then set_error (reap_error killed_by_user p) (move (now_of (sy_world (kn_sys k))) ZOMBIE b)
               else b))
    \<and> p \<notin> set (rq_q (sy_queue (kn_sys k')))
    \<and> (\<forall>q. (p, q) \<in> (child_rel (sy_table (kn_sys k)))\<^sup>* \<longrightarrow> box_of (sy_bus (kn_sys k')) q = [])"
  by (rule kill_spec [OF reachable_inv [OF assms(1)] reachable_pool_inv [OF assms(1)] assms(2,3)])

theorem kill_takes_the_subtree_witness:
  "\<exists>k'. kill 1 demo_family = Some (k', True) \<and> 1 \<notin> set (rq_q (sy_queue (kn_sys k')))"
proof -
  have "\<exists>a. kernel_get 1 demo_family = Some a \<and> \<not> is_terminal a"
  proof -
    have "map_option is_terminal (kernel_get 1 demo_family) = Some False" by code_simp
    then show ?thesis by auto
  qed
  then obtain a where "kernel_get 1 demo_family = Some a" "\<not> is_terminal a" by blast
  from kill_takes_the_subtree [OF demo_family_reachable this] show ?thesis by blast
qed

text \<open>
  C22. Spawning registers exactly one new agent: under the next PID, which was free; in state
  READY at the end of the ready queue, with the fields the caller gave and the configured
  defaults for the rest; recorded as a child of its parent if that is registered; no other
  agent changes. The resulting kernel is again a reachable one.
\<close>

theorem spawn_registers:
  assumes "reachable k" and "sa_parent_pid r \<noteq> Some (pa_counter (kn_pids k))"
  shows "\<exists>k' a. spawn r k = (k', Inr (pa_counter (kn_pids k))) \<and> reachable k'
    \<and> kernel_get (pa_counter (kn_pids k)) k = None \<and> kernel_get (pa_counter (kn_pids k)) k' = Some a
    \<and> acb_state a = READY
    \<and> acb_prompt a = sa_prompt r \<and> acb_name a = sa_name r \<and> acb_priority a = sa_priority r
    \<and> acb_timeout_s a = (case sa_timeout_s r of None \<Rightarrow> kc_default_timeout (kn_config k) | Some t \<Rightarrow> t)
    \<and> acb_quota_remaining a = (case sa_quota r of None \<Rightarrow> kc_default_quota (kn_config k) | Some n \<Rightarrow> n)
    \<and> acb_capability a = (case sa_capability r of None \<Rightarrow> cap_default_user | Some c \<Rightarrow> c)
    \<and> acb_parent_pid a = sa_parent_pid r \<and> acb_pipe_to a = sa_pipe_to r \<and> acb_input_from a = sa_input_from r
    \<and> acb_children a = [] \<and> acb_context_pages a = [] \<and> acb_llm_calls_used a = 0
    \<and> acb_result a = None \<and> acb_error a = None \<and> acb_pager a = Some (kn_pager k)
    \<and> rq_q (sy_queue (kn_sys k')) = rq_q (sy_queue (kn_sys k)) @ [pa_counter (kn_pids k)]
    \<and> (\<forall>q b. agent_at (kn_sys k) q = Some b \<longrightarrow> agent_at (kn_sys k') q =
         Some (if sa_parent_pid r = Some q \<and> kernel_get q k \<noteq> None
               then b\<lparr>acb_children := acb_children b @ [pa_counter (kn_pids k)]\<rparr> else b))"
proof -
  let ?p = "pa_counter (kn_pids k)"
  from spawn_spec [OF reachable_inv [OF assms(1)], of r] obtain k' a where
    k': "spawn r k = (k', Inr ?p)" and free: "kernel_get ?p k = None" and a: "kernel_get ?p k' = Some a"
      "acb_state a = READY" "acb_children a = (if sa_parent_pid r = Some ?p then [?p] else [])"
      "a\<lparr>acb_state := NEW, acb_children := []\<rparr> = spawn_agent k r ?p (now_of (sy_world (kn_sys k)))"
    and rest: "rq_q (sy_queue (kn_sys k')) = rq_q (sy_queue (kn_sys k)) @ [?p]"
      "\<forall>q b. agent_at (kn_sys k) q = Some b \<longrightarrow> agent_at (kn_sys k') q =
         Some (if sa_parent_pid r = Some q \<and> kernel_get q k \<noteq> None
               then b\<lparr>acb_children := acb_children b @ [?p]\<rparr> else b)"
    by blast
  have "reachable k'"
    using reachable_step [OF assms(1) call_spawn [OF assms(2)]] k' by simp
  moreover have "a\<lparr>acb_state := NEW\<rparr> = spawn_agent k r ?p (now_of (sy_world (kn_sys k)))"
    using a(3,4) assms(2) by (cases a) simp
  note fields = spawn_agent_fields [OF this]
  ultimately show ?thesis using k' free a(1,2) rest fields by blast
qed

theorem spawn_registers_witness:
  "\<exists>k'. spawn (demo_args None) demo_family = (k', Inr 3) \<and> rq_q (sy_queue (kn_sys k')) = [1, 2, 3]"
proof -
  have c: "pa_counter (kn_pids demo_family) = 3" "rq_q (sy_queue (kn_sys demo_family)) = [1, 2]" by code_simp+
  have "sa_parent_pid (demo_args None) \<noteq> Some (pa_counter (kn_pids demo_family))" by (simp add: demo_args_def)
  from spawn_registers [OF demo_family_reachable this] c show ?thesis by auto
qed

text \<open>
  C29. The one way to break the tree: a caller that passes the PID about to be handed out as the
  parent makes the new agent its own child, and from then on killing it never returns.
\<close>

theorem self_parent_spawn_hangs_kill:
  assumes "reachable k" and "sa_parent_pid r = Some (pa_counter (kn_pids k))"
  shows "\<exists>k'. spawn r k = (k', Inr (pa_counter (kn_pids k))) \<and> kill (pa_counter (kn_pids k)) k' = None"
proof -
  let ?p = "pa_counter (kn_pids k)"
  from spawn_spec [OF reachable_inv [OF assms(1)], of r] assms(2) obtain k' a where
    k': "spawn r k = (k', Inr ?p)" and a: "kernel_get ?p k' = Some a" "acb_state a = READY" "acb_children a = [?p]"
    by auto
  have "children_of (sy_table (kn_sys k')) ?p = [?p]"
    using a by (simp add: children_of_def kernel_get_def)
  then have "descendants_of (sy_table (kn_sys k')) ?p = None"
    by (simp add: descendants_of_def desc_loop_self_child)
  with a have "kill ?p k' = None"
    by (simp add: kill_def kernel_get_def is_terminal_def terminal_def terminal_states_def Let_def)
  with k' show ?thesis by blast
qed

theorem self_parent_spawn_hangs_kill_witness:
  "kill 3 (fst (spawn (demo_args (Some 3)) demo_family)) = None"
proof -
  have c: "pa_counter (kn_pids demo_family) = 3" by code_simp
  then have "sa_parent_pid (demo_args (Some 3)) = Some (pa_counter (kn_pids demo_family))" by (simp add: demo_args_def)
  from self_parent_spawn_hangs_kill [OF demo_family_reachable this] c show ?thesis by auto
qed

text \<open>
  Reaping terminal agents removes exactly them: it reports how many registered agents are
  terminal, afterwards the live ones are found as before and the terminal ones not at all, the
  mailboxes of the removed agents are gone and all others are kept, and the ready queue is
  untouched.
\<close>

theorem reap_terminal_exact:
  assumes "reachable k" and "reap_terminal k = (k', n)"
  shows "n = length (filter is_terminal (kernel_list_all k))
    \<and> (\<forall>p. kernel_get p k' = (case kernel_get p k of
             None \<Rightarrow> None | Some a \<Rightarrow> if is_terminal a then None else Some a))
    \<and> (\<forall>p. box_of (sy_bus (kn_sys k')) p =
         (if \<exists>a. kernel_get p k = Some a \<and> is_terminal a then [] else box_of (sy_bus (kn_sys k)) p))
    \<and> sy_queue (kn_sys k') = sy_queue (kn_sys k)"
proof -
  let ?t = "sy_table (kn_sys k)"
  have inv: "table_inv ?t" using reachable_inv [OF assms(1)] by (simp add: kernel_inv_def)
  note sp = reap_fold_spec [of "table_snapshot ?t" "kn_sys k" 0]
  have k': "kn_sys k' = fst (fold reap_entry (table_snapshot ?t) (kn_sys k, 0))"
    and n: "n = snd (fold reap_entry (table_snapshot ?t) (kn_sys k, 0))"
    using assms(2) by (auto simp: reap_terminal_def split_beta)
  have dead: "p \<in> acb_pid ` {a \<in> set (table_snapshot ?t). is_terminal a}
      \<longleftrightarrow> (\<exists>a. table_get ?t p = Some a \<and> is_terminal a)" for p
  proof
    assume "p \<in> acb_pid ` {a \<in> set (table_snapshot ?t). is_terminal a}"
    then obtain a where a: "a \<in> set (table_snapshot ?t)" "is_terminal a" "p = acb_pid a" by auto
    then obtain q where "q \<in> set (pt_keys ?t)" "pt_objs ?t q = Some a"
      by (auto simp: table_snapshot_def objs_of_def map_filter_def)
    with a inv show "\<exists>a. table_get ?t p = Some a \<and> is_terminal a"
      by (auto simp: table_get_def table_inv_def)
  next
    assume "\<exists>a. table_get ?t p = Some a \<and> is_terminal a"
    then obtain a where a: "table_get ?t p = Some a" "is_terminal a" by blast
    from table_getD [OF a(1)] have "a \<in> set (table_snapshot ?t)"
      by (auto simp: table_snapshot_def objs_of_def map_filter_def intro!: image_eqI [of _ _ p])
    moreover have "acb_pid a = p" using inv table_getD [OF a(1)] by (simp add: table_inv_def)
    ultimately show "p \<in> acb_pid ` {a \<in> set (table_snapshot ?t). is_terminal a}" using a(2) by auto
  qed
  have "kernel_get p k' = (case kernel_get p k of None \<Rightarrow> None | Some a \<Rightarrow> if is_terminal a then None else Some a)" for p
    using sp dead [of p] by (auto simp: kernel_get_def k' table_get_def split: option.split)
  moreover have "box_of (sy_bus (kn_sys k')) p =
      (if \<exists>a. kernel_get p k = Some a \<and> is_terminal a then [] else box_of (sy_bus (kn_sys k)) p)" for p
    using sp dead [of p] by (simp add: k' kernel_get_def)
  ultimately show ?thesis
    using sp n by (auto simp: k' kernel_list_all_def)
qed

theorem reap_terminal_exact_witness: "snd (reap_terminal demo_family) = 0"
proof -
  have "filter is_terminal (kernel_list_all demo_family) = []" by code_simp
  with reap_terminal_exact [OF demo_family_reachable, of "fst (reap_terminal demo_family)" "snd (reap_terminal demo_family)"]
  show ?thesis by simp
qed

text \<open>
  C32. A kernel that was shut down cannot be restarted: \<open>start\<close> launches new workers, but
  the stop event is never cleared, so each of them leaves at once; in every continuation, with
  any further spawns and starts, no agent is dispatched and no request is made.
\<close>

theorem restart_runs_nothing:
  assumes "reachable k" and "kn_started k" and "set (kn_workers k) \<subseteq> {Idle, Exited}"
    and "kernel_runs (fst (kernel_start host self_pid factory (kernel_shutdown k))) k2"
  shows "set (kn_workers k2) \<subseteq> {Idle, Exited} \<and> (\<forall>p. calls_at (kn_sys k2) p = calls_at (kn_sys k) p)"
proof -
  let ?k1 = "fst (kernel_start host self_pid factory (kernel_shutdown k))"
  have "reachable ?k1"
    using reachable_step [OF reachable_step [OF assms(1) call_shutdown] call_start] .
  then have inv: "kernel_inv ?k1" by (rule reachable_inv)
  have run: "pool_runs (kn_pool ?k1) run_step (kn_workers ?k1, kn_sys ?k1) (kn_workers k2, kn_sys k2)"
    using kernel_runs_inv [OF assms(4) inv] by blast
  have "sy_stop (kn_sys ?k1)"
    using assms(2) by (simp add: kernel_start_effect kernel_shutdown_effect)
  moreover obtain n where "kn_workers ?k1 = kn_workers (kernel_shutdown k) @ replicate n Idle"
    using kernel_start_effect(5) by blast
  then have "set (kn_workers ?k1) \<subseteq> {Idle, Exited}"
    using assms(3) by (auto simp: kernel_shutdown_effect)
  moreover have "calls_at (kn_sys ?k1) = calls_at (kn_sys k)"
    using assms(2) by (simp add: kernel_start_effect kernel_shutdown_effect calls_at_def fun_eq_iff)
  ultimately show ?thesis using stopped_runs [OF run] by simp
qed

theorem restart_runs_nothing_witness:
  "\<exists>k. kn_started k \<and> set (kn_workers (fst (spawn (demo_args None)
     (fst (kernel_start \<lparr>cf_available = False, cf_can_mkdir = (\<lambda>_. False), cf_can_write = (\<lambda>_. False)\<rparr> 1 (Inr None)
        (kernel_shutdown k)))))) \<subseteq> {Idle, Exited}"
proof -
  let ?h = "\<lparr>cf_available = False, cf_can_mkdir = (\<lambda>_. False), cf_can_write = (\<lambda>_. False)\<rparr>"
  let ?k = "fst (kernel_start ?h 1 (Inr None) demo_kernel)"
  let ?k1 = "fst (kernel_start ?h 1 (Inr None) (kernel_shutdown ?k))"
  have r: "reachable ?k" using reachable_step [OF demo_reachable call_start] .
  have s: "kn_started ?k" "set (kn_workers ?k) \<subseteq> {Idle, Exited}" by code_simp+
  have "kernel_step ?k1 (fst (spawn (demo_args None) ?k1))"
    by (rule call_spawn) (simp add: demo_args_def)
  then have "kernel_runs ?k1 (fst (spawn (demo_args None) ?k1))" unfolding kernel_runs_def by blast
  from restart_runs_nothing [OF r s this] s(1) show ?thesis by blast
qed

text \<open>
  The status report adds up: for every state the histogram holds exactly the number of
  registered agents in that state, with no entry for a state no agent is in, and the queue
  length and quota figures are those of the components.
\<close>

theorem status_counts:
  assumes "status src k = Inr st"
  shows "map_of (ks_by_state st) v =
     (if filter (\<lambda>a. state_value (acb_state a) = v) (kernel_list_all k) = [] then None
      else Some (length (filter (\<lambda>a. state_value (acb_state a) = v) (kernel_list_all k))))
   \<and> ks_total_agents st = length (kernel_list_all k)
   \<and> ks_queue_len st = length (rq_q (sy_queue (kn_sys k)))
   \<and> qr_used (ks_quota st) + qr_remaining (ks_quota st) = q_total (quota_of (kn_sys k))"
  using assms
  by (auto simp: status_def andthen_def Let_def count_states kernel_list_all_def rq_len_def quota_snapshot_def
      split: sum.splits)

text \<open>
  Configuration round trip: integer settings written in decimal into the environment are
  read back as they were, whatever the numbers, an unset variable gives the default, and a
  variable that is not a number makes \<open>from_env\<close> raise.
\<close>

theorem config_round_trip:
  "config_from_env (\<lambda>s. Inr 1) (\<lambda>v. if v = ''GCOS_WORKERS'' then Some (show_int workers)
       else if v = ''GCOS_QUOTA_TOTAL'' then Some (show_int quota_total)
       else if v = ''GCOS_CGROUP_MEMORY_MAX'' then Some (show_int memory_max) else None)
     = Inr (kernel_config_default\<lparr>kc_workers := workers, kc_quota_total := quota_total, kc_default_timeout := 1,
         kc_batcher_rate_per_s := 1, kc_cgroup_memory_max := Some memory_max\<rparr>)
   \<and> config_from_env py_float (\<lambda>v. if v = ''GCOS_WORKERS'' then Some ''four'' else None)
     = Inl (OtherExc ''ValueError'' (''invalid literal for int() with base 10: '' @ py_repr ''four''))"
proof
  have nums: "py_int ''4'' = Inr 4" "py_int ''10'' = Inr 10" "py_int ''256'' = Inr 256" "py_int ''4096'' = Inr 4096"
    by code_simp+
  have "show_int memory_max \<noteq> ''''" using show_nat_digits by (simp add: show_int_def)
  then show "config_from_env (\<lambda>s. Inr 1) (\<lambda>v. if v = ''GCOS_WORKERS'' then Some (show_int workers)
       else if v = ''GCOS_QUOTA_TOTAL'' then Some (show_int quota_total)
       else if v = ''GCOS_CGROUP_MEMORY_MAX'' then Some (show_int memory_max) else None)
     = Inr (kernel_config_default\<lparr>kc_workers := workers, kc_quota_total := quota_total, kc_default_timeout := 1,
         kc_batcher_rate_per_s := 1, kc_cgroup_memory_max := Some memory_max\<rparr>)"
    by (simp add: config_from_env_def getenv_or_def andthen_def opt_int_def py_int_show nums kernel_config_default_def)
  have "py_int ''four'' = Inl (OtherExc ''ValueError'' (''invalid literal for int() with base 10: '' @ py_repr ''four''))"
    by code_simp
  then show "config_from_env py_float (\<lambda>v. if v = ''GCOS_WORKERS'' then Some ''four'' else None)
     = Inl (OtherExc ''ValueError'' (''invalid literal for int() with base 10: '' @ py_repr ''four''))"
    by (simp add: config_from_env_def getenv_or_def andthen_def)
qed

end
