(* ===== verification/Api.thy ===== *)
theory Api
  imports Kernel_Safety
begin

text \<open>
  The HTTP interface (\<open>gcos/api\<close>): the routes as functions of a request and the kernel, the
  snapshot stream of the dashboard, and the life of the application around a kernel. Routing,
  JSON and validation of field types are the framework's; of validation the model has the
  bounds the code declares for the priority. A response is a value or an error with its status
  code; an exception that leaves a handler becomes an error 500.
\<close>

section \<open>Requests and responses\<close>

record spawn_request =
  sq_prompt :: string
  sq_name :: string
  sq_priority :: int
  sq_timeout_s :: "real option"
  sq_quota :: "int option"
  sq_parent_pid :: "pid option"
  sq_pipe_to :: "pid option"

definition spawn_request_default :: "string \<Rightarrow> spawn_request" where
  "spawn_request_default prompt =
     \<lparr>sq_prompt = prompt, sq_name = ''anon'', sq_priority = 5, sq_timeout_s = None, sq_quota = None,
      sq_parent_pid = None, sq_pipe_to = None\<rparr>"

definition valid_request :: "spawn_request \<Rightarrow> bool" where
  "valid_request q \<longleftrightarrow> 0 \<le> sq_priority q \<and> sq_priority q \<le> 9"

text \<open>\<open>_row\<close> of the routes; the stream's \<open>_row\<close> leaves the prompt out.\<close>

record api_row = agent_row +
  ar_result :: "string option"
  ar_error :: "string option"
  ar_prompt :: "string option"
  ar_pipe_to :: "pid option"
  ar_children :: "pid list"

definition api_row_of :: "time \<Rightarrow> agent \<Rightarrow> api_row" where
  "api_row_of now a = agent_row.extend (to_row now a)
     (api_row.fields (acb_result a) (acb_error a) (Some (acb_prompt a)) (acb_pipe_to a) (acb_children a))"

definition sse_row :: "time \<Rightarrow> agent \<Rightarrow> api_row" where
  "sse_row now a = agent_row.extend (to_row now a)
     (api_row.fields (acb_result a) (acb_error a) None (acb_pipe_to a) (acb_children a))"

datatype api_request =
    Post_spawn spawn_request
  | Get_agents
  | Get_agent pid
  | Delete_agent pid
  | Get_status
  | Post_topup int
  | Post_reap
  | Get_log int
  | Get_batcher

datatype api_response =
    R_pid pid
  | R_agents "api_row list"
  | R_agent api_row
  | R_killed pid
  | R_status kernel_status
  | R_quota quota_row
  | R_reaped nat
  | R_entries "log_rec list"
  | R_batcher "stats_row option"
  | R_error int string

section \<open>Handlers\<close>

definition clock_of :: "kernel \<Rightarrow> time" where
  "clock_of k = now_of (sy_world (kn_sys k))"

definition server_error :: api_response where
  "server_error = R_error 500 ''Internal Server Error''"

definition spawn_args_of :: "spawn_request \<Rightarrow> spawn_args" where
  "spawn_args_of q =
     \<lparr>sa_prompt = sq_prompt q, sa_name = sq_name q, sa_priority = sq_priority q,
      sa_timeout_s = sq_timeout_s q, sa_quota = sq_quota q, sa_capability = None,
      sa_parent_pid = sq_parent_pid q, sa_pipe_to = sq_pipe_to q, sa_input_from = None\<rparr>"

definition api_spawn :: "spawn_request \<Rightarrow> kernel \<Rightarrow> kernel \<times> api_response" where
  "api_spawn q k =
     (if \<not> valid_request q then (k, R_error 422 ''Unprocessable Entity'')
      else case spawn (spawn_args_of q) k of
             (k', Inl e) \<Rightarrow> (k', server_error)
           | (k', Inr p) \<Rightarrow> (k', R_pid p))"

definition api_list_agents :: "kernel \<Rightarrow> api_response" where
  "api_list_agents k = R_agents (map (api_row_of (clock_of k)) (kernel_list_all k))"

definition api_get_agent :: "pid \<Rightarrow> kernel \<Rightarrow> api_response" where
  "api_get_agent p k =
     (case kernel_get p k of
        None \<Rightarrow> R_error 404 (''PID '' @ show_int p @ '' not found'')
      | Some a \<Rightarrow> R_agent (api_row_of (clock_of k) a))"

text \<open>\<open>kill_agent\<close>; \<open>None\<close> if the call of the kernel does not return.\<close>

definition api_kill_agent :: "pid \<Rightarrow> kernel \<Rightarrow> (kernel \<times> api_response) option" where
  "api_kill_agent p k =
     map_option (\<lambda>(k', ok).
       (k', if \<not> ok
            then R_error 409 (''PID '' @ show_int p @ '' cannot be killed (not found or already terminal)'')
            else R_killed p)) (kill p k)"

definition api_kernel_status :: "status_sources \<Rightarrow> kernel \<Rightarrow> api_response" where
  "api_kernel_status src k = (case status src k of Inl e \<Rightarrow> server_error | Inr st \<Rightarrow> R_status st)"

definition api_quota_topup :: "int \<Rightarrow> kernel \<Rightarrow> kernel \<times> api_response" where
  "api_quota_topup amount k =
     (if amount \<le> 0 then (k, R_error 400 ''amount must be positive'')
      else let k' = kernel_topup amount k in (k', R_quota (quota_snapshot (quota_of (kn_sys k')))))"

definition api_kernel_reap :: "kernel \<Rightarrow> kernel \<times> api_response" where
  "api_kernel_reap k = (let (k', n) = reap_terminal k in (k', R_reaped n))"

definition api_log_snapshot :: "int \<Rightarrow> kernel \<Rightarrow> api_response" where
  "api_log_snapshot limit k = R_entries (ring_snapshot (Some limit) (kn_trace k))"

text \<open>The client of the pool and its statistics, if it has any, are those \<open>status\<close> reads.\<close>

definition api_batcher_stats :: "status_sources \<Rightarrow> api_response" where
  "api_batcher_stats src = R_batcher (se_batcher src)"

fun handle :: "status_sources \<Rightarrow> api_request \<Rightarrow> kernel \<Rightarrow> (kernel \<times> api_response) option" where
  "handle src (Post_spawn q) k = Some (api_spawn q k)"
| "handle src Get_agents k = Some (k, api_list_agents k)"
| "handle src (Get_agent p) k = Some (k, api_get_agent p k)"
| "handle src (Delete_agent p) k = api_kill_agent p k"
| "handle src Get_status k = Some (k, api_kernel_status src k)"
| "handle src (Post_topup n) k = Some (api_quota_topup n k)"
| "handle src Post_reap k = Some (api_kernel_reap k)"
| "handle src (Get_log n) k = Some (k, api_log_snapshot n k)"
| "handle src Get_batcher k = Some (k, api_batcher_stats src)"

section \<open>The stream\<close>

definition sse_snapshot :: "status_sources \<Rightarrow> kernel \<Rightarrow> py_exc + kernel_status \<times> api_row list" where
  "sse_snapshot src k =
     andthen (status src k) (\<lambda>st. Inr (st, map (sse_row (clock_of k)) (kernel_list_all k)))"

text \<open>
  The generator of \<open>/events\<close> over what it observes in its turns: whether the client has
  disconnected, and the text of the snapshot. The events it yields.
\<close>

fun sse_stream :: "string option \<Rightarrow> (bool \<times> string) list \<Rightarrow> string list" where
  "sse_stream last_payload [] = []"
| "sse_stream last_payload ((gone, payload) # turns) =
     (if gone then []
      else if Some payload \<noteq> last_payload then payload # sse_stream (Some payload) turns
      else sse_stream last_payload turns)"

section \<open>The application\<close>

text \<open>
  \<open>lifespan\<close>: a kernel is built from the environment when none was given, then started; it is
  shut down when the application ends.
\<close>

definition lifespan_enter ::
  "(string \<Rightarrow> py_exc + real) \<Rightarrow> (string \<Rightarrow> string option) \<Rightarrow> world \<Rightarrow> py_logger \<Rightarrow> cg_fs \<Rightarrow> cg_host \<Rightarrow> int
     \<Rightarrow> py_exc + client option \<Rightarrow> kernel option \<Rightarrow> py_exc + kernel" where
  "lifespan_enter py_float getenv w logger fs host self_pid factory k0 =
     andthen (case k0 of
                Some k \<Rightarrow> Inr k
              | None \<Rightarrow> andthen (config_from_env py_float getenv) (\<lambda>c. kernel_init c w logger fs)) (\<lambda>k.
       case kernel_start host self_pid factory k of (k', Some e) \<Rightarrow> Inl e | (k', None) \<Rightarrow> Inr k')"

definition lifespan_exit :: "kernel \<Rightarrow> kernel" where
  "lifespan_exit k = kernel_shutdown k"

section \<open>Lemmas\<close>

text \<open>Whether a request is answered without a fault of the kernel: no self-parent.\<close>

definition sound_request :: "api_request \<Rightarrow> kernel \<Rightarrow> bool" where
  "sound_request r k \<longleftrightarrow> (\<forall>q. r = Post_spawn q \<longrightarrow> sq_parent_pid q \<noteq> Some (pa_counter (kn_pids k)))"

lemma spawn_args_simps [simp]:
  "sa_parent_pid (spawn_args_of q) = sq_parent_pid q" "sa_capability (spawn_args_of q) = None"
  "sa_input_from (spawn_args_of q) = None"
  by (simp_all add: spawn_args_of_def)

lemma kill_refused: "kernel_get p k = None \<or> (\<exists>a. kernel_get p k = Some a \<and> is_terminal a) \<Longrightarrow> kill p k = Some (k, False)"
  by (auto simp: kill_def kernel_get_def Let_def)

lemma kill_reachable: "reachable k \<Longrightarrow> kill p k = Some (k', b) \<Longrightarrow> reachable k'"
  by (blast intro: reachable_step call_kill)

lemma spawn_answer:
  assumes "reachable k" "sq_parent_pid q \<noteq> Some (pa_counter (kn_pids k))" "valid_request q"
  shows "\<exists>k' a. api_spawn q k = (k', R_pid (pa_counter (kn_pids k))) \<and> reachable k'
    \<and> kernel_get (pa_counter (kn_pids k)) k' = Some a \<and> acb_capability a = cap_default_user
    \<and> acb_priority a = sq_priority q \<and> acb_prompt a = sq_prompt q \<and> acb_state a = READY"
proof -
  let ?p = "pa_counter (kn_pids k)" and ?r = "spawn_args_of q"
  from spawn_spec [OF reachable_inv [OF assms(1)], of ?r] obtain k' a where
    k': "spawn ?r k = (k', Inr ?p)" and a: "kernel_get ?p k' = Some a" "acb_state a = READY"
      "a\<lparr>acb_state := NEW, acb_children := []\<rparr> = spawn_agent k ?r ?p (now_of (sy_world (kn_sys k)))"
    by blast
  have "reachable k'" using reachable_step [OF assms(1) call_spawn [of ?r k]] k' assms(2) by simp
  moreover have "acb_capability a = cap_default_user" "acb_priority a = sq_priority q" "acb_prompt a = sq_prompt q"
    using arg_cong [OF a(3), of acb_capability] arg_cong [OF a(3), of acb_priority] arg_cong [OF a(3), of acb_prompt]
    by (simp_all add: spawn_agent_def spawn_args_of_def new_agent_def)
  ultimately show ?thesis using k' a(1,2) assms(3) by (simp add: api_spawn_def)
qed

lemma kill_answer:
  assumes "reachable k"
  shows "\<exists>k'. reachable k' \<and> api_kill_agent p k = Some
     (if \<exists>a. kernel_get p k = Some a \<and> \<not> is_terminal a then (k', R_killed p)
      else (k, R_error 409 (''PID '' @ show_int p @ '' cannot be killed (not found or already terminal)'')))"
proof (cases "\<exists>a. kernel_get p k = Some a \<and> \<not> is_terminal a")
  case True
  then obtain a where a: "kernel_get p k = Some a" "\<not> is_terminal a" by blast
  from kill_spec [OF reachable_inv [OF assms] reachable_pool_inv [OF assms] a] obtain k' where
    k': "kill p k = Some (k', True)" by blast
  with True kill_reachable [OF assms] show ?thesis by (auto simp: api_kill_agent_def)
next
  case False
  then have "kill p k = Some (k, False)" by (intro kill_refused) (cases "kernel_get p k"; auto)
  with False assms show ?thesis by (auto simp: api_kill_agent_def)
qed

lemma sse_after:
  "sse_stream (Some l) turns = tl (remdups_adj (l # map snd (takeWhile (\<lambda>t. \<not> fst t) turns)))"
proof (induction turns arbitrary: l)
  case (Cons t ts)
  then show ?case by (cases t) (auto simp: remdups_adj_Cons split: list.splits)
qed simp

text \<open>What the status code and the value of a response say about the request.\<close>

fun answers :: "api_request \<Rightarrow> kernel \<Rightarrow> kernel \<Rightarrow> api_response \<Rightarrow> bool" where
  "answers (Post_spawn q) k k' resp \<longleftrightarrow>
     (if valid_request q
      then resp = R_pid (pa_counter (kn_pids k))
        \<and> (\<exists>a. kernel_get (pa_counter (kn_pids k)) k' = Some a \<and> acb_capability a = cap_default_user
             \<and> acb_priority a = sq_priority q \<and> acb_prompt a = sq_prompt q \<and> acb_state a = READY)
      else k' = k \<and> (\<exists>t. resp = R_error 422 t))"
| "answers (Get_agent p) k k' resp \<longleftrightarrow> k' = k
     \<and> resp = (case kernel_get p k of
                 None \<Rightarrow> R_error 404 (''PID '' @ show_int p @ '' not found'')
               | Some a \<Rightarrow> R_agent (api_row_of (clock_of k) a))"
| "answers (Delete_agent p) k k' resp \<longleftrightarrow>
     (if \<exists>a. kernel_get p k = Some a \<and> \<not> is_terminal a then resp = R_killed p
      else k' = k \<and> (\<exists>t. resp = R_error 409 t))"
| "answers (Post_topup n) k k' resp \<longleftrightarrow>
     (if 0 < n then q_remaining (quota_of (kn_sys k')) = q_remaining (quota_of (kn_sys k)) + n
        \<and> resp = R_quota (quota_snapshot (quota_of (kn_sys k')))
      else k' = k \<and> (\<exists>t. resp = R_error 400 t))"
| "answers Post_reap k k' resp \<longleftrightarrow> (\<exists>n. resp = R_reaped n)"
| "answers r k k' resp \<longleftrightarrow> k' = k"

section \<open>Properties\<close>



text \<open>
  The event stream pushes each change once: the events it yields are the snapshots observed
  until the client disconnects, with runs of equal ones collapsed to one.
\<close>

theorem sse_pushes_changes:
  "sse_stream None turns = remdups_adj (map snd (takeWhile (\<lambda>t. \<not> fst t) turns))"
  by (cases turns) (auto simp: sse_after)

end
