(* ===== verification/Shell.thy ===== *)
theory Shell
  imports Api
begin

text \<open>
  The interactive shell (\<open>gcos/shell/repl.py\<close>): splitting of a line into words as
  \<open>shlex.split\<close> does, the dispatch to a command, every command over the kernel, and the
  session around them. What a command prints is a value of \<open>shell_out\<close> with the data shown;
  colours and layout are not modelled. The live table of \<open>top\<close> is shown once.
\<close>

section \<open>Words of a line\<close>

text \<open>
  \<open>shlex.split(s)\<close>: between words, inside a word, inside quotes, after a backslash in a word or
  in double quotes. \<open>tok\<close> is the word so far, \<open>quoted\<close> whether it had quotes, so that
  an empty quoted word counts.
\<close>

datatype lex_state = L_space | L_word | L_quote char | L_escape "char option"

definition shlex_space :: "char \<Rightarrow> bool" where
  "shlex_space c \<longleftrightarrow> c \<in> {CHR '' '', CHR 0x09, CHR 0x0D, CHR 0x0A}"

definition no_closing_quotation :: py_exc where
  "no_closing_quotation = OtherExc ''ValueError'' ''No closing quotation''"

definition no_escaped_character :: py_exc where
  "no_escaped_character = OtherExc ''ValueError'' ''No escaped character''"

definition emit_word :: "string \<Rightarrow> bool \<Rightarrow> py_exc + string list \<Rightarrow> py_exc + string list" where
  "emit_word tok quoted rest = (if tok \<noteq> [] \<or> quoted then andthen rest (\<lambda>ws. Inr (tok # ws)) else rest)"

fun lex :: "lex_state \<Rightarrow> string \<Rightarrow> bool \<Rightarrow> string \<Rightarrow> py_exc + string list" where
  "lex L_space tok quoted [] = emit_word tok quoted (Inr [])"
| "lex L_word tok quoted [] = emit_word tok quoted (Inr [])"
| "lex (L_quote q) tok quoted [] = Inl no_closing_quotation"
| "lex (L_escape e) tok quoted [] = Inl no_escaped_character"
| "lex L_space tok quoted (c # cs) =
     (if shlex_space c then emit_word tok quoted (lex L_space [] False cs)
      else if c = CHR 0x5C then lex (L_escape None) tok quoted cs
      else if c = CHR 0x27 \<or> c = CHR 0x22 then lex (L_quote c) tok quoted cs
      else lex L_word (tok @ [c]) quoted cs)"
| "lex L_word tok quoted (c # cs) =
     (if shlex_space c then emit_word tok quoted (lex L_space [] False cs)
      else if c = CHR 0x27 \<or> c = CHR 0x22 then lex (L_quote c) tok quoted cs
      else if c = CHR 0x5C then lex (L_escape None) tok quoted cs
      else lex L_word (tok @ [c]) quoted cs)"
| "lex (L_quote q) tok quoted (c # cs) =
     (if c = q then lex L_word tok True cs
      else if c = CHR 0x5C \<and> q = CHR 0x22 then lex (L_escape (Some q)) tok True cs
      else lex (L_quote q) (tok @ [c]) True cs)"
| "lex (L_escape None) tok quoted (c # cs) = lex L_word (tok @ [c]) quoted cs"
| "lex (L_escape (Some q)) tok quoted (c # cs) =
     lex (L_quote q) (if c \<noteq> CHR 0x5C \<and> c \<noteq> q then tok @ [CHR 0x5C, c] else tok @ [c]) quoted cs"

definition shlex_split :: "string \<Rightarrow> py_exc + string list" where
  "shlex_split s = lex L_space [] False s"

section \<open>What the shell prints\<close>

definition state_style :: "string \<Rightarrow> string" where
  "state_style s =
     (case map_of [(''NEW'', ''dim''), (''READY'', ''blue''), (''RUNNING'', ''yellow''), (''WAITING'', ''dim''),
                   (''BLOCKED'', ''red''), (''DONE'', ''green''), (''TIMEOUT'', ''red''), (''ERROR'', ''red''),
                   (''ZOMBIE'', ''dim'')] s of
        None \<Rightarrow> ''white'' | Some v \<Rightarrow> v)"

text \<open>
  A line of the table of agents. The last column is the first line of the error or the result,
  cut to 60 characters, with a mark if it was longer.
\<close>

record ps_row =
  psr_pid :: string
  psr_name :: string
  psr_style :: string
  psr_state :: string
  psr_prio :: string
  psr_parent :: string
  psr_calls :: string
  psr_tokens :: string
  psr_wall :: string
  psr_short :: string
  psr_cut :: bool

definition first_text :: "string option \<Rightarrow> string option \<Rightarrow> string" where
  "first_text e r =
     (case e of Some (c # cs) \<Rightarrow> c # cs | _ \<Rightarrow> (case r of Some t \<Rightarrow> t | None \<Rightarrow> []))"

definition ps_row_of :: "time \<Rightarrow> agent \<Rightarrow> ps_row" where
  "ps_row_of now a =
     (let lines = splitlines (first_text (acb_error a) (acb_result a));
          short = (case lines of [] \<Rightarrow> [] | l # ls \<Rightarrow> l);
          st = state_value (acb_state a)
      in \<lparr>psr_pid = show_int (acb_pid a), psr_name = acb_name a, psr_style = state_style st, psr_state = st,
          psr_prio = show_int (acb_priority a),
          psr_parent = (case acb_parent_pid a of None \<Rightarrow> [] | Some p \<Rightarrow> show_int p),
          psr_calls = show_int (acb_llm_calls_used a), psr_tokens = show_int (acb_tokens_used a),
          psr_wall = fmt_fixed 2 (wall_time now a) @ ''s'',
          psr_short = take 60 short, psr_cut = (60 < length short)\<rparr>)"

record agents_table =
  at_sched :: string
  at_busy :: int
  at_workers :: int
  at_queue :: nat
  at_rows :: "ps_row list"

definition build_agents_table :: "kernel \<Rightarrow> agents_table" where
  "build_agents_table k =
     \<lparr>at_sched = sched_name (wp_scheduler (kn_pool k)), at_busy = sy_busy (kn_sys k),
      at_workers = kc_workers (kn_config k), at_queue = rq_len (sy_queue (kn_sys k)),
      at_rows = map (ps_row_of (clock_of k)) (kernel_list_all k)\<rparr>"

datatype shell_out =
    Parse_error string
  | Unknown_command string
  | Raised string string
  | Help_text
  | Usage string
  | Spawned pid string int
  | Spawned_coder pid string
  | Agents agents_table
  | Live_ps
  | Blank_line
  | Was_killed pid
  | Could_not_kill pid
  | No_such_pid pid
  | Cat_head pid string string
  | Cat_error string
  | Cat_result string
  | Mem_stats pager_stats
  | Mem_page nat string int "string list" string bool
  | Empty_tree
  | Tree_row nat pid string string int
  | No_mailboxes
  | Bus_row pid nat
  | Quota_row quota_row
  | No_batcher
  | Batcher_row stats_row
  | Empty_trace
  | Trace_row time string string string string

section \<open>Commands\<close>

text \<open>
  A command gives the kernel, and the output and whether the shell goes on, or raises.
  \<open>None\<close>: it does not return.
\<close>

type_synonym cmd_result = "(kernel \<times> (py_exc + shell_out list \<times> bool)) option"

definition say :: "kernel \<Rightarrow> shell_out list \<Rightarrow> cmd_result" where
  "say k outs = Some (k, Inr (outs, True))"

definition raise_in :: "kernel \<Rightarrow> py_exc \<Rightarrow> cmd_result" where
  "raise_in k e = Some (k, Inl e)"

definition shell_args :: "string \<Rightarrow> string \<Rightarrow> int \<Rightarrow> capability_set option \<Rightarrow> spawn_args" where
  "shell_args prompt name prio cap =
     \<lparr>sa_prompt = prompt, sa_name = name, sa_priority = prio, sa_timeout_s = None, sa_quota = None,
      sa_capability = cap, sa_parent_pid = None, sa_pipe_to = None, sa_input_from = None\<rparr>"

definition cmd_spawn :: "string list \<Rightarrow> kernel \<Rightarrow> cmd_result" where
  "cmd_spawn args k =
     (case args of
        name # prio_s # w # rest \<Rightarrow>
          (case py_int prio_s of
             Inl e \<Rightarrow> raise_in k e
           | Inr prio \<Rightarrow>
               (case spawn (shell_args (join_with '' '' (w # rest)) name prio None) k of
                  (k', Inl e) \<Rightarrow> raise_in k' e
                | (k', Inr p) \<Rightarrow> say k' [Spawned p name prio]))
      | _ \<Rightarrow> say k [Usage ''spawn <name> <prio> <prompt...>''])"

definition cmd_coder :: "string list \<Rightarrow> kernel \<Rightarrow> cmd_result" where
  "cmd_coder args k =
     (case args of
        name # w # rest \<Rightarrow>
          (case spawn (shell_args (join_with '' '' (w # rest)) name 5 (Some cap_coder)) k of
             (k', Inl e) \<Rightarrow> raise_in k' e
           | (k', Inr p) \<Rightarrow> say k' [Spawned_coder p name])
      | _ \<Rightarrow> say k [Usage ''coder <name> <prompt...>''])"

definition cmd_ps :: "kernel \<Rightarrow> cmd_result" where
  "cmd_ps k = say k [Agents (build_agents_table k)]"

text \<open>
  \<open>top\<close> redraws its table in place, from the same function, until Ctrl-C; the output keeps
  the first frame. What the workers do meanwhile is the next activity between two lines.
\<close>

definition cmd_top :: "kernel \<Rightarrow> cmd_result" where
  "cmd_top k = say k [Live_ps, Agents (build_agents_table k), Blank_line]"

definition cmd_kill :: "string list \<Rightarrow> kernel \<Rightarrow> cmd_result" where
  "cmd_kill args k =
     (case args of
        [] \<Rightarrow> say k [Usage ''kill <pid>'']
      | a # as' \<Rightarrow>
          (case py_int a of
             Inl e \<Rightarrow> raise_in k e
           | Inr p \<Rightarrow>
               (case kill p k of
                  None \<Rightarrow> None
                | Some (k', ok) \<Rightarrow> say k' [if ok then Was_killed p else Could_not_kill p])))"

definition with_agent :: "string \<Rightarrow> kernel \<Rightarrow> (agent \<Rightarrow> shell_out list) \<Rightarrow> cmd_result" where
  "with_agent a k show_agent =
     (case py_int a of
        Inl e \<Rightarrow> raise_in k e
      | Inr p \<Rightarrow>
          (case kernel_get p k of None \<Rightarrow> say k [No_such_pid p] | Some x \<Rightarrow> say k (show_agent x)))"

definition non_empty :: "string option \<Rightarrow> bool" where
  "non_empty t \<longleftrightarrow> t \<noteq> None \<and> t \<noteq> Some []"

definition cmd_cat :: "string list \<Rightarrow> kernel \<Rightarrow> cmd_result" where
  "cmd_cat args k =
     (case args of
        [] \<Rightarrow> say k [Usage ''cat <pid>'']
      | a # as' \<Rightarrow> with_agent a k (\<lambda>x.
          Cat_head (acb_pid x) (acb_name x) (state_value (acb_state x))
          # (if non_empty (acb_error x) then [Cat_error (the (acb_error x))] else [])
          @ (if non_empty (acb_result x) then [Cat_result (the (acb_result x))] else [])))"

text \<open>The shell's own pager, whatever budget the kernel has.\<close>

definition shell_pager :: context_pager where
  "shell_pager = \<lparr>cpg_budget = 4096, cpg_policies = default_policies False\<rparr>"

definition mem_line :: "nat \<times> context_page \<Rightarrow> shell_out" where
  "mem_line ip =
     (let p = snd ip
      in Mem_page (fst ip) (cp_role p) (cp_tokens p)
           ((if cp_pinned p then [''pinned''] else []) @ (if cp_summarized p then [''summary''] else []))
           (take 80 (cp_content p)) (80 < length (cp_content p)))"

definition cmd_mem :: "string list \<Rightarrow> kernel \<Rightarrow> cmd_result" where
  "cmd_mem args k =
     (case args of
        [] \<Rightarrow> say k [Usage ''mem <pid>'']
      | a # as' \<Rightarrow> with_agent a k (\<lambda>x.
          Mem_stats (pager_stats_of shell_pager x) # map mem_line (List.enumerate 0 (acb_context_pages x))))"

fun extend_all :: "('a \<Rightarrow> 'b list option) \<Rightarrow> 'a list \<Rightarrow> 'b list option" where
  "extend_all f [] = Some []"
| "extend_all f (x # xs) =
     (case f x of None \<Rightarrow> None | Some ys \<Rightarrow> map_option (\<lambda>zs. ys @ zs) (extend_all f xs))"

definition tree_line :: "agent_row \<times> nat \<Rightarrow> shell_out" where
  "tree_line rd = Tree_row (snd rd) (row_pid (fst rd)) (row_name (fst rd)) (row_state (fst rd)) (row_prio (fst rd))"

definition cmd_tree :: "string list \<Rightarrow> kernel \<Rightarrow> cmd_result" where
  "cmd_tree args k =
     (let t = sy_table (kn_sys k); view = tree_view (clock_of k) t;
          tree_out = map_option (\<lambda>rows. (k, Inr (if rows = [] then [Empty_tree] else map tree_line rows, True)))
      in case args of
           [] \<Rightarrow> tree_out (extend_all (\<lambda>r. view (acb_pid r)) (roots t))
         | a # as' \<Rightarrow> (case py_int a of Inl e \<Rightarrow> raise_in k e | Inr p \<Rightarrow> tree_out (view p)))"

definition cmd_bus :: "kernel \<Rightarrow> cmd_result" where
  "cmd_bus k =
     (let snap = bus_snapshot (sy_bus (kn_sys k))
      in say k (if snap = [] then [No_mailboxes]
                else map (\<lambda>(p, n). Bus_row p n) (sort_key fst snap)))"

definition cmd_quota :: "kernel \<Rightarrow> cmd_result" where
  "cmd_quota k = say k [Quota_row (quota_snapshot (quota_of (kn_sys k)))]"

definition cmd_batcher :: "status_sources \<Rightarrow> kernel \<Rightarrow> cmd_result" where
  "cmd_batcher src k = say k [case se_batcher src of None \<Rightarrow> No_batcher | Some s \<Rightarrow> Batcher_row s]"

definition trace_colour :: "string \<Rightarrow> string" where
  "trace_colour kind =
     (if kind = ''error'' \<or> kind = ''critical'' then ''red'' else if kind = ''warning'' then ''yellow'' else ''dim'')"

definition field_of :: "string \<Rightarrow> log_rec \<Rightarrow> string" where
  "field_of f e = (case map_of (lr_fields e) f of None \<Rightarrow> [] | Some v \<Rightarrow> v)"

definition trace_line :: "log_rec \<Rightarrow> shell_out" where
  "trace_line e = Trace_row (lr_ts e) (trace_colour (lr_kind e)) (field_of ''level'' e) (field_of ''logger'' e) (lr_msg e)"

definition cmd_dmesg :: "string list \<Rightarrow> kernel \<Rightarrow> cmd_result" where
  "cmd_dmesg args k =
     (case (case args of [] \<Rightarrow> Inr 25 | a # as' \<Rightarrow> py_int a) of
        Inl e \<Rightarrow> raise_in k e
      | Inr limit \<Rightarrow>
          let entries = ring_snapshot (Some limit) (kn_trace k)
          in say k (if entries = [] then [Empty_trace]
                    else map trace_line entries))"

section \<open>Dispatch and session\<close>

text \<open>\<open>getattr(self, "cmd_" + name)\<close>: the command of a name; \<open>None\<close> if there is none.\<close>

definition run_command ::
  "status_sources \<Rightarrow> string \<Rightarrow> string list \<Rightarrow> kernel \<Rightarrow> cmd_result option" where
  "run_command src cmd args k =
     (if cmd = ''help'' then Some (say k [Help_text])
      else if cmd = ''exit'' \<or> cmd = ''quit'' then Some (Some (k, Inr ([], False)))
      else if cmd = ''spawn'' then Some (cmd_spawn args k)
      else if cmd = ''coder'' then Some (cmd_coder args k)
      else if cmd = ''ps'' then Some (cmd_ps k)
      else if cmd = ''top'' then Some (cmd_top k)
      else if cmd = ''kill'' then Some (cmd_kill args k)
      else if cmd = ''cat'' then Some (cmd_cat args k)
      else if cmd = ''mem'' then Some (cmd_mem args k)
      else if cmd = ''tree'' then Some (cmd_tree args k)
      else if cmd = ''bus'' then Some (cmd_bus k)
      else if cmd = ''quota'' then Some (cmd_quota k)
      else if cmd = ''batcher'' then Some (cmd_batcher src k)
      else if cmd = ''dmesg'' then Some (cmd_dmesg args k)
      else None)"

text \<open>\<open>_dispatch\<close>; \<open>None\<close> if it does not return.\<close>

definition dispatch :: "status_sources \<Rightarrow> string \<Rightarrow> kernel \<Rightarrow> (kernel \<times> shell_out list \<times> bool) option" where
  "dispatch src line k =
     (case shlex_split line of
        Inl e \<Rightarrow> Some (k, [Parse_error (exc_str e)], True)
      | Inr [] \<Rightarrow> Some (k, [], True)
      | Inr (cmd # args) \<Rightarrow>
          (case run_command src cmd args k of
             None \<Rightarrow> Some (k, [Unknown_command cmd], True)
           | Some None \<Rightarrow> None
           | Some (Some (k', Inl e)) \<Rightarrow> Some (k', [Raised (exc_type e) (exc_str e)], True)
           | Some (Some (k', Inr r)) \<Rightarrow> Some (k', r)))"

text \<open>
  The loop of \<open>run\<close> over the lines typed; the input ends with the end of the list
  (\<open>EOFError\<close> or Ctrl-C at the prompt). \<open>between\<close> is what the workers do before a line.
\<close>

fun shell_loop ::
  "status_sources \<Rightarrow> ((kernel \<Rightarrow> kernel) \<times> string) list \<Rightarrow> kernel \<Rightarrow> (kernel \<times> shell_out list) option" where
  "shell_loop src [] k = Some (k, [])"
| "shell_loop src ((between, raw) # turns) k =
     (if str_strip raw = [] then shell_loop src turns (between k)
      else case dispatch src raw (between k) of
             None \<Rightarrow> None
           | Some (k1, outs, continue) \<Rightarrow>
               if continue then map_option (\<lambda>(k2, more). (k2, outs @ more)) (shell_loop src turns k1)
               else Some (k1, outs))"

definition shell_run ::
  "status_sources \<Rightarrow> cg_host \<Rightarrow> int \<Rightarrow> py_exc + client option \<Rightarrow> ((kernel \<Rightarrow> kernel) \<times> string) list \<Rightarrow> kernel
     \<Rightarrow> (kernel \<times> (py_exc + shell_out list \<times> int)) option" where
  "shell_run src host self_pid factory turns k =
     (case kernel_start host self_pid factory k of
        (k1, Some e) \<Rightarrow> Some (k1, Inl e)
      | (k1, None) \<Rightarrow>
          map_option (\<lambda>(k2, outs). (kernel_shutdown k2, Inr (outs, 0))) (shell_loop src turns k1))"

section \<open>Lemmas\<close>

text \<open>The walk of a tree view ends when the tree is a forest.\<close>

lemma walk_unfold:
  "walk_loop now t [] out = Some out"
  "walk_loop now t ((p, d) # rest) out =
     (case table_get t p of
        None \<Rightarrow> walk_loop now t rest out
      | Some a \<Rightarrow> walk_loop now t (map (\<lambda>c. (c, Suc d)) (acb_children a) @ rest) (out @ [(to_row now a, d)]))"
  by (rule trans [OF walk_loop.simps], simp split: option.split)+

lemma walk_children:
  assumes "\<And>c d rest out. c \<in> set cs \<Longrightarrow> table_get t c \<noteq> None \<Longrightarrow>
      (\<And>out. walk_loop now t rest out \<noteq> None) \<Longrightarrow> walk_loop now t ((c, d) # rest) out \<noteq> None"
    and "\<And>out. walk_loop now t rest out \<noteq> None"
  shows "walk_loop now t (map (\<lambda>c. (c, d)) cs @ rest) out \<noteq> None"
  using assms(1)
proof (induction cs arbitrary: out)
  case Nil
  with assms(2) show ?case by simp
next
  case (Cons c cs)
  have ih: "walk_loop now t (map (\<lambda>c. (c, d)) cs @ rest) out' \<noteq> None" for out'
    by (rule Cons.IH) (rule Cons.prems, simp_all)
  show ?case
  proof (cases "table_get t c")
    case None
    with ih [of out] show ?thesis by (simp add: walk_unfold)
  next
    case (Some a)
    with Cons.prems [of c "map (\<lambda>c. (c, d)) cs @ rest" d out] ih show ?thesis by simp
  qed
qed

lemma walk_returns:
  assumes "forest t" and "\<And>out. walk_loop now t rest out \<noteq> None"
  shows "walk_loop now t ((p, d) # rest) out \<noteq> None"
  using assms(2)
proof (induction "depth_bound t p" arbitrary: p d rest out rule: less_induct)
  case less
  show ?case
  proof (cases "table_get t p")
    case None
    then show ?thesis using less.prems [of out] by (simp add: walk_unfold)
  next
    case (Some a)
    have child: "walk_loop now t ((c, d') # rest') out' \<noteq> None"
      if "c \<in> set (acb_children a)" "table_get t c \<noteq> None" "\<And>out. walk_loop now t rest' out \<noteq> None" for c d' rest' out'
    proof -
      have "c \<in> set (children_of t p)" using that(1,2) Some by (auto simp: children_of_def)
      from less.hyps [OF depth_bound_child [OF assms(1) this] that(3)] show ?thesis .
    qed
    from walk_children [OF child less.prems] have
      "walk_loop now t (map (\<lambda>c. (c, Suc d)) (acb_children a) @ rest) (out @ [(to_row now a, d)]) \<noteq> None" by blast
    with Some show ?thesis by (simp add: walk_unfold)
  qed
qed

lemma tree_view_returns: "forest t \<Longrightarrow> \<exists>rows. tree_view now t p = Some rows"
proof -
  assume "forest t"
  moreover have "walk_loop now t [] out \<noteq> None" for out by (simp add: walk_unfold)
  ultimately show ?thesis using walk_returns [of t now "[]" p 0 "[]"] by (auto simp: tree_view_def)
qed

lemma extend_all_returns: "(\<And>x. x \<in> set xs \<Longrightarrow> f x \<noteq> None) \<Longrightarrow> extend_all f xs \<noteq> None"
  by (induction xs) (auto split: option.splits)

text \<open>A command that is a good citizen: it returns, goes on, and leaves a reachable kernel.\<close>

definition good :: "cmd_result \<Rightarrow> bool" where
  "good r \<longleftrightarrow> (\<exists>k'. reachable k' \<and> ((\<exists>e. r = Some (k', Inl e)) \<or> (\<exists>outs. r = Some (k', Inr (outs, True)))))"

lemma good_say: "reachable k \<Longrightarrow> good (say k outs)" "reachable k \<Longrightarrow> good (raise_in k e)"
  by (auto simp: good_def say_def raise_in_def)

lemma shell_spawn_reachable:
  "reachable k \<Longrightarrow> spawn (shell_args prompt name prio cap) k = (k', r) \<Longrightarrow> reachable k'"
  using reachable_step [OF _ call_spawn [of "shell_args prompt name prio cap" k]] by (simp add: shell_args_def)

lemma spawn_commands_good: "reachable k \<Longrightarrow> good (cmd_spawn args k)" "reachable k \<Longrightarrow> good (cmd_coder args k)"
  by (auto simp: cmd_spawn_def cmd_coder_def good_say split: list.split sum.split prod.split
      intro!: good_say dest: shell_spawn_reachable)

lemma kill_good:
  assumes "reachable k"
  shows "good (cmd_kill args k)"
proof (cases args)
  case (Cons a rest)
  show ?thesis
  proof (cases "py_int a")
    case (Inr p)
    from kill_answer [OF assms, of p] obtain k' b where k: "kill p k = Some (k', b)"
      by (auto simp: api_kill_agent_def split: if_splits)
    with kill_reachable [OF assms k] Cons Inr show ?thesis by (simp add: cmd_kill_def good_say)
  qed (use Cons assms in \<open>simp add: cmd_kill_def good_say\<close>)
qed (use assms in \<open>simp add: cmd_kill_def good_say\<close>)

lemma tree_good:
  assumes "reachable k"
  shows "good (cmd_tree args k)"
proof -
  have f: "forest (sy_table (kn_sys k))" using reachable_inv [OF assms] by (simp add: kernel_inv_def)
  have all: "extend_all (\<lambda>r. tree_view (clock_of k) (sy_table (kn_sys k)) (acb_pid r)) (roots (sy_table (kn_sys k))) \<noteq> None"
    by (rule extend_all_returns) (use tree_view_returns [OF f] in auto)
  have one: "tree_view (clock_of k) (sy_table (kn_sys k)) p \<noteq> None" for p
    using tree_view_returns [OF f, of "clock_of k" p] by auto
  show ?thesis
  proof (cases args)
    case Nil
    with all assms show ?thesis by (auto simp: cmd_tree_def good_def)
  next
    case (Cons a rest)
    with one assms show ?thesis
      by (cases "py_int a") (auto simp: cmd_tree_def good_def raise_in_def)
  qed
qed

lemma read_commands_good:
  assumes "reachable k"
  shows "good (cmd_ps k)" "good (cmd_top k)" "good (cmd_cat args k)" "good (cmd_mem args k)" "good (cmd_bus k)" "good (cmd_quota k)"
    "good (cmd_batcher src k)" "good (cmd_dmesg args k)"
  using assms
  by (auto simp: cmd_ps_def cmd_top_def cmd_cat_def cmd_mem_def with_agent_def cmd_bus_def cmd_quota_def cmd_batcher_def cmd_dmesg_def
      Let_def intro!: good_say split: list.split sum.split option.split)

lemma run_command_good:
  assumes "reachable k" "cmd \<noteq> ''exit''" "cmd \<noteq> ''quit''" "run_command src cmd args k = Some r"
  shows "good r"
  using assms(4) assms(2,3) spawn_commands_good [OF assms(1)] kill_good [OF assms(1)] tree_good [OF assms(1)]
    read_commands_good [OF assms(1)] good_say [OF assms(1)]
  unfolding run_command_def by (auto split: if_splits)

definition leaves :: "string \<Rightarrow> bool" where
  "leaves line \<longleftrightarrow> (\<exists>args. shlex_split line = Inr (''exit'' # args) \<or> shlex_split line = Inr (''quit'' # args))"

lemma dispatch_spec:
  assumes "reachable k"
  shows "\<exists>k' outs. dispatch src line k = Some (k', outs, \<not> leaves line) \<and> reachable k'"
proof (cases "shlex_split line")
  case (Inl e)
  then show ?thesis using assms by (simp add: dispatch_def leaves_def)
next
  case (Inr ws)
  show ?thesis
  proof (cases ws)
    case Nil
    with Inr assms show ?thesis by (simp add: dispatch_def leaves_def)
  next
    case (Cons cmd args)
    show ?thesis
    proof (cases "cmd = ''exit'' \<or> cmd = ''quit''")
      case True
      with Inr Cons assms show ?thesis by (auto simp: dispatch_def leaves_def run_command_def)
    next
      case False
      then have stay: "\<not> leaves line" using Inr Cons by (simp add: leaves_def)
      show ?thesis
      proof (cases "run_command src cmd args k")
        case None
        with stay Inr Cons assms show ?thesis by (simp add: dispatch_def)
      next
        case (Some r)
        from run_command_good [OF assms _ _ Some] False have "good r" by blast
        with Some stay Inr Cons show ?thesis unfolding good_def by (auto simp: dispatch_def)
      qed
    qed
  qed
qed

text \<open>What the workers do between two lines is some run of the kernel.\<close>

definition kernel_activity :: "(kernel \<Rightarrow> kernel) \<Rightarrow> bool" where
  "kernel_activity f \<longleftrightarrow> (\<forall>k. kernel_runs k (f k))"

lemma activity_reachable: "kernel_activity f \<Longrightarrow> reachable k \<Longrightarrow> reachable (f k)"
  unfolding kernel_activity_def reachable_def kernel_runs_def by (meson rtranclp_trans)

lemma loop_spec:
  "\<forall>t \<in> set turns. kernel_activity (fst t) \<Longrightarrow> reachable k \<Longrightarrow>
     \<exists>k' outs. shell_loop src turns k = Some (k', outs) \<and> reachable k'"
proof (induction turns arbitrary: k)
  case (Cons t ts)
  obtain f raw where t: "t = (f, raw)" by force
  have r: "reachable (f k)" using Cons.prems t activity_reachable by auto
  obtain k1 o1 where d: "dispatch src raw (f k) = Some (k1, o1, \<not> leaves raw)" "reachable k1"
    using dispatch_spec [OF r] by blast
  from Cons.IH [of "f k"] Cons.IH [of k1] Cons.prems r d t show ?case by auto
qed simp

text \<open>Splitting a line of plain words.\<close>

definition plain_word :: "string \<Rightarrow> bool" where
  "plain_word w \<longleftrightarrow> w \<noteq> [] \<and> (\<forall>c \<in> set w. \<not> shlex_space c \<and> c \<notin> {CHR 0x27, CHR 0x22, CHR 0x5C})"

lemma lex_plain:
  "\<forall>c \<in> set w. \<not> shlex_space c \<and> c \<notin> {CHR 0x27, CHR 0x22, CHR 0x5C} \<Longrightarrow>
     lex L_word tok b (w @ rest) = lex L_word (tok @ w) b rest"
  by (induction w arbitrary: tok) auto

lemma lex_word:
  "plain_word w \<Longrightarrow> lex L_space [] False (w @ rest) = lex L_word w False rest"
  by (cases w) (auto simp: plain_word_def lex_plain)

lemma shlex_join: "\<forall>w \<in> set ws. plain_word w \<Longrightarrow> shlex_split (join_with '' '' ws) = Inr ws"
proof (induction ws)
  case (Cons x ws)
  show ?case
  proof (cases ws)
    case Nil
    with Cons.prems lex_word [of x "[]"] show ?thesis
      by (simp add: shlex_split_def emit_word_def andthen_def plain_word_def)
  next
    case (Cons y zs)
    have "shlex_split (x @ '' '' @ join_with '' '' (y # zs)) = emit_word x False (shlex_split (join_with '' '' (y # zs)))"
      using lex_word [of x "'' '' @ join_with '' '' (y # zs)"] Cons.prems
      by (simp add: shlex_split_def shlex_space_def)
    with Cons.prems Cons.IH Cons show ?thesis by (simp add: emit_word_def andthen_def plain_word_def)
  qed
qed (simp add: shlex_split_def emit_word_def)

section \<open>Properties\<close>



end
