(* ===== verification/Cli.thy ===== *)
theory Cli
  imports Shell
begin

text \<open>
  The command line (\<open>gcos/main.py\<close>): the declarations of the argument parser as data, and every
  subcommand as a function of its parsed arguments: the lines it prints, and its exit code or the
  exception that leaves it. \<open>argparse\<close> itself, the web server and the set-up of logging are not
  modelled.
\<close>

section \<open>The parser\<close>

datatype arg_kind = Positional | Str_option | Int_option | Float_option | Flag

datatype arg_default = No_default | Str_default string | Int_default int | Real_default real | False_default | None_default

record arg_spec =
  ag_name :: string
  ag_kind :: arg_kind
  ag_default :: arg_default
  ag_choices :: "string list"

definition arg :: "string \<Rightarrow> arg_kind \<Rightarrow> arg_default \<Rightarrow> string list \<Rightarrow> arg_spec" where
  "arg n kd d cs = \<lparr>ag_name = n, ag_kind = kd, ag_default = d, ag_choices = cs\<rparr>"

definition scheduler_choices :: "string list" where
  "scheduler_choices = [''fcfs'', ''priority'', ''rr'']"

definition build_parser :: "(string \<times> arg_spec list) list" where
  "build_parser =
     [(''spawn'',
       [arg ''prompt'' Positional No_default [], arg ''--name'' Str_option (Str_default ''anon'') [],
        arg ''--priority'' Int_option (Int_default 5) [], arg ''--timeout'' Float_option (Real_default 30) [],
        arg ''--quota'' Int_option (Int_default 10) [], arg ''--multi-step'' Flag False_default [],
        arg ''--max-steps'' Int_option (Int_default 8) []]),
      (''demo'',
       [arg ''--scheduler'' Str_option (Str_default ''fcfs'') scheduler_choices,
        arg ''--timeout'' Float_option (Real_default 30) [], arg ''--quota'' Int_option (Int_default 10) []]),
      (''shell'', []),
      (''pipeline'', [arg ''topic'' Positional No_default []]),
      (''coder'',
       [arg ''prompt'' Positional No_default [], arg ''--name'' Str_option (Str_default ''coder'') [],
        arg ''--priority'' Int_option (Int_default 5) [], arg ''--timeout'' Float_option (Real_default 30) [],
        arg ''--quota'' Int_option (Int_default 3) [],
        arg ''--sandbox'' Str_option None_default [''auto'', ''docker'', ''subprocess'']]),
      (''serve'',
       [arg ''--host'' Str_option (Str_default ''127.0.0.1'') [], arg ''--port'' Int_option (Int_default 8000) [],
        arg ''--scheduler'' Str_option (Str_default ''fcfs'') scheduler_choices,
        arg ''--workers'' Int_option (Int_default 4) [], arg ''--quota-total'' Int_option (Int_default 100) []])]"

section \<open>One agent\<close>

record agent_opts =
  op_prompt :: string
  op_name :: string
  op_priority :: int
  op_timeout :: real
  op_quota :: int

text \<open>What a command prints on the two streams.\<close>

record printed =
  pd_out :: "string list"
  pd_err :: "string list"

definition cli_agent :: "agent_opts \<Rightarrow> capability_set \<Rightarrow> pid \<Rightarrow> time \<Rightarrow> agent" where
  "cli_agent o' cap p now =
     (new_agent p (op_name o') (op_prompt o') now)
       \<lparr>acb_priority := op_priority o', acb_timeout_s := op_timeout o', acb_quota_remaining := op_quota o',
        acb_capability := cap\<rparr>"

definition text_or_empty :: "string option \<Rightarrow> string" where
  "text_or_empty t = (case t of None \<Rightarrow> [] | Some s \<Rightarrow> s)"

definition spawned_line :: "agent \<Rightarrow> string \<Rightarrow> string" where
  "spawned_line a kind =
     ''[gcos] spawned pid='' @ show_int (acb_pid a) @ '' name='' @ acb_name a @ '' prio='' @ show_int (acb_priority a)
       @ '' ('' @ kind @ '')''"

definition usage_text :: "time \<Rightarrow> agent \<Rightarrow> string" where
  "usage_text now a =
     '' tokens='' @ show_int (acb_tokens_used a) @ '' wall='' @ fmt_fixed 2 (wall_time now a) @ ''s''"

definition error_line :: "agent \<Rightarrow> string" where
  "error_line a = ''[gcos] error: '' @ text_or_empty (acb_error a)"

text \<open>\<open>cmd_spawn\<close>: the printed lines, and the exit code or the exception of \<open>run_agent\<close>.\<close>

definition cli_spawn ::
  "env \<Rightarrow> agent_opts \<Rightarrow> bool \<Rightarrow> int \<Rightarrow> pid_allocator \<Rightarrow> world
     \<Rightarrow> (printed \<times> (py_exc + int)) \<times> agent \<times> world \<times> pid_allocator" where
  "cli_spawn env o' multi max_steps pids w =
     (let cap = (if multi then cap_agent max_steps else cap_default_user);
          (p, pids') = pid_next pids;
          a = cli_agent o' cap p (now_of w);
          kind = (if multi then ''multi-step ReAct'' else ''single-shot'');
          (st, err) = run_agent env (a, tick w);
          a' = fst st; now = now_of (snd st);
          line = ''[gcos] pid='' @ show_int (acb_pid a') @ '' state='' @ state_value (acb_state a')
                   @ '' calls='' @ show_int (acb_llm_calls_used a') @ usage_text now a'
      in (case err of
            Some e \<Rightarrow> (\<lparr>pd_out = [spawned_line a kind], pd_err = []\<rparr>, Inl e)
          | None \<Rightarrow>
              if non_empty (acb_error a')
              then (\<lparr>pd_out = [spawned_line a kind, line], pd_err = [error_line a']\<rparr>, Inr 1)
              else (\<lparr>pd_out = [spawned_line a kind, line, ''--- result ---'', text_or_empty (acb_result a')],
                     pd_err = []\<rparr>, Inr 0),
          a', snd st, pids'))"

text \<open>\<open>cmd_coder\<close>; \<open>sandbox\<close> is the option, which overrides the environment variable.\<close>

definition sandbox_variable :: "string option \<Rightarrow> string option \<Rightarrow> string option" where
  "sandbox_variable sandbox old = (if non_empty sandbox then sandbox else old)"

definition cli_coder ::
  "env \<Rightarrow> agent_opts \<Rightarrow> string option \<Rightarrow> pid_allocator \<Rightarrow> world
     \<Rightarrow> (printed \<times> (py_exc + int)) \<times> agent \<times> world \<times> pid_allocator" where
  "cli_coder env o' sandbox pids w =
     (let (p, pids') = pid_next pids;
          a = cli_agent o' cap_coder p (now_of w);
          (st, err) = run_agent env (a, tick w);
          a' = fst st;
          head_line = ''[gcos] spawned coder pid='' @ show_int p @ '' sandbox=''
                        @ (if non_empty sandbox then the sandbox else ''auto'');
          line = ''[gcos] pid='' @ show_int (acb_pid a') @ '' state='' @ state_value (acb_state a')
                   @ usage_text (now_of (snd st)) a'
      in (case err of
            Some e \<Rightarrow> (\<lparr>pd_out = [head_line], pd_err = []\<rparr>, Inl e)
          | None \<Rightarrow>
              (\<lparr>pd_out = [head_line, line, ''--- result ---'', text_or_empty (acb_result a')],
                 pd_err = (if non_empty (acb_error a') then [error_line a'] else [])\<rparr>,
               Inr (if state_value (acb_state a') = ''DONE'' then 0 else 1)),
          a', snd st, pids'))"

section \<open>The demonstration of a scheduler\<close>

definition demo_samples :: "(string \<times> int \<times> string) list" where
  "demo_samples =
     [(''low'', 2, ''Say 'low priority done' and nothing else.''),
      (''high'', 9, ''Say 'high priority done' and nothing else.''),
      (''mid'', 5, ''Say 'mid priority done' and nothing else.'')]"

record demo_state =
  dm_pids :: pid_allocator
  dm_table :: ptable
  dm_queue :: ready_queue
  dm_world :: world

definition demo_put :: "real \<Rightarrow> int \<Rightarrow> string \<times> int \<times> string \<Rightarrow> demo_state \<Rightarrow> demo_state" where
  "demo_put timeout quota sample s =
     (let (name, prio, prompt) = sample;
          (p, pids') = pid_next (dm_pids s);
          a = (new_agent p name prompt (now_of (dm_world s)))
                \<lparr>acb_priority := prio, acb_timeout_s := timeout, acb_quota_remaining := quota\<rparr>;
          w1 = tick (dm_world s);
          (ok, t, q) = rq_put (now_of w1) p (obj_write p a (dm_table s), dm_queue s)
      in \<lparr>dm_pids = pids', dm_table = t, dm_queue = q, dm_world = tick w1\<rparr>)"

lemma pick_shrinks:
  assumes "(Some p, q') = pick_next sched t now q"
  shows "length (rq_q q') < length (rq_q q)" "p \<in> set (rq_q q)" "rq_q q' = remove1 p (rq_q q)"
proof -
  have ne: "rq_q q \<noteq> []" using assms pick_next_empty by fastforce
  from pick_next_nonempty [OF ne, of sched t now] assms show
    p: "p \<in> set (rq_q q)" and q': "rq_q q' = remove1 p (rq_q q)" by auto
  show "length (rq_q q') < length (rq_q q)" unfolding q' using length_remove1_mem [OF p] by simp
qed

text \<open>The loop of \<open>cmd_demo\<close>: each pick takes an agent off the queue, and none is put back.\<close>

function demo_loop ::
  "env \<Rightarrow> scheduler \<Rightarrow> ptable \<Rightarrow> ready_queue \<Rightarrow> world \<Rightarrow> string list \<Rightarrow> (py_exc + string list) \<times> ptable \<times> world" where
  "demo_loop env sched t q w order =
     (case pick_next sched t (now_of w) q of
        (None, q') \<Rightarrow> (Inr order, t, w)
      | (Some p, q') \<Rightarrow>
          (case pt_objs t p of
             None \<Rightarrow> (Inr order, t, w)
           | Some a \<Rightarrow>
               (case run_agent env (a, tick w) of
                  (st, Some e) \<Rightarrow> (Inl e, obj_write p (fst st) t, snd st)
                | (st, None) \<Rightarrow>
                    demo_loop env sched (obj_write p (fst st) t) q' (snd st) (order @ [acb_name (fst st)]))))"
  by pat_completeness auto
termination
  by (relation "measure (\<lambda>(env, sched, t, q, w, order). length (rq_q q))") (auto dest: pick_shrinks)

declare demo_loop.simps [simp del]

definition cli_demo ::
  "env \<Rightarrow> string \<Rightarrow> real \<Rightarrow> int \<Rightarrow> pid_allocator \<Rightarrow> world \<Rightarrow> (py_exc + string list \<times> int) \<times> ptable" where
  "cli_demo env scheduler timeout quota pids w =
     (case make_scheduler scheduler of
        Inl e \<Rightarrow> (Inl e, table_init)
      | Inr sched \<Rightarrow>
          let s = fold (demo_put timeout quota) demo_samples
                    \<lparr>dm_pids = pids, dm_table = table_init, dm_queue = rq_init, dm_world = w\<rparr>;
              (r, t, w') = demo_loop env sched (dm_table s) (dm_queue s) (dm_world s) []
          in (case r of Inl e \<Rightarrow> Inl e | Inr order \<Rightarrow> Inr (order, 0), t))"

section \<open>The pipeline\<close>

definition pipeline_config :: kernel_config where
  "pipeline_config = kernel_config_default\<lparr>kc_scheduler := ''fcfs'', kc_workers := 2, kc_quota_total := 20\<rparr>"

definition pipe_args :: "string \<Rightarrow> string \<Rightarrow> pid option \<Rightarrow> pid option \<Rightarrow> spawn_args" where
  "pipe_args prompt name to from_pid =
     \<lparr>sa_prompt = prompt, sa_name = name, sa_priority = 5, sa_timeout_s = None, sa_quota = None,
      sa_capability = None, sa_parent_pid = None, sa_pipe_to = to, sa_input_from = from_pid\<rparr>"

definition research_prompt :: "string \<Rightarrow> string" where
  "research_prompt topic =
     ''Give 3 short interesting facts about '' @ topic @ '', one per line. No numbering. No explanations.''"

definition writer_prompt :: string where
  "writer_prompt =
     ''Turn the following 3 facts into a single haiku (5-7-5 syllables). Facts:'' @ [nl] @ ''{INPUT}'' @ [nl]
       @ ''Reply with only the haiku.''"

text \<open>
  The part of \<open>cmd_pipeline\<close> up to the wait: both agents spawned, or the exception of a spawn, or
  the failed assertion.
\<close>

definition pipeline_setup :: "string \<Rightarrow> kernel \<Rightarrow> kernel \<times> (py_exc + pid \<times> pid)" where
  "pipeline_setup topic k =
     (let producer_pid = fst (pid_peek (kn_pids k));
          consumer_pid = producer_pid + 1;
          (k1, r1) = spawn (pipe_args (research_prompt topic) ''researcher'' (Some consumer_pid) None) k
      in case r1 of
           Inl e \<Rightarrow> (k1, Inl e)
         | Inr producer \<Rightarrow>
             let (k2, r2) = spawn (pipe_args writer_prompt ''writer'' None (Some producer_pid)) k1
             in case r2 of
                  Inl e \<Rightarrow> (k2, Inl e)
                | Inr consumer \<Rightarrow>
                    if producer = producer_pid \<and> consumer = consumer_pid then (k2, Inr (producer, consumer))
                    else (k2, Inl (OtherExc ''AssertionError'' [])))"

text \<open>The report of one agent; \<open>None\<close>: it is gone and the attribute access raises.\<close>

definition pipeline_lines :: "kernel \<Rightarrow> pid \<Rightarrow> string list option" where
  "pipeline_lines k p =
     (case kernel_get p k of
        None \<Rightarrow> None
      | Some a \<Rightarrow>
          Some [nl # ''--- pid='' @ show_int p @ '' name='' @ acb_name a @ '' state='' @ state_value (acb_state a)
                  @ usage_text (clock_of k) a @ '' ---'',
                str_strip (first_text (acb_result a) (acb_error a))])"

text \<open>
  The rest of it: \<open>idle\<close> is whether the wait saw an idle kernel, \<open>k\<close> the kernel after
  the wait. The kernel is shut down in every case.
\<close>

definition pipeline_finish ::
  "bool \<Rightarrow> pid \<Rightarrow> pid \<Rightarrow> kernel \<Rightarrow> kernel \<times> (py_exc + string list \<times> int)" where
  "pipeline_finish idle producer consumer k =
     (kernel_shutdown k,
      if \<not> idle then Inr ([''[gcos] timeout waiting for idle''], 1)
      else case (pipeline_lines k producer, pipeline_lines k consumer) of
             (Some xs, Some ys) \<Rightarrow> Inr (xs @ ys, 0)
           | _ \<Rightarrow> Inl (OtherExc ''AttributeError'' ''NoneType''))"

section \<open>The server\<close>

definition serve_config :: "string \<Rightarrow> int \<Rightarrow> int \<Rightarrow> kernel_config" where
  "serve_config scheduler workers quota_total =
     kernel_config_default\<lparr>kc_scheduler := scheduler, kc_workers := workers, kc_quota_total := quota_total\<rparr>"

definition cli_serve :: "string \<Rightarrow> int \<Rightarrow> string \<Rightarrow> int \<Rightarrow> int \<Rightarrow> world \<Rightarrow> py_logger \<Rightarrow> cg_fs \<Rightarrow> py_exc + kernel \<times> string" where
  "cli_serve host port scheduler workers quota_total w logger fs =
     andthen (kernel_init (serve_config scheduler workers quota_total) w logger fs) (\<lambda>k.
       Inr (k, ''[gcos] serving on http://'' @ host @ '':'' @ show_int port @ ''  (scheduler='' @ scheduler
               @ '', workers='' @ show_int workers @ '', quota='' @ show_int quota_total @ '')''))"

section \<open>Lemmas\<close>

lemma run_steps_name:
  assumes "\<And>st. step_ok st (f st)"
  shows "acb_name (fst (fst (run_steps f n st))) = acb_name (fst st)"
proof (induction n arbitrary: st)
  case (Suc n)
  have "acb_name (fst (fst (f st))) = acb_name (fst st)"
    using assms [of st] by (simp add: step_ok_def step_frame_def Let_def)
  with Suc.IH [of "fst (f st)"] show ?case by (auto split: sum.split)
qed simp

lemma run_agent_frame:
  assumes "run_agent env st = (st', err)"
  shows "acb_name (fst st') = acb_name (fst st)"
    and "err = None \<Longrightarrow> \<not> multi_step (acb_capability (fst st)) \<Longrightarrow> is_terminal (fst st')"
proof -
  show "acb_name (fst st') = acb_name (fst st)"
  proof (cases "client_or_solar env")
    case (Inr c)
    with assms run_steps_name [of "run_step (with_client c env)" step_safety st, OF run_step_ok] show ?thesis
      by (simp add: run_agent_def)
  qed (use assms in \<open>auto simp: run_agent_def\<close>)
  assume e: "err = None" "\<not> multi_step (acb_capability (fst st))"
  with assms obtain c where "run_steps (run_step (with_client c env)) (Suc 31) st = (st', None)"
    by (auto simp: run_agent_def step_safety_def split: sum.splits)
  with e show "is_terminal (fst st')" by (intro run_steps_single_terminal [of st "with_client c env" 31]) simp_all
qed

definition name_of :: "ptable \<Rightarrow> pid \<Rightarrow> string" where
  "name_of t p = acb_name (the (pt_objs t p))"

text \<open>What a queue of single-step agents is ready for.\<close>

definition demo_ready :: "ptable \<Rightarrow> ready_queue \<Rightarrow> bool" where
  "demo_ready t q \<longleftrightarrow> distinct (rq_q q)
     \<and> (\<forall>p \<in> set (rq_q q). \<exists>a. pt_objs t p = Some a \<and> \<not> multi_step (acb_capability a))"

lemma demo_loop_spec:
  assumes "demo_loop env sched t q w order = (Inr order', t', w')" and "demo_ready t q"
  shows "mset order' = mset order + mset (map (name_of t) (rq_q q))
    \<and> ((\<forall>r m. sched \<noteq> Priority r m) \<longrightarrow> order' = order @ map (name_of t) (rq_q q))
    \<and> (\<forall>p \<in> set (rq_q q). \<exists>a. pt_objs t' p = Some a \<and> is_terminal a)
    \<and> (\<forall>p. p \<notin> set (rq_q q) \<longrightarrow> pt_objs t' p = pt_objs t p)"
  using assms
proof (induction env sched t q w order arbitrary: order' t' w' rule: demo_loop.induct)
  case (1 env sched t q w order)
  show ?case
  proof (cases "rq_q q = []")
    case True
    with "1.prems"(1) show ?thesis by (simp add: demo_loop.simps [of env sched t q] pick_next_empty)
  next
    case False
    then obtain p q' where pick: "pick_next sched t (now_of w) q = (Some p, q')"
      using pick_next_nonempty [OF False, of sched t "now_of w"] by blast
    note sh = pick_shrinks [OF pick [symmetric]]
    obtain a where a: "pt_objs t p = Some a" "\<not> multi_step (acb_capability a)"
      using "1.prems"(2) sh(2) by (auto simp: demo_ready_def)
    obtain st err where run: "run_agent env (a, tick w) = (st, err)" by (metis surj_pair)
    have none: "err = None" and rest: "demo_loop env sched (obj_write p (fst st) t) q' (snd st) (order @ [acb_name (fst st)])
        = (Inr order', t', w')"
      using "1.prems"(1) pick a run by (auto simp: demo_loop.simps [of env sched t q] split: option.splits)
    note fr = run_agent_frame [OF run]
    let ?t = "obj_write p (fst st) t"
    have dist: "distinct (rq_q q)" using "1.prems"(2) by (simp add: demo_ready_def)
    then have set': "set (rq_q q') = set (rq_q q) - {p}" unfolding sh(3) by simp
    have ready: "demo_ready ?t q'"
      using "1.prems"(2) set' sh(3) by (auto simp: demo_ready_def)
    have names: "map (name_of ?t) (rq_q q') = map (name_of t) (rq_q q')"
      using set' by (intro map_cong) (auto simp: name_of_def)
    have ih: "mset order' = mset (order @ [acb_name (fst st)]) + mset (map (name_of t) (rq_q q'))
      \<and> ((\<forall>r m. sched \<noteq> Priority r m) \<longrightarrow> order' = (order @ [acb_name (fst st)]) @ map (name_of t) (rq_q q'))
      \<and> (\<forall>p \<in> set (rq_q q'). \<exists>a. pt_objs t' p = Some a \<and> is_terminal a)
      \<and> (\<forall>j. j \<notin> set (rq_q q') \<longrightarrow> pt_objs t' j = pt_objs ?t j)"
      using "1.IH" [OF pick [symmetric] refl a(1) run [symmetric] _ rest ready] none unfolding names by blast
    have nm: "acb_name (fst st) = name_of t p" using fr(1) a(1) by (simp add: name_of_def)
    have ended: "is_terminal (fst st)" using fr(2) none a(2) by simp
    have whole: "mset (map (name_of t) (rq_q q)) = add_mset (name_of t p) (mset (map (name_of t) (rq_q q')))"
      using sh(2) unfolding sh(3) mset_map by (metis image_mset_add_mset insert_DiffM mset_remove1 set_mset_mset)
    have fifo: "map (name_of t) (rq_q q) = name_of t p # map (name_of t) (rq_q q')" if "\<forall>r m. sched \<noteq> Priority r m"
      using that pick by (cases sched) (auto simp: rq_popleft_def split: list.splits)
    show ?thesis
      using ih nm ended whole fifo set' sh(2) by auto
  qed
qed

definition demo_setup :: "real \<Rightarrow> int \<Rightarrow> pid_allocator \<Rightarrow> world \<Rightarrow> demo_state" where
  "demo_setup timeout quota pids w =
     fold (demo_put timeout quota) demo_samples
       \<lparr>dm_pids = pids, dm_table = table_init, dm_queue = rq_init, dm_world = w\<rparr>"

lemma demo_put_simps:
  assumes "demo_put timeout quota (name, prio, prompt) s = s'"
  shows "pa_counter (dm_pids s') = pa_counter (dm_pids s) + 1"
    and "rq_q (dm_queue s') = rq_q (dm_queue s) @ [pa_counter (dm_pids s)]"
    and "\<exists>a. pt_objs (dm_table s') = (pt_objs (dm_table s))(pa_counter (dm_pids s) \<mapsto> a)
           \<and> acb_name a = name \<and> acb_capability a = cap_default_user"
proof -
  have new: "\<not> is_terminal ((new_agent p name prompt now)\<lparr>acb_priority := prio, acb_timeout_s := timeout,
      acb_quota_remaining := quota\<rparr>)" for p now
    by (simp add: new_agent_def is_terminal_def terminal_def terminal_states_def)
  show "pa_counter (dm_pids s') = pa_counter (dm_pids s) + 1"
    "rq_q (dm_queue s') = rq_q (dm_queue s) @ [pa_counter (dm_pids s)]"
    "\<exists>a. pt_objs (dm_table s') = (pt_objs (dm_table s))(pa_counter (dm_pids s) \<mapsto> a)
           \<and> acb_name a = name \<and> acb_capability a = cap_default_user"
    using assms new
    by (auto simp: demo_put_def pid_next_def rq_put_def obj_write_def Let_def new_agent_def)
qed

lemma demo_setup_spec:
  fixes timeout quota pids w
  defines "s \<equiv> demo_setup timeout quota pids w" and "c \<equiv> pa_counter pids"
  shows "rq_q (dm_queue s) = [c, c + 1, c + 2]" "demo_ready (dm_table s) (dm_queue s)"
    and "map (name_of (dm_table s)) (rq_q (dm_queue s)) = [''low'', ''high'', ''mid'']"
proof -
  define s0 where "s0 = \<lparr>dm_pids = pids, dm_table = table_init, dm_queue = rq_init, dm_world = w\<rparr>"
  define s1 where "s1 = demo_put timeout quota (demo_samples ! 0) s0"
  define s2 where "s2 = demo_put timeout quota (demo_samples ! 1) s1"
  define s3 where "s3 = demo_put timeout quota (demo_samples ! 2) s2"
  have s: "s = s3" by (simp add: s_def demo_setup_def s3_def s2_def s1_def s0_def demo_samples_def)
  obtain x1 x2 x3 where x: "demo_samples ! 0 = (''low'', 2, x1)" "demo_samples ! 1 = (''high'', 9, x2)"
    "demo_samples ! 2 = (''mid'', 5, x3)" by (simp add: demo_samples_def)
  note d1 = demo_put_simps [OF s1_def [unfolded x(1), symmetric]]
    and d2 = demo_put_simps [OF s2_def [unfolded x(2), symmetric]]
    and d3 = demo_put_simps [OF s3_def [unfolded x(3), symmetric]]
  have z: "pa_counter (dm_pids s0) = c" "rq_q (dm_queue s0) = []" by (simp_all add: s0_def c_def rq_init_def)
  have p1: "pa_counter (dm_pids s1) = c + 1" "rq_q (dm_queue s1) = [c]"
    "\<exists>a. pt_objs (dm_table s1) c = Some a \<and> acb_name a = ''low'' \<and> acb_capability a = cap_default_user"
    using d1 z by auto
  have p2: "pa_counter (dm_pids s2) = c + 2" "rq_q (dm_queue s2) = [c, c + 1]"
    "\<exists>a. pt_objs (dm_table s2) = (pt_objs (dm_table s1))(c + 1 \<mapsto> a) \<and> acb_name a = ''high'' \<and> acb_capability a = cap_default_user"
    using d2 p1 by auto
  have p3: "rq_q (dm_queue s3) = [c, c + 1, c + 2]"
    "\<exists>a. pt_objs (dm_table s3) = (pt_objs (dm_table s2))(c + 2 \<mapsto> a) \<and> acb_name a = ''mid'' \<and> acb_capability a = cap_default_user"
    using d3 p2 by auto
  from p1(3) p2(3) p3(2) obtain a1 a2 a3 where a: "pt_objs (dm_table s3) c = Some a1"
    "pt_objs (dm_table s3) (c + 1) = Some a2" "pt_objs (dm_table s3) (c + 2) = Some a3"
    "acb_name a1 = ''low''" "acb_name a2 = ''high''" "acb_name a3 = ''mid''"
    "acb_capability a1 = cap_default_user" "acb_capability a2 = cap_default_user" "acb_capability a3 = cap_default_user"
    by auto
  show "rq_q (dm_queue s) = [c, c + 1, c + 2]" using p3 s by simp
  then show "demo_ready (dm_table s) (dm_queue s)"
    "map (name_of (dm_table s)) (rq_q (dm_queue s)) = [''low'', ''high'', ''mid'']"
    using a by (auto simp: s demo_ready_def name_of_def cap_default_user_def)
qed

section \<open>Properties\<close>

text \<open>
  The demonstration of a scheduler runs each of its three agents exactly once, whatever the
  scheduler, the clock and the answers of the model: it ends, unless a step raises, with exit
  code 0 and every agent terminal; first-come-first-served and round robin run them in the
  order of creation.
\<close>

theorem demo_runs_each_once:
  assumes "cli_demo env scheduler timeout quota pids w = (Inr (order, code), t)"
  shows "code = 0 \<and> mset order = {#''low'', ''high'', ''mid''#}
    \<and> (scheduler \<noteq> ''priority'' \<longrightarrow> order = [''low'', ''high'', ''mid''])
    \<and> (\<forall>i \<in> {0, 1, 2}. \<exists>a. pt_objs t (pa_counter pids + i) = Some a \<and> is_terminal a)"
proof -
  let ?s = "demo_setup timeout quota pids w"
  from assms obtain sched where sched: "make_scheduler scheduler = Inr sched"
    by (auto simp: cli_demo_def split: sum.splits)
  obtain r t' w' where l: "demo_loop env sched (dm_table ?s) (dm_queue ?s) (dm_world ?s) [] = (r, t', w')"
    by (metis prod_cases3)
  with assms sched have r: "r = Inr order" "code = 0" "t' = t"
    by (auto simp: cli_demo_def demo_setup_def Let_def split: sum.splits)
  have fifo: "\<forall>a b. sched \<noteq> Priority a b" if "scheduler \<noteq> ''priority''"
    using that sched by (auto simp: make_scheduler_def round_robin_init_def split: if_splits)
  note spec = demo_loop_spec [OF l [unfolded r(1)] demo_setup_spec(2)]
  show ?thesis
    using spec fifo r demo_setup_spec(1,3) [of timeout quota pids w] by simp
qed

text \<open>
  The pipeline is wired before anything runs: on a reachable kernel the two PIDs are the ones
  peeked at, so the assertion holds; the producer pipes to the consumer and the consumer names
  the producer as its input; both are ready at the end of the queue, in this order. The exit
  code is 1 exactly when the wait timed out, and the kernel is shut down in any case.
\<close>

theorem pipeline_is_wired:
  assumes "reachable k"
  shows "\<exists>k' a b. pipeline_setup topic k = (k', Inr (pa_counter (kn_pids k), pa_counter (kn_pids k) + 1)) \<and> reachable k'
    \<and> agent_at (kn_sys k') (pa_counter (kn_pids k)) = Some a \<and> acb_pipe_to a = Some (pa_counter (kn_pids k) + 1)
    \<and> kernel_get (pa_counter (kn_pids k) + 1) k' = Some b \<and> acb_input_from b = Some (pa_counter (kn_pids k))
    \<and> rq_q (sy_queue (kn_sys k')) = rq_q (sy_queue (kn_sys k)) @ [pa_counter (kn_pids k), pa_counter (kn_pids k) + 1]
    \<and> (\<forall>out. snd (pipeline_finish idle p c k2) = Inr (out, 1) \<longleftrightarrow> \<not> idle \<and> out = [''[gcos] timeout waiting for idle''])
    \<and> \<not> kn_started (fst (pipeline_finish idle p c k2))"
proof -
  let ?p = "pa_counter (kn_pids k)"
  let ?r1 = "pipe_args (research_prompt topic) ''researcher'' (Some (?p + 1)) None"
  let ?r2 = "pipe_args writer_prompt ''writer'' None (Some ?p)"
  have par: "sa_parent_pid ?r1 = None" "sa_parent_pid ?r2 = None" by (simp_all add: pipe_args_def)
  from spawn_spec [OF reachable_inv [OF assms], of ?r1] par obtain k1 a where
    s1: "spawn ?r1 k = (k1, Inr ?p)" "kernel_get ?p k1 = Some a" "acb_children a = []"
      "a\<lparr>acb_state := NEW, acb_children := []\<rparr> = spawn_agent k ?r1 ?p (now_of (sy_world (kn_sys k)))"
      "rq_q (sy_queue (kn_sys k1)) = rq_q (sy_queue (kn_sys k)) @ [?p]" by auto
  have r1: "reachable k1" using reachable_step [OF assms call_spawn [of ?r1 k]] s1(1) par by simp
  have c1: "pa_counter (kn_pids k1) = ?p + 1" using spawn_keeps(4) [of ?r1 k] s1(1) by simp
  from spawn_spec [OF reachable_inv [OF r1], of ?r2] par c1 obtain k2 b where
    s2: "spawn ?r2 k1 = (k2, Inr (?p + 1))" "kernel_get (?p + 1) k2 = Some b" "acb_children b = []"
      "b\<lparr>acb_state := NEW, acb_children := []\<rparr> = spawn_agent k1 ?r2 (?p + 1) (now_of (sy_world (kn_sys k1)))"
      "rq_q (sy_queue (kn_sys k2)) = rq_q (sy_queue (kn_sys k1)) @ [?p + 1]"
      "\<forall>q b. agent_at (kn_sys k1) q = Some b \<longrightarrow> agent_at (kn_sys k2) q = Some b" by auto
  have r2: "reachable k2" using reachable_step [OF r1 call_spawn [of ?r2 k1]] s2(1) par by simp
  have "acb_pipe_to a = Some (?p + 1)" using arg_cong [OF s1(4), of acb_pipe_to]
    by (simp add: spawn_agent_def pipe_args_def)
  moreover have "acb_input_from b = Some ?p" using arg_cong [OF s2(4), of acb_input_from]
    by (simp add: spawn_agent_def pipe_args_def)
  moreover have "agent_at (kn_sys k1) ?p = Some a" using s1(2) by (auto simp: kernel_get_def agent_at_def dest: table_getD)
  then have "agent_at (kn_sys k2) ?p = Some a" using s2(6) by blast
  moreover have "pipeline_setup topic k = (k2, Inr (?p, ?p + 1))"
    using s1(1) s2(1) by (simp add: pipeline_setup_def Let_def)
  moreover have "snd (pipeline_finish idle p c k3) = Inr (out, 1) \<longleftrightarrow> \<not> idle \<and> out = [''[gcos] timeout waiting for idle'']"
    for out k3 by (auto simp: pipeline_finish_def split: option.splits)
  moreover have "\<not> kn_started (fst (pipeline_finish idle p c k3))" for k3
    by (simp add: pipeline_finish_def kernel_shutdown_def Let_def)
  ultimately show ?thesis using s1(5) s2(2,5) r2 by auto
qed

theorem pipeline_is_wired_witness:
  "\<exists>k'. pipeline_setup ''bees'' demo_family = (k', Inr (3, 4)) \<and> rq_q (sy_queue (kn_sys k')) = [1, 2, 3, 4]"
proof -
  have c: "pa_counter (kn_pids demo_family) = 3" "rq_q (sy_queue (kn_sys demo_family)) = [1, 2]" by code_simp+
  from pipeline_is_wired [OF demo_family_reachable, of "''bees''" True 3 4 demo_family] c show ?thesis by auto
qed

end
