(* ===== verification/Ebpf.thy ===== *)
theory Ebpf
  imports Py_Text "HOL-Library.Word" "HOL-Library.AList"
begin

text \<open>
  The kernel-side observer (\<open>gcos/osprims/ebpf\<close>): the BPF program that the kernel runs at
  every context switch (\<open>gcos_sched.bpf.c\<close>), the loader and reader in Python
  (\<open>__init__.py\<close>), and the probe for the sched_ext scheduler (\<open>scx.py\<close>). PIDs and
  times are words of the widths of the C program, so its counters wrap around. The host and the
  compiler of BPF programs are parameters.
\<close>

section \<open>The BPF program\<close>

type_synonym u32 = "32 word"

type_synonym u64 = "64 word"

text \<open>A hash map of the kernel: a new key is refused when the map is full.\<close>

type_synonym bpf_hash = "(u32 \<times> u64) list"

definition hash_update :: "nat \<Rightarrow> u32 \<Rightarrow> u64 \<Rightarrow> bpf_hash \<Rightarrow> bpf_hash" where
  "hash_update cap k v m = (if map_of m k \<noteq> None \<or> length m < cap then AList.update k v m else m)"

text \<open>\<open>lookup_or_init\<close> followed by \<open>if (acc) *acc += delta\<close>.\<close>

definition hash_add :: "nat \<Rightarrow> u32 \<Rightarrow> u64 \<Rightarrow> bpf_hash \<Rightarrow> bpf_hash" where
  "hash_add cap k delta m =
     (let m1 = (case map_of m k of None \<Rightarrow> hash_update cap k 0 m | Some acc \<Rightarrow> m)
      in case map_of m1 k of None \<Rightarrow> m1 | Some acc \<Rightarrow> AList.update k (acc + delta) m1)"

record bpf_maps =
  bm_oncpu_ns :: bpf_hash
  bm_switches :: bpf_hash
  bm_last_in :: bpf_hash

definition no_data :: bpf_maps where
  "no_data = \<lparr>bm_oncpu_ns = [], bm_switches = [], bm_last_in = []\<rparr>"

text \<open>A context switch: the time, the task that goes off the CPU and the one that comes on.\<close>

record switch =
  sw_ts :: u64
  sw_prev :: u32
  sw_next :: u32

definition sched_switch :: "nat \<Rightarrow> switch \<Rightarrow> bpf_maps \<Rightarrow> bpf_maps" where
  "sched_switch cap e m =
     (let m1 = (case map_of (bm_last_in m) (sw_prev e) of
                  None \<Rightarrow> m
                | Some t \<Rightarrow> m\<lparr>bm_oncpu_ns := hash_add cap (sw_prev e) (sw_ts e - t) (bm_oncpu_ns m)\<rparr>);
          m2 = m1\<lparr>bm_last_in := hash_update cap (sw_next e) (sw_ts e) (bm_last_in m1)\<rparr>
      in m2\<lparr>bm_switches := hash_add cap (sw_next e) 1 (bm_switches m2)\<rparr>)"

section \<open>The observer\<close>

text \<open>
  The host as the loader sees it: file system calls act on a state \<open>'h\<close>; a directory that
  cannot be made is \<open>None\<close>.
\<close>

record 'h bpf_host =
  bh_platform :: string
  bh_importable :: "string \<Rightarrow> bool"
  bh_euid :: "int option"
  bh_release :: string
  bh_exists :: "'h \<Rightarrow> string \<Rightarrow> bool"
  bh_libc :: bool
  bh_makedirs :: "string \<Rightarrow> 'h \<Rightarrow> 'h option"
  bh_mount :: "string \<Rightarrow> string \<Rightarrow> string \<Rightarrow> 'h \<Rightarrow> 'h"

definition tracefs_formats :: "string list" where
  "tracefs_formats =
     [''/sys/kernel/debug/tracing/events/sched/sched_switch/format'',
      ''/sys/kernel/tracing/events/sched/sched_switch/format'']"

definition tracefs_ready :: "'h bpf_host \<Rightarrow> 'h \<Rightarrow> bool" where
  "tracefs_ready host h = list_ex (bh_exists host h) tracefs_formats"

definition mount_fs :: "'h bpf_host \<Rightarrow> string \<times> string \<Rightarrow> 'h \<Rightarrow> 'h" where
  "mount_fs host st h =
     (case bh_makedirs host (snd st) h of None \<Rightarrow> h | Some h1 \<Rightarrow> bh_mount host (fst st) (snd st) (fst st) h1)"

definition ensure_tracefs :: "'h bpf_host \<Rightarrow> 'h \<Rightarrow> bool \<times> 'h" where
  "ensure_tracefs host h =
     (if tracefs_ready host h then (True, h)
      else let h1 = (if bh_libc host
                     then fold (mount_fs host)
                            [(''debugfs'', ''/sys/kernel/debug''), (''tracefs'', ''/sys/kernel/tracing'')] h
                     else h)
           in (tracefs_ready host h1, h1))"

definition headers_found :: "'h bpf_host \<Rightarrow> 'h \<Rightarrow> bool" where
  "headers_found host h \<longleftrightarrow>
     bh_exists host h (''/lib/modules/'' @ bh_release host @ ''/build'')
     \<or> bh_exists host h (''/usr/src/linux-headers-'' @ bh_release host)"

definition ebpf_reason :: "'h bpf_host \<Rightarrow> 'h \<Rightarrow> string option \<times> 'h" where
  "ebpf_reason host h =
     (if \<not> starts_with ''linux'' (bh_platform host)
      then (Some (''not Linux (platform='' @ bh_platform host @ ''); eBPF is Linux-only''), h)
      else if \<not> bh_importable host ''bcc''
      then (Some ''bcc/libbpf python binding not installed (pip install bcc / apt bpfcc-tools)'', h)
      else if bh_euid host \<noteq> None \<and> bh_euid host \<noteq> Some 0
      then (Some ''not privileged (loading BPF needs root / CAP_BPF+CAP_PERFMON)'', h)
      else let (ready, h1) = ensure_tracefs host h
           in if \<not> ready
              then (Some (''tracefs/debugfs not mounted (bcc needs the sched_switch format); ''
                          @ ''mount -t debugfs none /sys/kernel/debug''), h1)
              else if \<not> headers_found host h1
              then (Some (''kernel headers for '' @ bh_release host @ '' not found (bcc compiles the BPF ''
                          @ ''program against them); install linux-headers-'' @ bh_release host), h1)
              else (None, h1))"

definition ebpf_available :: "'h bpf_host \<Rightarrow> 'h \<Rightarrow> bool \<times> 'h" where
  "ebpf_available host h = (let (reason, h1) = ebpf_reason host h in (reason = None, h1))"

definition ebpf_unavailable :: "string \<Rightarrow> py_exc" where
  "ebpf_unavailable reason = OtherExc ''EbpfUnavailable'' reason"

text \<open>
  The constructor of the observer; \<open>load\<close> is the compiler and loader of bcc, which gives a
  message when it fails and the maps when the program is attached. The dash of the message is
  written in ASCII.
\<close>

definition observer_init :: "'h bpf_host \<Rightarrow> ('h \<Rightarrow> string + bpf_maps) \<Rightarrow> 'h \<Rightarrow> (py_exc + bpf_maps) \<times> 'h" where
  "observer_init host load h =
     (case ebpf_reason host h of
        (Some reason, h1) \<Rightarrow> (Inl (ebpf_unavailable reason), h1)
      | (None, h1) \<Rightarrow>
          (case load h1 of
             Inl e \<Rightarrow> (Inl (ebpf_unavailable
                        (''bcc failed to compile/load gcos_sched.bpf.c ('' @ e @ ''); usually ''
                         @ ''missing kernel headers or tracefs -- see unavailable_reason()'')), h1)
           | Inr maps \<Rightarrow> (Inr maps, h1)))"

record sched_row =
  sr_switches :: int
  sr_oncpu_ns :: int

definition wanted :: "int list option \<Rightarrow> int \<Rightarrow> bool" where
  "wanted pids p = (case pids of None \<Rightarrow> True | Some ps \<Rightarrow> p \<in> set ps)"

definition put_switches :: "int list option \<Rightarrow> u32 \<times> u64 \<Rightarrow> (int \<times> sched_row) list \<Rightarrow> (int \<times> sched_row) list" where
  "put_switches pids kv out =
     (if wanted pids (uint (fst kv))
      then AList.update (uint (fst kv)) \<lparr>sr_switches = uint (snd kv), sr_oncpu_ns = 0\<rparr> out else out)"

definition put_oncpu :: "int list option \<Rightarrow> u32 \<times> u64 \<Rightarrow> (int \<times> sched_row) list \<Rightarrow> (int \<times> sched_row) list" where
  "put_oncpu pids kv out =
     (if wanted pids (uint (fst kv))
      then let row = (case map_of out (uint (fst kv)) of None \<Rightarrow> \<lparr>sr_switches = 0, sr_oncpu_ns = 0\<rparr> | Some r \<Rightarrow> r)
           in AList.update (uint (fst kv)) (row\<lparr>sr_oncpu_ns := uint (snd kv)\<rparr>) out
      else out)"

definition observer_snapshot :: "int list option \<Rightarrow> bpf_maps \<Rightarrow> (int \<times> sched_row) list" where
  "observer_snapshot pids m = fold (put_oncpu pids) (bm_oncpu_ns m) (fold (put_switches pids) (bm_switches m) [])"

section \<open>The probe for sched_ext\<close>

text \<open>\<open>s.split(c)\<close> for one character.\<close>

fun split_at_char :: "char \<Rightarrow> string \<Rightarrow> string \<Rightarrow> string list" where
  "split_at_char c w [] = [rev w]"
| "split_at_char c w (d # ds) = (if d = c then rev w # split_at_char c [] ds else split_at_char c (d # w) ds)"

definition kernel_version :: "string \<Rightarrow> string option \<Rightarrow> (int \<times> int) option" where
  "kernel_version platform release =
     (if \<not> starts_with ''linux'' platform then None
      else case release of
             None \<Rightarrow> None
           | Some rel \<Rightarrow>
               (case take 2 (split_at_char (CHR ''.'') [] rel) of
                  [major, minor] \<Rightarrow>
                    (case (py_int major, py_int minor) of
                       (Inr x, Inr y) \<Rightarrow> Some (x, y)
                     | _ \<Rightarrow> None)
                | _ \<Rightarrow> None))"

definition before_min_kernel :: "int \<times> int \<Rightarrow> bool" where
  "before_min_kernel kv \<longleftrightarrow> fst kv < 6 \<or> fst kv = 6 \<and> snd kv < 12"

definition scx_reason :: "string \<Rightarrow> string option \<Rightarrow> bool \<Rightarrow> string option" where
  "scx_reason platform release sched_ext_present =
     (if \<not> starts_with ''linux'' platform
      then Some (''not Linux (platform='' @ platform @ ''); sched_ext is Linux-only'')
      else case kernel_version platform release of
             None \<Rightarrow> Some ''could not read kernel version''
           | Some kv \<Rightarrow>
               if before_min_kernel kv
               then Some (''sched_ext needs kernel >= 6.12; this host is '' @ show_int (fst kv) @ ''.'' @ show_int (snd kv))
               else if \<not> sched_ext_present
               then Some (''kernel >= 6.12 but CONFIG_SCHED_CLASS_EXT not enabled '' @ ''(/sys/kernel/sched_ext absent)'')
               else None)"

text \<open>\<open>load\<close> always raises, and says where to go.\<close>

definition scx_load :: "string \<Rightarrow> string \<Rightarrow> string option \<Rightarrow> bool \<Rightarrow> py_exc" where
  "scx_load loader platform release present =
     OtherExc ''RuntimeError''
       (case scx_reason platform release present of
          Some reason \<Rightarrow>
            ''scx_gcos cannot load on this host: '' @ reason @ ''. On macOS, boot a 6.12+ ''
              @ ''VM first with '' @ loader @ ''/setup_vm.sh.''
        | None \<Rightarrow>
            ''scx_gcos is loaded by its compiled C loader, not from Python. Run ''
              @ [CHR 0x60] @ ''make && sudo ./scx_gcos'' @ [CHR 0x60] @ '' in '' @ loader @ '' (or '' @ loader
              @ ''/run.sh). The CI '' @ [CHR 0x60] @ ''scx-ext'' @ [CHR 0x60]
              @ '' job does exactly this and verifies /sys/kernel/sched_ext/state.'')"

section \<open>Hash maps that are not full\<close>

definition keys_in :: "u32 set \<Rightarrow> bpf_hash \<Rightarrow> bool" where
  "keys_in S m \<longleftrightarrow> distinct (map fst m) \<and> set (map fst m) \<subseteq> S"

lemma keys_in_room:
  assumes "keys_in S m" "finite S" "card S \<le> cap" "k \<in> S"
  shows "map_of m k \<noteq> None \<or> length m < cap"
proof (cases "k \<in> set (map fst m)")
  case True
  then show ?thesis by (auto simp: map_of_eq_None_iff)
next
  case False
  then have "set (map fst m) \<subset> S" using assms(1,4) by (auto simp: keys_in_def)
  from psubset_card_mono [OF assms(2) this] have "length m < card S"
    using assms(1) distinct_card [of "map fst m"] by (simp add: keys_in_def)
  with assms(3) show ?thesis by simp
qed

lemma keys_in_update: "keys_in S m \<Longrightarrow> k \<in> S \<Longrightarrow> keys_in S (AList.update k v m)"
  by (auto simp: keys_in_def distinct_update dom_update [symmetric] AList.update_keys)

lemma hash_update_room:
  assumes "keys_in S m" "finite S" "card S \<le> cap" "k \<in> S"
  shows "map_of (hash_update cap k v m) = (map_of m)(k \<mapsto> v)" "keys_in S (hash_update cap k v m)"
  using keys_in_room [OF assms] keys_in_update [OF assms(1,4)]
  by (auto simp: hash_update_def update_conv')

lemma hash_add_room:
  assumes "keys_in S m" "finite S" "card S \<le> cap" "k \<in> S"
  shows "map_of (hash_add cap k d m) = (map_of m)(k \<mapsto> (case map_of m k of None \<Rightarrow> 0 | Some x \<Rightarrow> x) + d)"
    "keys_in S (hash_add cap k d m)"
  using hash_update_room [OF assms, of 0] keys_in_update [OF assms(1,4)]
    keys_in_update [OF hash_update_room(2) [OF assms, of 0] assms(4)]
  by (auto simp: hash_add_def Let_def update_conv' split: option.splits)

section \<open>What the program measures\<close>

text \<open>
  The time a task is on a CPU between the events, given since when it is there (\<open>None\<close>: not,
  or since before the observer was attached).
\<close>

fun on_time :: "u32 \<Rightarrow> u64 option \<Rightarrow> switch list \<Rightarrow> u64" where
  "on_time p since [] = 0"
| "on_time p since (e # es) =
     (if sw_prev e = p then (case since of None \<Rightarrow> 0 | Some t \<Rightarrow> sw_ts e - t) else 0)
     + on_time p (if sw_next e = p then Some (sw_ts e) else if sw_prev e = p then None else since) es"

text \<open>
  The events of one task alternate: it leaves a CPU only while it is on one, and comes on one
  only while it is on none. This holds of every task but the idle task, which has PID 0
  on each CPU.
\<close>

fun alternates :: "u32 \<Rightarrow> bool \<Rightarrow> switch list \<Rightarrow> bool" where
  "alternates p on [] = True"
| "alternates p on (e # es) =
     ((sw_prev e = p \<longrightarrow> on) \<and> (sw_next e = p \<longrightarrow> \<not> on \<or> sw_prev e = p)
      \<and> alternates p (sw_next e = p \<or> on \<and> sw_prev e \<noteq> p) es)"

definition times_on :: "u32 \<Rightarrow> switch list \<Rightarrow> nat" where
  "times_on p es = length (filter (\<lambda>e. sw_next e = p) es)"

definition tasks_of :: "switch list \<Rightarrow> u32 set" where
  "tasks_of es = sw_prev ` set es \<union> sw_next ` set es"

definition maps_in :: "u32 set \<Rightarrow> bpf_maps \<Rightarrow> bool" where
  "maps_in S m \<longleftrightarrow> keys_in S (bm_oncpu_ns m) \<and> keys_in S (bm_switches m) \<and> keys_in S (bm_last_in m)"

lemma sched_switch_room:
  assumes "maps_in S m" "finite S" "card S \<le> cap" "sw_prev e \<in> S" "sw_next e \<in> S"
  shows "maps_in S (sched_switch cap e m)"
    and "map_of (bm_last_in (sched_switch cap e m)) = (map_of (bm_last_in m))(sw_next e \<mapsto> sw_ts e)"
    and "map_of (bm_switches (sched_switch cap e m))
          = (map_of (bm_switches m))(sw_next e \<mapsto> (case map_of (bm_switches m) (sw_next e) of None \<Rightarrow> 0 | Some x \<Rightarrow> x) + 1)"
    and "map_of (bm_oncpu_ns (sched_switch cap e m))
          = (case map_of (bm_last_in m) (sw_prev e) of
               None \<Rightarrow> map_of (bm_oncpu_ns m)
             | Some t \<Rightarrow> (map_of (bm_oncpu_ns m))(sw_prev e \<mapsto>
                 (case map_of (bm_oncpu_ns m) (sw_prev e) of None \<Rightarrow> 0 | Some x \<Rightarrow> x) + (sw_ts e - t)))"
  using assms
  by (auto simp: sched_switch_def maps_in_def Let_def hash_update_room [of S] hash_add_room [of S] split: option.split)

text \<open>The counters after a trace, for a task whose events alternate.\<close>

definition count_of :: "bpf_hash \<Rightarrow> u32 \<Rightarrow> u64" where
  "count_of m k = (case map_of m k of None \<Rightarrow> 0 | Some x \<Rightarrow> x)"

lemma trace_counts:
  assumes "maps_in S m" "finite S" "card S \<le> cap" "tasks_of es \<subseteq> S" "alternates p on es"
    and "\<not> on \<Longrightarrow> since = None" "on \<Longrightarrow> since = map_of (bm_last_in m) p"
  shows "maps_in S (fold (sched_switch cap) es m)
    \<and> count_of (bm_switches (fold (sched_switch cap) es m)) p = count_of (bm_switches m) p + of_nat (times_on p es)
    \<and> (map_of (bm_switches (fold (sched_switch cap) es m)) p = None \<longleftrightarrow> map_of (bm_switches m) p = None \<and> times_on p es = 0)
    \<and> count_of (bm_oncpu_ns (fold (sched_switch cap) es m)) p = count_of (bm_oncpu_ns m) p + on_time p since es"
  using assms
proof (induction es arbitrary: m on since)
  case (Cons e es)
  have e: "sw_prev e \<in> S" "sw_next e \<in> S" "tasks_of es \<subseteq> S" using Cons.prems(4) by (auto simp: tasks_of_def)
  note step = sched_switch_room [OF Cons.prems(1-3) e(1,2)]
  let ?on = "sw_next e = p \<or> on \<and> sw_prev e \<noteq> p"
  let ?since = "if sw_next e = p then Some (sw_ts e) else if sw_prev e = p then None else since"
  have off: "?since = None" if "\<not> ?on" using that Cons.prems(6) by auto
  have on: "?since = map_of (bm_last_in (sched_switch cap e m)) p" if "?on"
    using that Cons.prems(7) by (auto simp: step(2))
  have alt: "alternates p ?on es" using Cons.prems(5) by simp
  have ih: "maps_in S (fold (sched_switch cap) es (sched_switch cap e m))
    \<and> count_of (bm_switches (fold (sched_switch cap) es (sched_switch cap e m))) p
        = count_of (bm_switches (sched_switch cap e m)) p + of_nat (times_on p es)
    \<and> (map_of (bm_switches (fold (sched_switch cap) es (sched_switch cap e m))) p = None
        \<longleftrightarrow> map_of (bm_switches (sched_switch cap e m)) p = None \<and> times_on p es = 0)
    \<and> count_of (bm_oncpu_ns (fold (sched_switch cap) es (sched_switch cap e m))) p
        = count_of (bm_oncpu_ns (sched_switch cap e m)) p + on_time p ?since es"
    by (rule Cons.IH [OF step(1) Cons.prems(2,3) e(3) alt off on])
  have "count_of (bm_oncpu_ns (sched_switch cap e m)) p
      = count_of (bm_oncpu_ns m) p + (if sw_prev e = p then (case since of None \<Rightarrow> 0 | Some t \<Rightarrow> sw_ts e - t) else 0)"
    using Cons.prems(5,7) by (auto simp: count_of_def step(4) split: option.split)
  moreover have "count_of (bm_switches (sched_switch cap e m)) p = count_of (bm_switches m) p + (if sw_next e = p then 1 else 0)"
    by (simp add: count_of_def step(3))
  ultimately show ?case using ih by (auto simp: times_on_def step(3))
qed (simp add: times_on_def)

text \<open>A task has an on-CPU time only if it came on a CPU.\<close>

definition seen_before :: "bpf_maps \<Rightarrow> bool" where
  "seen_before m \<longleftrightarrow> dom (map_of (bm_last_in m)) = dom (map_of (bm_switches m))
     \<and> dom (map_of (bm_oncpu_ns m)) \<subseteq> dom (map_of (bm_last_in m))"

lemma seen_before_switch:
  assumes "maps_in S m" "finite S" "card S \<le> cap" "sw_prev e \<in> S" "sw_next e \<in> S" "seen_before m"
  shows "seen_before (sched_switch cap e m)"
proof (cases "map_of (bm_last_in m) (sw_prev e)")
  case None
  with assms(6) show ?thesis unfolding seen_before_def sched_switch_room(2-4) [OF assms(1-5)] by (simp, blast)
next
  case (Some t)
  then have "sw_prev e \<in> dom (map_of (bm_last_in m))" by blast
  with Some assms(6) show ?thesis unfolding seen_before_def sched_switch_room(2-4) [OF assms(1-5)] by (simp, blast)
qed

lemma seen_before_trace:
  assumes "maps_in S m" "finite S" "card S \<le> cap" "tasks_of es \<subseteq> S" "seen_before m"
  shows "seen_before (fold (sched_switch cap) es m)"
  using assms
proof (induction es arbitrary: m)
  case (Cons e es)
  have e: "sw_prev e \<in> S" "sw_next e \<in> S" "tasks_of es \<subseteq> S" using Cons.prems(4) by (auto simp: tasks_of_def)
  show ?case
    using Cons.IH [OF sched_switch_room(1) [OF Cons.prems(1-3) e(1,2)] Cons.prems(2,3) e(3)]
      seen_before_switch [OF Cons.prems(1-3) e(1,2) Cons.prems(5)] by simp
qed simp

text \<open>The on-CPU time in numbers: with clock readings in order the words do not wrap.\<close>

fun on_ns :: "u32 \<Rightarrow> nat option \<Rightarrow> switch list \<Rightarrow> nat" where
  "on_ns p since [] = 0"
| "on_ns p since (e # es) =
     (if sw_prev e = p then (case since of None \<Rightarrow> 0 | Some t \<Rightarrow> unat (sw_ts e) - t) else 0)
     + on_ns p (if sw_next e = p then Some (unat (sw_ts e)) else if sw_prev e = p then None else since) es"

definition in_order :: "switch list \<Rightarrow> bool" where
  "in_order es \<longleftrightarrow> sorted (map (\<lambda>e. unat (sw_ts e)) es)"

lemma on_ns_bound:
  assumes "in_order es" "\<forall>e \<in> set es. lo \<le> unat (sw_ts e) \<and> unat (sw_ts e) \<le> hi"
    and "\<forall>t. since = Some t \<longrightarrow> lo \<le> t \<and> (\<forall>e \<in> set es. t \<le> unat (sw_ts e))"
  shows "on_ns p since es \<le> hi - lo"
  using assms
proof (induction es arbitrary: since lo)
  case (Cons e es)
  let ?T = "unat (sw_ts e)"
  have T: "lo \<le> ?T" "?T \<le> hi" "in_order es" "\<forall>x \<in> set es. ?T \<le> unat (sw_ts x) \<and> unat (sw_ts x) \<le> hi"
    using Cons.prems(1,2) by (auto simp: in_order_def)
  show ?case
  proof (cases "sw_prev e = p \<or> sw_next e = p")
    case True
    let ?rest = "on_ns p (if sw_next e = p then Some ?T else if sw_prev e = p then None else since) es"
    have "?rest \<le> hi - ?T" by (rule Cons.IH [OF T(3,4)]) (use True T(4) in auto)
    moreover have "(if sw_prev e = p then (case since of None \<Rightarrow> 0 | Some t \<Rightarrow> ?T - t) else 0) \<le> ?T - lo"
      using Cons.prems(3) by (auto split: option.split)
    ultimately show ?thesis using T(1,2) by simp
  next
    case False
    have "on_ns p since es \<le> hi - lo" by (rule Cons.IH [OF T(3)]) (use Cons.prems(2,3) in auto)
    with False show ?thesis by simp
  qed
qed simp

lemma on_time_ns:
  assumes "in_order es" "\<forall>t. since = Some t \<longrightarrow> (\<forall>e \<in> set es. unat t \<le> unat (sw_ts e))"
  shows "unat (on_time p since es) = on_ns p (map_option unat since) es"
  using assms
proof (induction es arbitrary: since)
  case (Cons e es)
  let ?T = "sw_ts e"
  let ?since = "if sw_next e = p then Some ?T else if sw_prev e = p then None else since"
  let ?slice = "if sw_prev e = p then (case since of None \<Rightarrow> 0 | Some t \<Rightarrow> ?T - t) else 0"
  have ord: "in_order es" "\<forall>x \<in> set es. unat ?T \<le> unat (sw_ts x)" using Cons.prems(1) by (auto simp: in_order_def)
  have rest: "unat (on_time p ?since es) = on_ns p (map_option unat ?since) es"
    by (rule Cons.IH [OF ord(1)]) (use ord(2) Cons.prems(2) in auto)
  have slice: "unat ?slice = (if sw_prev e = p then (case map_option unat since of None \<Rightarrow> 0 | Some t \<Rightarrow> unat ?T - t) else 0)"
    using Cons.prems(2) by (auto simp: unat_sub word_le_nat_alt split: option.split)
  have bound: "on_ns p (map_option unat since) (e # es) \<le> (2 ^ 64 - 1) - 0"
  proof (rule on_ns_bound [OF Cons.prems(1)])
    show "\<forall>x \<in> set (e # es). 0 \<le> unat (sw_ts x) \<and> unat (sw_ts x) \<le> 2 ^ 64 - 1"
    proof
      fix x
      have "unat (sw_ts x) < 2 ^ LENGTH(64)" by (rule unsigned_less)
      then show "0 \<le> unat (sw_ts x) \<and> unat (sw_ts x) \<le> 2 ^ 64 - 1" by simp
    qed
  qed (use Cons.prems(2) in auto)
  have since: "map_option unat ?since = (if sw_next e = p then Some (unat ?T) else if sw_prev e = p then None else map_option unat since)"
    by simp
  have sum: "on_ns p (map_option unat since) (e # es) = unat ?slice + unat (on_time p ?since es)"
    unfolding slice rest since by (rule on_ns.simps)
  have "unat ?slice + unat (on_time p ?since es) < 2 ^ 64"
    using bound unfolding sum by (rule le_less_trans) simp
  then have "unat (?slice + on_time p ?since es) = unat ?slice + unat (on_time p ?since es)"
    by (subst unat_add_lem [symmetric]) simp
  then show ?case unfolding sum by (simp only: on_time.simps)
qed simp

section \<open>The snapshot\<close>

lemma put_switches_at:
  "map_of (put_switches pids x out) (uint k)
    = (if k = fst x \<and> wanted pids (uint k) then Some \<lparr>sr_switches = uint (snd x), sr_oncpu_ns = 0\<rparr> else map_of out (uint k))"
  by (auto simp: put_switches_def update_conv' simp flip: word_uint_eq_iff)

lemma put_oncpu_at:
  "map_of (put_oncpu pids x out) (uint k)
    = (if k = fst x \<and> wanted pids (uint k)
       then Some ((case map_of out (uint k) of None \<Rightarrow> \<lparr>sr_switches = 0, sr_oncpu_ns = 0\<rparr> | Some r \<Rightarrow> r)\<lparr>sr_oncpu_ns := uint (snd x)\<rparr>)
       else map_of out (uint k))"
  by (auto simp: put_oncpu_def Let_def update_conv' simp flip: word_uint_eq_iff)

lemma snapshot_switches:
  assumes "distinct (map fst xs)"
  shows "map_of (fold (put_switches pids) xs out) (uint k)
    = (case map_of xs k of
         Some v \<Rightarrow> if wanted pids (uint k) then Some \<lparr>sr_switches = uint v, sr_oncpu_ns = 0\<rparr> else map_of out (uint k)
       | None \<Rightarrow> map_of out (uint k))"
  using assms
proof (induction xs arbitrary: out)
  case (Cons x xs)
  then have "map_of xs (fst x) = None" by (simp add: map_of_eq_None_iff)
  with Cons.IH [of "put_switches pids x out"] Cons.prems show ?case
    by (cases x) (auto simp: put_switches_at split: option.splits)
qed simp

lemma snapshot_oncpu:
  assumes "distinct (map fst xs)"
  shows "map_of (fold (put_oncpu pids) xs out) (uint k)
    = (case map_of xs k of
         Some v \<Rightarrow>
           if wanted pids (uint k)
           then Some ((case map_of out (uint k) of None \<Rightarrow> \<lparr>sr_switches = 0, sr_oncpu_ns = 0\<rparr> | Some r \<Rightarrow> r)\<lparr>sr_oncpu_ns := uint v\<rparr>)
           else map_of out (uint k)
       | None \<Rightarrow> map_of out (uint k))"
  using assms
proof (induction xs arbitrary: out)
  case (Cons x xs)
  then have "map_of xs (fst x) = None" by (simp add: map_of_eq_None_iff)
  with Cons.IH [of "put_oncpu pids x out"] Cons.prems show ?case
    by (cases x) (auto simp: put_oncpu_at split: option.splits)
qed simp

lemma snapshot_row:
  assumes "maps_in S m" "seen_before m"
  shows "map_of (observer_snapshot pids m) (uint k)
    = (if wanted pids (uint k) \<and> map_of (bm_switches m) k \<noteq> None
       then Some \<lparr>sr_switches = uint (count_of (bm_switches m) k), sr_oncpu_ns = uint (count_of (bm_oncpu_ns m) k)\<rparr>
       else None)"
proof -
  have d: "distinct (map fst (bm_switches m))" "distinct (map fst (bm_oncpu_ns m))"
    using assms(1) by (simp_all add: maps_in_def keys_in_def)
  have "map_of (bm_oncpu_ns m) k = Some v \<Longrightarrow> map_of (bm_switches m) k \<noteq> None" for v
    using assms(2) unfolding seen_before_def by blast
  then show ?thesis
    unfolding observer_snapshot_def snapshot_oncpu [OF d(2)] snapshot_switches [OF d(1)]
    by (auto simp: count_of_def split: option.splits)
qed

section \<open>Version texts\<close>

lemma split_at_dot:
  "CHR ''.'' \<notin> set u \<Longrightarrow> split_at_char (CHR ''.'') w (u @ CHR ''.'' # v) = (rev w @ u) # split_at_char (CHR ''.'') [] v"
  by (induction u arbitrary: w) auto

lemma split_no_dot: "CHR ''.'' \<notin> set u \<Longrightarrow> split_at_char (CHR ''.'') w u = [rev w @ u]"
  by (induction u arbitrary: w) auto

lemma show_int_no_dot: "CHR ''.'' \<notin> set (show_int n)"
proof -
  have "\<not> is_digit (CHR ''.'')" by (simp add: is_digit_def char_code_def)
  then have "CHR ''.'' \<notin> set (show_nat k)" for k using show_nat_digits [of k] by (auto simp: list_all_iff)
  then show ?thesis by (simp add: show_int_def)
qed

section \<open>Properties\<close>



text \<open>
  The observer loads exactly where it says it can: the reason is \<open>None\<close> exactly on a
  privileged Linux host with bcc on which, after the attempt to mount them, the trace files and the kernel headers
  are there; an observer exists only then, and only with the maps bcc gave; nothing is
  mounted where the trace files are already there.
\<close>

theorem observer_only_where_available:
  "(fst (ebpf_reason host h) = None \<longleftrightarrow>
      starts_with ''linux'' (bh_platform host) \<and> bh_importable host ''bcc'' \<and> bh_euid host \<in> {None, Some 0}
      \<and> tracefs_ready host (snd (ensure_tracefs host h)) \<and> headers_found host (snd (ensure_tracefs host h)))
    \<and> (fst (observer_init host load h) = Inr m \<longleftrightarrow>
        fst (ebpf_reason host h) = None \<and> load (snd (ebpf_reason host h)) = Inr m)
    \<and> (tracefs_ready host h \<longrightarrow> snd (ebpf_reason host h) = h)"
proof -
  have "fst (ensure_tracefs host h) = tracefs_ready host (snd (ensure_tracefs host h))"
    by (simp add: ensure_tracefs_def Let_def)
  then have "fst (ebpf_reason host h) = None \<longleftrightarrow>
      starts_with ''linux'' (bh_platform host) \<and> bh_importable host ''bcc'' \<and> bh_euid host \<in> {None, Some 0}
      \<and> tracefs_ready host (snd (ensure_tracefs host h)) \<and> headers_found host (snd (ensure_tracefs host h))"
    by (auto simp: ebpf_reason_def split_beta Let_def)
  moreover have "fst (observer_init host load h) = Inr m \<longleftrightarrow>
        fst (ebpf_reason host h) = None \<and> load (snd (ebpf_reason host h)) = Inr m"
    by (cases "ebpf_reason host h") (auto simp: observer_init_def split: option.split sum.split)
  moreover have "snd (ebpf_reason host h) = h" if "tracefs_ready host h"
    using that by (simp add: ebpf_reason_def ensure_tracefs_def)
  ultimately show ?thesis by blast
qed

text \<open>
  The probe for sched_ext reads the version of a kernel release and accepts exactly the Linux
  hosts from 6.12 on that have it enabled.
\<close>

theorem scx_gate_exact:
  "kernel_version ''linux'' (Some (show_int x @ ''.'' @ show_int y @ ''.'' @ rest)) = Some (x, y)
    \<and> kernel_version ''linux'' (Some (show_int x @ ''.'' @ show_int y)) = Some (x, y)
    \<and> (scx_reason platform release present = None \<longleftrightarrow>
        (\<exists>kv. kernel_version platform release = Some kv \<and> \<not> before_min_kernel kv) \<and> present)"
  by (auto simp: kernel_version_def scx_reason_def split_at_dot split_no_dot show_int_no_dot py_int_show starts_with_def
      numeral_2_eq_2 split: option.splits)

end
