(* ===== verification/Shm_Ring.thy ===== *)
theory Shm_Ring
  imports Prelude "HOL-Library.Word"
begin

text \<open>
  The shared-memory ring (\<open>gcos/osprims/shm.py\<close>): a header of three 64-bit numbers
  (capacity, head, tail) and a ring of bytes in a segment that two processes map. The calls
  are modelled twice: as functions of the segment, for callers that take turns, and as
  machines that access the segment one header or one byte at a time, for a producer and a
  consumer that run at the same time. Taking turns, the ring is an exact bounded queue; at the
  same time, frames are never torn, but they can be delivered twice or lost.
\<close>

section \<open>Numbers as bytes\<close>

type_synonym byte = "8 word"

primrec le_bytes :: "nat \<Rightarrow> nat \<Rightarrow> byte list" where
  "le_bytes 0 n = []"
| "le_bytes (Suc k) n = word_of_nat n # le_bytes k (n div 256)"

primrec le_value :: "byte list \<Rightarrow> nat" where
  "le_value [] = 0"
| "le_value (b # bs) = unat b + 256 * le_value bs"

definition struct_error :: "string \<Rightarrow> py_exc" where
  "struct_error m = OtherExc ''error'' m"

text \<open>\<open>struct.pack\<close> of one unsigned number of \<open>k\<close> bytes, little endian.\<close>

definition pack_num :: "nat \<Rightarrow> nat \<Rightarrow> py_exc + byte list" where
  "pack_num k n =
     (if n < 256 ^ k then Inr (le_bytes k n) else Inl (struct_error ''argument out of range''))"

section \<open>The segment\<close>

text \<open>A handle on a segment; the segment itself is a list of bytes.\<close>

record shm_ring =
  sr_capacity :: nat
  sr_name :: string
  sr_created :: bool

type_synonym segment = "byte list"

definition hdr_size :: nat where
  "hdr_size = 24"

definition hdr :: "segment \<Rightarrow> nat \<times> nat \<times> nat" where
  "hdr buf = (le_value (take 8 buf), le_value (take 8 (drop 8 buf)), le_value (take 8 (drop 16 buf)))"

definition hdr_bytes :: "nat \<Rightarrow> nat \<Rightarrow> nat \<Rightarrow> segment" where
  "hdr_bytes cap head tail = le_bytes 8 cap @ le_bytes 8 head @ le_bytes 8 tail"

text \<open>\<open>_set\<close>: the header is written with the capacity of the handle.\<close>

definition ring_set :: "shm_ring \<Rightarrow> nat \<Rightarrow> nat \<Rightarrow> segment \<Rightarrow> py_exc + segment" where
  "ring_set r head tail buf =
     (if sr_capacity r < 256 ^ 8 \<and> head < 256 ^ 8 \<and> tail < 256 ^ 8
      then Inr (hdr_bytes (sr_capacity r) head tail @ drop hdr_size buf)
      else Inl (struct_error ''argument out of range''))"

definition pending_bytes :: "segment \<Rightarrow> int" where
  "pending_bytes buf = (let (cap, head, tail) = hdr buf in int head - int tail)"

text \<open>The byte at a position of the stream.\<close>

definition cell :: "nat \<Rightarrow> nat \<Rightarrow> nat" where
  "cell cap p = hdr_size + p mod cap"

fun write_bytes :: "nat \<Rightarrow> nat \<Rightarrow> byte list \<Rightarrow> segment \<Rightarrow> segment" where
  "write_bytes cap p [] buf = buf"
| "write_bytes cap p (b # bs) buf = write_bytes cap (Suc p) bs (buf[cell cap p := b])"

definition read_bytes :: "nat \<Rightarrow> nat \<Rightarrow> nat \<Rightarrow> segment \<Rightarrow> byte list" where
  "read_bytes cap p n buf = map (\<lambda>i. buf ! cell cap (p + i)) [0..<n]"

section \<open>Creating, attaching, closing\<close>

text \<open>The segments of the host, by name; \<open>fresh\<close> is the name the host makes up.\<close>

type_synonym shm_fs = "string \<Rightarrow> segment option"

definition ring_create :: "string option \<Rightarrow> string \<Rightarrow> nat \<Rightarrow> shm_fs \<Rightarrow> (py_exc + shm_ring) \<times> shm_fs" where
  "ring_create name fresh capacity fs =
     (let nm = (case name of None \<Rightarrow> fresh | Some s \<Rightarrow> s)
      in if fs nm \<noteq> None then (Inl (OtherExc ''FileExistsError'' nm), fs)
         else let buf = replicate (hdr_size + capacity) 0
              in if capacity < 256 ^ 8
                 then (Inr \<lparr>sr_capacity = capacity, sr_name = nm, sr_created = True\<rparr>,
                       fs(nm \<mapsto> hdr_bytes capacity 0 0 @ drop hdr_size buf))
                 else (Inl (struct_error ''argument out of range''), fs(nm \<mapsto> buf)))"

definition ring_attach :: "string \<Rightarrow> shm_fs \<Rightarrow> py_exc + shm_ring" where
  "ring_attach name fs =
     (case fs name of
        None \<Rightarrow> Inl (OtherExc ''FileNotFoundError'' name)
      | Some buf \<Rightarrow> Inr \<lparr>sr_capacity = fst (hdr buf), sr_name = name, sr_created = False\<rparr>)"

definition ring_close :: "shm_ring \<Rightarrow> shm_fs \<Rightarrow> shm_fs" where
  "ring_close r fs = (if sr_created r then fs(sr_name r := None) else fs)"

section \<open>Sending and receiving, one call at a time\<close>

definition frame :: "byte list \<Rightarrow> py_exc + byte list" where
  "frame payload =
     (case pack_num 4 (length payload) of Inl e \<Rightarrow> Inl e | Inr lb \<Rightarrow> Inr (lb @ payload))"

definition too_large :: py_exc where
  "too_large = OtherExc ''ValueError'' ''payload larger than ring capacity''"

definition zero_modulo :: py_exc where
  "zero_modulo = OtherExc ''ZeroDivisionError'' ''integer modulo by zero''"

definition shm_send :: "shm_ring \<Rightarrow> byte list \<Rightarrow> segment \<Rightarrow> (py_exc + bool) \<times> segment" where
  "shm_send r payload buf =
     (let (cap, head, tail) = hdr buf
      in case frame payload of
           Inl e \<Rightarrow> (Inl e, buf)
         | Inr f \<Rightarrow>
             if cap < length f then (Inl too_large, buf)
             else if int cap < (int head - int tail) + int (length f) then (Inr False, buf)
             else let buf1 = write_bytes cap head f buf
                  in case ring_set r (head + length f) tail buf1 of
                       Inl e \<Rightarrow> (Inl e, buf1)
                     | Inr buf2 \<Rightarrow> (Inr True, buf2))"

definition shm_recv :: "shm_ring \<Rightarrow> segment \<Rightarrow> (py_exc + byte list option) \<times> segment" where
  "shm_recv r buf =
     (let (cap, head, tail) = hdr buf
      in if int head - int tail < 4 then (Inr None, buf)
         else if cap = 0 then (Inl zero_modulo, buf)
         else let n = le_value (read_bytes cap tail 4 buf)
              in if int head - int tail < 4 + int n then (Inr None, buf)
                 else let dat = read_bytes cap (tail + 4) n buf
                      in case ring_set r head (tail + 4 + n) buf of
                           Inl e \<Rightarrow> (Inl e, buf)
                         | Inr buf1 \<Rightarrow> (Inr (Some dat), buf1))"

section \<open>Sending and receiving at the same time\<close>

text \<open>
  The program points of the two calls, with the local variables of the code: what was read
  from the header, the frame and how much of it is written, the bytes read so far.
\<close>

datatype producer =
    PIdle
  | PWrite nat nat nat "byte list" nat

datatype consumer =
    CIdle
  | CLen nat nat nat "byte list"
  | CData nat nat nat nat "byte list"

text \<open>One access of the segment by \<open>send(payload)\<close>, and what the call returns when it does.\<close>

fun producer_step ::
  "shm_ring \<Rightarrow> byte list \<Rightarrow> producer \<Rightarrow> segment \<Rightarrow> producer \<times> segment \<times> (py_exc + bool) option" where
  "producer_step r payload PIdle buf =
     (let (cap, head, tail) = hdr buf
      in case frame payload of
           Inl e \<Rightarrow> (PIdle, buf, Some (Inl e))
         | Inr f \<Rightarrow>
             if cap < length f then (PIdle, buf, Some (Inl too_large))
             else if int cap < (int head - int tail) + int (length f) then (PIdle, buf, Some (Inr False))
             else (PWrite cap head tail f 0, buf, None))"
| "producer_step r payload (PWrite cap head tail f i) buf =
     (if i < length f then (PWrite cap head tail f (Suc i), buf[cell cap (head + i) := f ! i], None)
      else case ring_set r (head + length f) tail buf of
             Inl e \<Rightarrow> (PIdle, buf, Some (Inl e))
           | Inr buf' \<Rightarrow> (PIdle, buf', Some (Inr True)))"

text \<open>One access of the segment by \<open>recv()\<close>.\<close>

fun consumer_step ::
  "shm_ring \<Rightarrow> consumer \<Rightarrow> segment \<Rightarrow> consumer \<times> segment \<times> (py_exc + byte list option) option" where
  "consumer_step r CIdle buf =
     (let (cap, head, tail) = hdr buf
      in if int head - int tail < 4 then (CIdle, buf, Some (Inr None))
         else if cap = 0 then (CIdle, buf, Some (Inl zero_modulo))
         else (CLen cap head tail [], buf, None))"
| "consumer_step r (CLen cap head tail lb) buf =
     (if length lb < 4 then (CLen cap head tail (lb @ [buf ! cell cap (tail + length lb)]), buf, None)
      else if int head - int tail < 4 + int (le_value lb) then (CIdle, buf, Some (Inr None))
      else (CData cap head tail (le_value lb) [], buf, None))"
| "consumer_step r (CData cap head tail n acc) buf =
     (if length acc < n
      then (CData cap head tail n (acc @ [buf ! cell cap (tail + 4 + length acc)]), buf, None)
      else case ring_set r head (tail + 4 + n) buf of
             Inl e \<Rightarrow> (CIdle, buf, Some (Inl e))
           | Inr buf' \<Rightarrow> (CIdle, buf', Some (Inr (Some acc))))"

text \<open>
  One producer and one consumer on one segment: \<open>sent\<close> are the payloads whose
  \<open>send\<close> returned \<open>True\<close>, \<open>got\<close> those \<open>recv\<close> returned.
\<close>

record shm_pipe =
  pi_producer :: producer
  pi_consumer :: consumer
  pi_buf :: segment
  pi_sent :: "byte list list"
  pi_got :: "byte list list"

fun sent_by :: "producer \<Rightarrow> (py_exc + bool) option \<Rightarrow> byte list list" where
  "sent_by (PWrite cap head tail f i) (Some (Inr b)) = (if b then [drop 4 f] else [])"
| "sent_by pc out = []"

fun got_by :: "(py_exc + byte list option) option \<Rightarrow> byte list list" where
  "got_by (Some (Inr (Some m))) = [m]"
| "got_by out = []"

definition produce :: "shm_ring \<Rightarrow> byte list \<Rightarrow> shm_pipe \<Rightarrow> shm_pipe" where
  "produce r payload s =
     (let (pc, buf, out) = producer_step r payload (pi_producer s) (pi_buf s)
      in s\<lparr>pi_producer := pc, pi_buf := buf, pi_sent := pi_sent s @ sent_by (pi_producer s) out\<rparr>)"

definition consume :: "shm_ring \<Rightarrow> shm_pipe \<Rightarrow> shm_pipe" where
  "consume r s =
     (let (pc, buf, out) = consumer_step r (pi_consumer s) (pi_buf s)
      in s\<lparr>pi_consumer := pc, pi_buf := buf, pi_got := pi_got s @ got_by out\<rparr>)"

inductive pipe_step :: "shm_ring \<Rightarrow> shm_pipe \<Rightarrow> shm_pipe \<Rightarrow> bool" for r where
  producing: "pipe_step r s (produce r payload s)"
| consuming: "pipe_step r s (consume r s)"

definition pipe_runs :: "shm_ring \<Rightarrow> shm_pipe \<Rightarrow> shm_pipe \<Rightarrow> bool" where
  "pipe_runs r = (pipe_step r)\<^sup>*\<^sup>*"

definition fresh_segment :: "nat \<Rightarrow> segment" where
  "fresh_segment cap = hdr_bytes cap 0 0 @ replicate cap 0"

definition fresh_pipe :: "nat \<Rightarrow> shm_pipe" where
  "fresh_pipe cap =
     \<lparr>pi_producer = PIdle, pi_consumer = CIdle, pi_buf = fresh_segment cap, pi_sent = [], pi_got = []\<rparr>"

section \<open>Lemmas on bytes and headers\<close>

lemma length_le_bytes [simp]: "length (le_bytes k n) = k"
  by (induction k arbitrary: n) simp_all

lemma le_value_bytes: "le_value (le_bytes k n) = n mod 256 ^ k"
proof (induction k arbitrary: n)
  case (Suc k)
  have "unat (word_of_nat n :: byte) = n mod 256" by (simp add: unat_of_nat)
  moreover have "n mod 256 ^ Suc k = n mod 256 + 256 * (n div 256 mod 256 ^ k)"
    by (simp add: mod_mult2_eq)
  ultimately show ?case using Suc by simp
qed simp

lemma le_value_small [simp]: "n < 256 ^ k \<Longrightarrow> le_value (le_bytes k n) = n"
  by (simp add: le_value_bytes)

lemma hdr_of_bytes:
  "cap < 256 ^ 8 \<Longrightarrow> head < 256 ^ 8 \<Longrightarrow> tail < 256 ^ 8 \<Longrightarrow>
     hdr (hdr_bytes cap head tail @ rest) = (cap, head, tail)"
  by (simp add: hdr_def hdr_bytes_def del: power_numeral)

lemma length_hdr_bytes [simp]: "length (hdr_bytes cap head tail) = 24"
  by (simp add: hdr_bytes_def)

lemma length_write_bytes [simp]: "length (write_bytes cap p bs buf) = length buf"
  by (induction cap p bs buf rule: write_bytes.induct) simp_all

lemma cell_ge: "24 \<le> cell cap p"
  by (simp add: cell_def hdr_size_def)

lemma cell_less: "0 < cap \<Longrightarrow> cell cap p < 24 + cap"
  by (simp add: cell_def hdr_size_def)

lemma hdr_update [simp]: "hdr (buf[cell cap p := b]) = hdr buf"
  using cell_ge [of cap p] by (simp add: hdr_def take_drop take_update_cancel)

lemma hdr_write [simp]: "hdr (write_bytes cap p bs buf) = hdr buf"
  by (induction cap p bs buf rule: write_bytes.induct) simp_all

text \<open>Code equations that compute with binary numbers.\<close>

primrec le_bytes_int :: "nat \<Rightarrow> int \<Rightarrow> byte list" where
  "le_bytes_int 0 n = []"
| "le_bytes_int (Suc k) n = word_of_int n # le_bytes_int k (n div 256)"

primrec le_value_int :: "byte list \<Rightarrow> int" where
  "le_value_int [] = 0"
| "le_value_int (b # bs) = uint b + 256 * le_value_int bs"

lemma le_bytes_code [code]: "le_bytes k n = le_bytes_int k (int n)"
proof (induction k arbitrary: n)
  case (Suc k)
  have "int n div 256 = int (n div 256)" by (simp add: zdiv_int)
  with Suc [of "n div 256"] show ?case by simp
qed simp

lemma le_value_code [code]: "le_value bs = nat (le_value_int bs)"
proof -
  have "int (le_value bs) = le_value_int bs" by (induction bs) simp_all
  then show ?thesis by linarith
qed

lemma pack_num_code [code]:
  "pack_num k n = (if int n < 256 ^ k then Inr (le_bytes k n) else Inl (struct_error ''argument out of range''))"
proof -
  have "int n < 256 ^ k \<longleftrightarrow> int n < int (256 ^ k)" by simp
  then show ?thesis by (simp only: pack_num_def of_nat_less_iff)
qed

lemma ring_set_code [code]:
  "ring_set r head tail buf =
     (if int (sr_capacity r) < 18446744073709551616 \<and> int head < 18446744073709551616
         \<and> int tail < 18446744073709551616
      then Inr (hdr_bytes (sr_capacity r) head tail @ drop hdr_size buf)
      else Inl (struct_error ''argument out of range''))"
proof -
  have "n < 256 ^ 8 \<longleftrightarrow> int n < 18446744073709551616" for n :: nat by simp
  then show ?thesis by (simp only: ring_set_def)
qed

section \<open>The stream of bytes\<close>

lemma length_read_bytes [simp]: "length (read_bytes cap p n buf) = n"
  by (simp add: read_bytes_def)

lemma read_bytes_add:
  "read_bytes cap p (m + n) buf = read_bytes cap p m buf @ read_bytes cap (p + m) n buf"
proof -
  have "[m..<m + n] = map (\<lambda>i. m + i) [0..<n]" by (simp add: map_add_upt add.commute)
  then show ?thesis by (simp add: read_bytes_def upt_add_eq_append [of 0 m n] add.assoc comp_def)
qed

lemma read_bytes_Suc: "read_bytes cap p (Suc n) buf = read_bytes cap p n buf @ [buf ! cell cap (p + n)]"
  by (simp add: read_bytes_def)

lemma read_bytes_set [simp]:
  "length buf = 24 + cap \<Longrightarrow> read_bytes cap p n (hdr_bytes c h t @ drop 24 buf) = read_bytes cap p n buf"
  by (simp add: read_bytes_def nth_append leD [OF cell_ge] le_add_diff_inverse [OF cell_ge])

lemma cell_distinct:
  assumes "x < q" and "q < x + cap"
  shows "cell cap x \<noteq> cell cap q"
proof
  assume "cell cap x = cell cap q"
  then have "(q - x) mod cap = 0"
    using assms(1) by (simp add: cell_def mod_eq_dvd_iff_nat [symmetric])
  then show False using assms by auto
qed

lemma read_update:
  assumes "t + n \<le> q" and "q < t + cap"
  shows "read_bytes cap t n (buf[cell cap q := b]) = read_bytes cap t n buf"
proof -
  have "cell cap (t + i) \<noteq> cell cap q" if "i < n" for i
    using assms that by (intro cell_distinct) auto
  then have "buf[cell cap q := b] ! cell cap (t + i) = buf ! cell cap (t + i)" if "i < n" for i
    using that by (metis nth_list_update_neq)
  then show ?thesis by (simp add: read_bytes_def)
qed

lemma read_extend:
  assumes "length buf = 24 + cap" and "n < cap"
  shows "read_bytes cap t (Suc n) (buf[cell cap (t + n) := b]) = read_bytes cap t n buf @ [b]"
proof -
  have "cell cap (t + n) < length buf" using assms cell_less [of cap "t + n"] by simp
  then show ?thesis using assms by (simp add: read_bytes_Suc read_update)
qed

lemma read_write:
  "length buf = 24 + cap \<Longrightarrow> n + length bs \<le> cap \<Longrightarrow>
     read_bytes cap t (n + length bs) (write_bytes cap (t + n) bs buf) = read_bytes cap t n buf @ bs"
proof (induction bs arbitrary: n buf)
  case (Cons b bs)
  then have "read_bytes cap t (Suc n) (buf[cell cap (t + n) := b]) = read_bytes cap t n buf @ [b]"
    by (intro read_extend) auto
  with Cons.IH [of "buf[cell cap (t + n) := b]" "Suc n"] Cons.prems show ?case by simp
qed simp

section \<open>Frames in the ring\<close>

definition enc :: "byte list \<Rightarrow> byte list" where
  "enc m = le_bytes 4 (length m) @ m"

text \<open>Between two positions the ring holds exactly these frames.\<close>

definition holds :: "nat \<Rightarrow> nat \<Rightarrow> nat \<Rightarrow> segment \<Rightarrow> byte list list \<Rightarrow> bool" where
  "holds cap t h buf ms =
     (t \<le> h \<and> h - t \<le> cap \<and> (\<forall>m \<in> set ms. length m < 256 ^ 4)
      \<and> read_bytes cap t (h - t) buf = concat (map enc ms))"

lemma frame_enc: "frame m = (if length m < 256 ^ 4 then Inr (enc m) else Inl (struct_error ''argument out of range''))"
  by (simp add: frame_def pack_num_def enc_def)

lemma length_enc [simp]: "length (enc m) = 4 + length m"
  by (simp add: enc_def)

lemma holds_empty: "holds cap t t buf []"
  by (simp add: holds_def read_bytes_def)

lemma holds_nil: "holds cap t h buf [] \<Longrightarrow> h = t"
  by (auto simp: holds_def dest: arg_cong [of _ _ length])

lemma holds_set:
  "length buf = 24 + cap \<Longrightarrow> holds cap t h (hdr_bytes c x y @ drop 24 buf) ms \<longleftrightarrow> holds cap t h buf ms"
  by (simp add: holds_def)

lemma holds_update:
  assumes "holds cap t h buf ms" and "h \<le> q" and "q < t + cap"
  shows "holds cap t h (buf[cell cap q := b]) ms"
proof -
  have "read_bytes cap t (h - t) (buf[cell cap q := b]) = read_bytes cap t (h - t) buf"
    using assms by (intro read_update) (auto simp: holds_def)
  then show ?thesis using assms(1) by (simp add: holds_def)
qed

lemma holds_snoc:
  assumes "holds cap t h buf ms" and "length m < 256 ^ 4" and "h - t + length (enc m) \<le> cap"
    and "read_bytes cap h (length (enc m)) buf = enc m"
  shows "holds cap t (h + length (enc m)) buf (ms @ [m])"
proof -
  have "t \<le> h" "read_bytes cap t (h - t) buf = concat (map enc ms)" using assms(1) by (simp_all add: holds_def)
  then have "read_bytes cap t (h - t + length (enc m)) buf = concat (map enc ms) @ enc m"
    using assms(4) by (simp only: read_bytes_add le_add_diff_inverse)
  then show ?thesis using assms by (auto simp: holds_def)
qed

lemma holds_head:
  assumes "holds cap t h buf (m # ms)"
  shows "t + 4 + length m \<le> h" and "le_value (read_bytes cap t 4 buf) = length m"
    and "read_bytes cap (t + 4) (length m) buf = m" and "holds cap (t + 4 + length m) h buf ms"
proof -
  have rd: "read_bytes cap t (h - t) buf = enc m @ concat (map enc ms)"
    and len: "length m < 256 ^ 4" "t \<le> h" "h - t \<le> cap" using assms by (auto simp: holds_def)
  have n: "h - t = 4 + (length m + length (concat (map enc ms)))"
    using arg_cong [OF rd, of length] by simp
  then show le: "t + 4 + length m \<le> h" using len by linarith
  have "read_bytes cap t (h - t) buf = read_bytes cap t 4 buf @ read_bytes cap (t + 4) (length m) buf
      @ read_bytes cap (t + 4 + length m) (length (concat (map enc ms))) buf"
    unfolding n by (simp only: read_bytes_add append_assoc)
  with rd have parts: "read_bytes cap t 4 buf = le_bytes 4 (length m)"
    "read_bytes cap (t + 4) (length m) buf = m"
    "read_bytes cap (t + 4 + length m) (length (concat (map enc ms))) buf = concat (map enc ms)"
    by (simp_all add: enc_def)
  then show "le_value (read_bytes cap t 4 buf) = length m" "read_bytes cap (t + 4) (length m) buf = m"
    using len(1) by (simp_all del: power_numeral)
  have "h - (t + 4 + length m) = length (concat (map enc ms))" using n by linarith
  with parts(3) le len assms show "holds cap (t + 4 + length m) h buf ms"
    by (auto simp: holds_def)
qed

section \<open>The contract of a pipe of messages\<close>

datatype 'm pipe_call = Send 'm | Recv

text \<open>A sequence of calls, with the messages accepted and the messages received.\<close>

fun run_calls ::
  "('m \<Rightarrow> 's \<Rightarrow> (py_exc + bool) \<times> 's) \<Rightarrow> ('s \<Rightarrow> (py_exc + 'm option) \<times> 's) \<Rightarrow>
     'm pipe_call list \<Rightarrow> 's \<Rightarrow> 'm list \<times> 'm list \<times> 's" where
  "run_calls send recv [] s = ([], [], s)"
| "run_calls send recv (Send m # cs) s =
     (let (out, s1) = send m s; (acc, got, s2) = run_calls send recv cs s1
      in (if out = Inr True then m # acc else acc, got, s2))"
| "run_calls send recv (Recv # cs) s =
     (let (out, s1) = recv s; (acc, got, s2) = run_calls send recv cs s1
      in (acc, case out of Inr (Some m) \<Rightarrow> m # got | _ \<Rightarrow> got, s2))"

locale message_pipe =
  fixes rep :: "'s \<Rightarrow> 'm list \<Rightarrow> bool"
    and send :: "'m \<Rightarrow> 's \<Rightarrow> (py_exc + bool) \<times> 's"
    and recv :: "'s \<Rightarrow> (py_exc + 'm option) \<times> 's"
  assumes send_law: "rep s ms \<Longrightarrow> rep (snd (send m s)) (if fst (send m s) = Inr True then ms @ [m] else ms)"
    and recv_empty: "rep s [] \<Longrightarrow> fst (recv s) = Inr None \<and> rep (snd (recv s)) []"
    and recv_head: "rep s (m # ms) \<Longrightarrow> fst (recv s) = Inr (Some m) \<and> rep (snd (recv s)) ms"
begin

lemma calls_exact:
  "rep s ms \<Longrightarrow> run_calls send recv cs s = (acc, got, s') \<Longrightarrow>
     \<exists>left. rep s' left \<and> ms @ acc = got @ left"
proof (induction cs arbitrary: s ms acc got)
  case (Cons c cs)
  show ?case
  proof (cases c)
    case (Send m)
    obtain acc1 got1 s1 where res: "run_calls send recv cs (snd (send m s)) = (acc1, got1, s1)"
      by (rule prod_cases3)
    with Cons.prems(2) Send have run: "run_calls send recv cs (snd (send m s)) = (acc1, got, s')"
      and acc: "acc = (if fst (send m s) = Inr True then m # acc1 else acc1)"
      by (auto simp: split_beta)
    from Cons.IH [OF send_law [OF Cons.prems(1), of m] run] acc show ?thesis by (auto split: if_splits)
  next
    case Recv
    obtain acc1 got1 s1 where res: "run_calls send recv cs (snd (recv s)) = (acc1, got1, s1)"
      by (rule prod_cases3)
    with Cons.prems(2) Recv have run: "run_calls send recv cs (snd (recv s)) = (acc, got1, s')"
      and got: "got = (case fst (recv s) of Inr (Some m) \<Rightarrow> m # got1 | _ \<Rightarrow> got1)"
      by (auto simp: split_beta split: sum.splits option.splits)
    show ?thesis
    proof (cases ms)
      case Nil
      with recv_empty Cons.prems(1) got have "got = got1" "rep (snd (recv s)) []" by auto
      with Cons.IH [OF _ run] Nil show ?thesis by blast
    next
      case (Cons m ms')
      with recv_head Cons.prems(1) got have "got = m # got1" "rep (snd (recv s)) ms'" by auto
      with Cons.IH [OF _ run] Cons show ?thesis by auto
    qed
  qed
qed auto

end

definition ring_holds :: "shm_ring \<Rightarrow> segment \<Rightarrow> byte list list \<Rightarrow> bool" where
  "ring_holds r buf ms =
     (sr_capacity r < 256 ^ 8 \<and> length buf = 24 + sr_capacity r
      \<and> (\<exists>h t. hdr buf = (sr_capacity r, h, t) \<and> h < 256 ^ 8 \<and> holds (sr_capacity r) t h buf ms))"

lemma shm_send_law:
  assumes "ring_holds r buf ms"
  shows "ring_holds r (snd (shm_send r m buf)) (if fst (shm_send r m buf) = Inr True then ms @ [m] else ms)"
proof -
  let ?c = "sr_capacity r"
  obtain h t where cap: "?c < 256 ^ 8" "length buf = 24 + ?c" and hd: "hdr buf = (?c, h, t)" "h < 256 ^ 8"
    and hs: "holds ?c t h buf ms" using assms by (auto simp: ring_holds_def)
  have th: "t \<le> h" using hs by (simp add: holds_def)
  show ?thesis
  proof (cases "length m < 256 ^ 4 \<and> length (enc m) \<le> ?c \<and> h - t + length (enc m) \<le> ?c")
    case False
    then have "fst (shm_send r m buf) \<noteq> Inr True" "snd (shm_send r m buf) = buf"
      using th hd(1) by (auto simp: shm_send_def frame_enc Let_def simp del: length_enc power_numeral)
    then show ?thesis using assms by simp
  next
    case True
    let ?b = "write_bytes ?c h (enc m) buf"
    have rd: "read_bytes ?c t (h - t + length (enc m)) ?b = read_bytes ?c t (h - t) buf @ enc m"
      using read_write [of buf ?c "h - t" "enc m" t] cap True th by simp
    moreover have "read_bytes ?c t (h - t + length (enc m)) ?b
        = read_bytes ?c t (h - t) ?b @ read_bytes ?c h (length (enc m)) ?b"
      using th by (simp only: read_bytes_add le_add_diff_inverse)
    ultimately have keep: "holds ?c t h ?b ms" and new: "read_bytes ?c h (length (enc m)) ?b = enc m"
      using hs by (simp_all add: holds_def)
    have snoc: "holds ?c t (h + length (enc m)) ?b (ms @ [m])"
      using holds_snoc [OF keep] True new by blast
    have sent: "shm_send r m buf =
      (case ring_set r (h + length (enc m)) t ?b of Inl e \<Rightarrow> (Inl e, ?b) | Inr b \<Rightarrow> (Inr True, b))"
      using True th hd(1) by (auto simp: shm_send_def frame_enc Let_def simp del: length_enc power_numeral)
    show ?thesis
    proof (cases "h + length (enc m) < 256 ^ 8")
      case True
      then have "shm_send r m buf = (Inr True, hdr_bytes ?c (h + length (enc m)) t @ drop 24 ?b)"
        using sent cap th by (simp add: ring_set_def hdr_size_def del: power_numeral)
      then show ?thesis
        using True cap th snoc
        by (simp add: ring_holds_def hdr_of_bytes holds_set del: power_numeral length_enc)
    next
      case False
      then have "shm_send r m buf = (Inl (struct_error ''argument out of range''), ?b)"
        using sent by (simp add: ring_set_def del: power_numeral)
      then show ?thesis using keep cap hd by (simp add: ring_holds_def)
    qed
  qed
qed

lemma shm_recv_empty: "ring_holds r buf [] \<Longrightarrow> shm_recv r buf = (Inr None, buf)"
  using holds_nil by (fastforce simp: ring_holds_def shm_recv_def)

lemma shm_recv_head:
  assumes "ring_holds r buf (m # ms)"
  shows "fst (shm_recv r buf) = Inr (Some m) \<and> ring_holds r (snd (shm_recv r buf)) ms"
proof -
  let ?c = "sr_capacity r"
  obtain h t where cap: "?c < 256 ^ 8" "length buf = 24 + ?c" and hd: "hdr buf = (?c, h, t)" "h < 256 ^ 8"
    and hs: "holds ?c t h buf (m # ms)" using assms by (auto simp: ring_holds_def)
  note head = holds_head [OF hs]
  have "?c \<noteq> 0" using hs head(1) by (auto simp: holds_def)
  moreover have "t + 4 + length m < 256 ^ 8" using head(1) hd(2) by linarith
  ultimately have "shm_recv r buf = (Inr (Some m), hdr_bytes ?c h (t + 4 + length m) @ drop 24 buf)"
    using head(1-3) hd cap(1) by (simp add: shm_recv_def ring_set_def hdr_size_def Let_def del: power_numeral)
  with \<open>t + 4 + length m < 256 ^ 8\<close> show ?thesis
    using head(4) cap hd by (simp add: ring_holds_def hdr_of_bytes holds_set del: power_numeral)
qed

interpretation ring: message_pipe "ring_holds r" "shm_send r" "shm_recv r" for r
  by unfold_locales (simp_all add: shm_send_law shm_recv_empty shm_recv_head)

lemma fresh_ring_holds: "cap < 256 ^ 8 \<Longrightarrow> sr_capacity r = cap \<Longrightarrow> ring_holds r (fresh_segment cap) []"
  using holds_empty [of cap 0] by (simp add: ring_holds_def fresh_segment_def hdr_of_bytes)

section \<open>No torn frames\<close>

text \<open>Between two positions the ring holds whole frames of payloads that were sent.\<close>

definition span :: "nat \<Rightarrow> byte list list \<Rightarrow> segment \<Rightarrow> nat \<Rightarrow> nat \<Rightarrow> bool" where
  "span cap sent buf t h = (\<exists>ms. holds cap t h buf ms \<and> set ms \<subseteq> set sent)"

fun producer_ok :: "nat \<Rightarrow> byte list list \<Rightarrow> segment \<Rightarrow> nat \<Rightarrow> nat \<Rightarrow> producer \<Rightarrow> bool" where
  "producer_ok c sent buf T H PIdle = True"
| "producer_ok c sent buf T H (PWrite cap h t f i) =
     (cap = c \<and> t \<le> T \<and> H \<le> h \<and> span c sent buf t h \<and> h - t + length f \<le> c \<and> i \<le> length f
      \<and> (\<exists>m. f = enc m \<and> length m < 256 ^ 4) \<and> read_bytes c h i buf = take i f)"

fun consumer_ok :: "nat \<Rightarrow> byte list list \<Rightarrow> segment \<Rightarrow> nat \<Rightarrow> nat \<Rightarrow> consumer \<Rightarrow> bool" where
  "consumer_ok c sent buf T H CIdle = True"
| "consumer_ok c sent buf T H (CLen cap h t lb) =
     (cap = c \<and> T \<le> t \<and> h \<le> H \<and> span c sent buf t h \<and> t + 4 \<le> h \<and> length lb \<le> 4
      \<and> lb = read_bytes c t (length lb) buf)"
| "consumer_ok c sent buf T H (CData cap h t n acc) =
     (cap = c \<and> T \<le> t \<and> h \<le> H \<and> span c sent buf t h \<and> t + 4 + n \<le> h \<and> length acc \<le> n
      \<and> le_value (read_bytes c t 4 buf) = n \<and> acc = read_bytes c (t + 4) (length acc) buf)"

definition pipe_inv :: "shm_ring \<Rightarrow> shm_pipe \<Rightarrow> bool" where
  "pipe_inv r s =
     (length (pi_buf s) = 24 + sr_capacity r \<and> set (pi_got s) \<subseteq> set (pi_sent s)
      \<and> (\<exists>h t. hdr (pi_buf s) = (sr_capacity r, h, t)
           \<and> span (sr_capacity r) (pi_sent s) (pi_buf s) t h
           \<and> producer_ok (sr_capacity r) (pi_sent s) (pi_buf s) t h (pi_producer s)
           \<and> consumer_ok (sr_capacity r) (pi_sent s) (pi_buf s) t h (pi_consumer s)))"

lemma span_le: "span c sent buf t h \<Longrightarrow> t \<le> h"
  by (auto simp: span_def holds_def)

lemma span_update:
  "span c sent buf t h \<Longrightarrow> h \<le> q \<Longrightarrow> q < t + c \<Longrightarrow> span c sent (buf[cell c q := b]) t h"
  using holds_update by (fastforce simp: span_def)

lemma span_set: "length buf = 24 + c \<Longrightarrow> span c sent (hdr_bytes x y z @ drop 24 buf) t h = span c sent buf t h"
  by (simp add: span_def holds_set)

lemma span_mono: "span c sent buf t h \<Longrightarrow> span c (sent @ more_sent) buf t h"
  by (auto simp: span_def)

lemma span_snoc:
  assumes "span c sent buf t h" and "length m < 256 ^ 4" and "h - t + length (enc m) \<le> c"
    and "read_bytes c h (length (enc m)) buf = enc m"
  shows "span c (sent @ [m]) buf t (h + length (enc m))"
proof -
  obtain ms where "holds c t h buf ms" "set ms \<subseteq> set sent" using assms(1) by (auto simp: span_def)
  with holds_snoc [OF _ assms(2-4)] show ?thesis
    by (auto simp: span_def intro!: exI [of _ "ms @ [m]"] simp del: length_enc)
qed

lemma span_head:
  assumes "span c sent buf t h" and "t < h"
  shows "\<exists>m. m \<in> set sent \<and> le_value (read_bytes c t 4 buf) = length m
    \<and> read_bytes c (t + 4) (length m) buf = m \<and> span c sent buf (t + 4 + length m) h"
proof -
  obtain ms where ms: "holds c t h buf ms" "set ms \<subseteq> set sent" using assms(1) by (auto simp: span_def)
  with assms(2) obtain m ms' where "ms = m # ms'" using holds_nil by (cases ms) auto
  with holds_head [of c t h buf m ms'] ms show ?thesis by (auto simp: span_def)
qed

lemma consumer_ok_update:
  assumes "consumer_ok c sent buf T H pc" and "H \<le> q" and "q < T + c"
  shows "consumer_ok c sent (buf[cell c q := b]) T H pc"
  using assms by (cases pc) (auto simp: span_update read_update)

lemma consumer_ok_set:
  assumes "consumer_ok c sent buf T H pc" and "length buf = 24 + c" and "T' \<le> T" and "H \<le> H'"
  shows "consumer_ok c (sent @ more_sent) (hdr_bytes x y z @ drop 24 buf) T' H' pc"
  using assms by (cases pc) (auto simp: span_set span_mono)

lemma producer_ok_set:
  assumes "producer_ok c sent buf T H pc" and "length buf = 24 + c" and "T \<le> T'" and "H' \<le> H"
  shows "producer_ok c sent (hdr_bytes x y z @ drop 24 buf) T' H' pc"
  using assms by (cases pc) (auto simp: span_set)

lemma ring_set_Inr:
  "ring_set r h t buf = Inr buf' \<Longrightarrow>
     buf' = hdr_bytes (sr_capacity r) h t @ drop 24 buf \<and> hdr buf' = (sr_capacity r, h, t)"
  by (auto simp: ring_set_def hdr_size_def hdr_of_bytes split: if_splits)

lemma produce_inv:
  assumes "pipe_inv r s"
  shows "pipe_inv r (produce r m s)"
proof -
  let ?c = "sr_capacity r"
  obtain H T where len: "length (pi_buf s) = 24 + ?c" and got: "set (pi_got s) \<subseteq> set (pi_sent s)"
    and hd: "hdr (pi_buf s) = (?c, H, T)" and sp: "span ?c (pi_sent s) (pi_buf s) T H"
    and prod: "producer_ok ?c (pi_sent s) (pi_buf s) T H (pi_producer s)"
    and cons: "consumer_ok ?c (pi_sent s) (pi_buf s) T H (pi_consumer s)"
    using assms by (auto simp: pipe_inv_def)
  show ?thesis
  proof (cases "pi_producer s")
    case PIdle
    then show ?thesis
      using len got hd sp prod cons span_le [OF sp]
      by (auto simp: produce_def pipe_inv_def frame_enc read_bytes_def Let_def simp del: length_enc power_numeral)
  next
    case (PWrite cap h t f i)
    with prod obtain m where f: "f = enc m" "length m < 256 ^ 4" and pw: "cap = ?c" "t \<le> T" "H \<le> h"
      "span ?c (pi_sent s) (pi_buf s) t h" "h - t + length f \<le> ?c" "i \<le> length f"
      "read_bytes ?c h i (pi_buf s) = take i f" by auto
    have th: "t \<le> h" using pw(4) by (rule span_le)
    show ?thesis
    proof (cases "i < length f")
      case True
      let ?b = "(pi_buf s)[cell ?c (h + i) := f ! i]"
      have q: "h + i < t + ?c" using True pw(5) th by linarith
      have "read_bytes ?c h (Suc i) ?b = take (Suc i) f"
        using read_extend [OF len, of i] True pw(5,7) by (simp add: take_Suc_conv_app_nth)
      then show ?thesis
        using True PWrite pw f q len got hd cons span_update [OF sp] span_update [OF pw(4)] consumer_ok_update [OF cons]
        by (auto simp: produce_def pipe_inv_def simp del: length_enc power_numeral)
    next
      case False
      with pw have i: "i = length f" by simp
      have full: "span ?c (pi_sent s @ [m]) (pi_buf s) t (h + length f)"
        using span_snoc [OF pw(4) f(2)] f(1) pw(5,7) i by simp
      show ?thesis
      proof (cases "ring_set r (h + length f) t (pi_buf s)")
        case (Inl e)
        then show ?thesis
          using PWrite False got hd sp cons len by (simp add: produce_def pipe_inv_def)
      next
        case (Inr b)
        note b = ring_set_Inr [OF Inr]
        have c: "consumer_ok ?c (pi_sent s @ [m]) b t (h + length f) (pi_consumer s)"
          using consumer_ok_set [OF cons len pw(2)] pw(3) b by simp
        have "produce r m' s = s\<lparr>pi_producer := PIdle, pi_buf := b, pi_sent := pi_sent s @ [m]\<rparr>" for m'
          using PWrite False Inr f(1) by (simp add: produce_def enc_def)
        then show ?thesis
          using c b full len got by (auto simp: pipe_inv_def span_set)
      qed
    qed
  qed
qed

lemma consume_inv:
  assumes "pipe_inv r s"
  shows "pipe_inv r (consume r s)"
proof -
  let ?c = "sr_capacity r"
  obtain H T where len: "length (pi_buf s) = 24 + ?c" and got: "set (pi_got s) \<subseteq> set (pi_sent s)"
    and hd: "hdr (pi_buf s) = (?c, H, T)" and sp: "span ?c (pi_sent s) (pi_buf s) T H"
    and prod: "producer_ok ?c (pi_sent s) (pi_buf s) T H (pi_producer s)"
    and cons: "consumer_ok ?c (pi_sent s) (pi_buf s) T H (pi_consumer s)"
    using assms by (auto simp: pipe_inv_def)
  show ?thesis
  proof (cases "pi_consumer s")
    case CIdle
    then show ?thesis
      using len got hd sp prod by (auto simp: consume_def pipe_inv_def read_bytes_def)
  next
    case (CLen cap h t lb)
    then show ?thesis
      using len got hd sp prod cons by (auto simp: consume_def pipe_inv_def read_bytes_Suc read_bytes_def [of _ _ 0])
  next
    case (CData cap h t n acc)
    with cons have cd: "cap = ?c" "T \<le> t" "h \<le> H" "span ?c (pi_sent s) (pi_buf s) t h" "t + 4 + n \<le> h"
      "length acc \<le> n" "le_value (read_bytes ?c t 4 (pi_buf s)) = n"
      "acc = read_bytes ?c (t + 4) (length acc) (pi_buf s)" by auto
    show ?thesis
    proof (cases "length acc < n")
      case True
      then show ?thesis
        using CData cd len got hd sp prod by (auto simp: consume_def pipe_inv_def read_bytes_Suc)
    next
      case False
      with cd(6) have n: "length acc = n" by simp
      have "t < h" using cd(5) by simp
      from span_head [OF cd(4) this, unfolded cd(7)] obtain m where
        m: "m \<in> set (pi_sent s)" "n = length m" "read_bytes ?c (t + 4) (length m) (pi_buf s) = m"
          "span ?c (pi_sent s) (pi_buf s) (t + 4 + length m) h" by blast
      then have acc: "acc = m" using cd(8) [unfolded n] by simp
      show ?thesis
      proof (cases "ring_set r h (t + 4 + n) (pi_buf s)")
        case (Inl e)
        then show ?thesis using CData False got hd sp prod len by (simp add: consume_def pipe_inv_def)
      next
        case (Inr b)
        note b = ring_set_Inr [OF Inr]
        have "producer_ok ?c (pi_sent s) b (t + 4 + n) h (pi_producer s)"
          using producer_ok_set [OF prod len] cd(2,3) b by simp
        moreover have "consume r s = s\<lparr>pi_consumer := CIdle, pi_buf := b, pi_got := pi_got s @ [m]\<rparr>"
          using CData False Inr acc by (simp add: consume_def)
        ultimately show ?thesis
          using b m len got by (auto simp: pipe_inv_def span_set)
      qed
    qed
  qed
qed

lemma pipe_runs_inv: "pipe_runs r s s' \<Longrightarrow> pipe_inv r s \<Longrightarrow> pipe_inv r s'"
  unfolding pipe_runs_def
  by (induction rule: rtranclp_induct) (auto elim!: pipe_step.cases intro: produce_inv consume_inv)

lemma fresh_pipe_inv:
  assumes "sr_capacity r < 256 ^ 8"
  shows "pipe_inv r (fresh_pipe (sr_capacity r))"
proof -
  have "hdr (fresh_segment (sr_capacity r)) = (sr_capacity r, 0, 0)"
    using assms by (simp add: fresh_segment_def hdr_of_bytes del: power_numeral)
  moreover have "span (sr_capacity r) [] (fresh_segment (sr_capacity r)) 0 0"
    using holds_empty by (auto simp: span_def intro!: exI [of _ "[]"])
  moreover have "length (fresh_segment (sr_capacity r)) = 24 + sr_capacity r"
    by (simp add: fresh_segment_def)
  ultimately show ?thesis by (simp add: pipe_inv_def fresh_pipe_def)
qed

section \<open>Properties\<close>

definition small_ring :: shm_ring where
  "small_ring = \<lparr>sr_capacity = 32, sr_name = ''psm'', sr_created = True\<rparr>"

text \<open>A run of the two processes by a schedule: \<open>Some m\<close> lets \<open>send(m)\<close> go on, \<open>None\<close> \<open>recv\<close>.\<close>

fun schedule :: "shm_ring \<Rightarrow> byte list option list \<Rightarrow> shm_pipe \<Rightarrow> shm_pipe" where
  "schedule r [] s = s"
| "schedule r (Some m # xs) s = schedule r xs (produce r m s)"
| "schedule r (None # xs) s = schedule r xs (consume r s)"

lemma schedule_runs: "pipe_runs r s (schedule r xs s)"
proof (induction r xs s rule: schedule.induct)
  case (1 r s)
  show ?case by (simp add: pipe_runs_def)
next
  case (2 r m xs s)
  then show ?case
    unfolding pipe_runs_def by (auto intro: converse_rtranclp_into_rtranclp pipe_step.producing)
next
  case (3 r xs s)
  then show ?case
    unfolding pipe_runs_def by (auto intro: converse_rtranclp_into_rtranclp pipe_step.consuming)
qed

text \<open>
  C7. Taking turns, the shared-memory ring is an exact bounded queue: for every sequence of
  sends and receives on a fresh ring of any capacity, with frames that wrap around its end,
  the messages received followed by those still in the ring are exactly the messages accepted,
  in order; a message that was refused, was too large or hit the end of the 64-bit positions
  leaves no trace.
\<close>

theorem shm_ring_fifo:
  assumes "sr_capacity r < 256 ^ 8"
    and "run_calls (shm_send r) (shm_recv r) calls (fresh_segment (sr_capacity r)) = (accepted, received, buf)"
  shows "\<exists>rest. ring_holds r buf rest \<and> accepted = received @ rest"
  using ring.calls_exact [OF fresh_ring_holds [OF assms(1) refl] assms(2)] by simp

theorem shm_ring_fifo_witness:
  "fst (snd (run_calls (shm_send small_ring) (shm_recv small_ring)
     [Send [1, 2, 3], Send [4], Recv, Send [5, 6], Recv, Recv, Recv] (fresh_segment 32))) = [[1, 2, 3], [4], [5, 6]]"
proof -
  let ?calls = "[Send [1, 2, 3], Send [4], Recv, Send [5, 6], Recv, Recv, Recv :: byte list pipe_call]"
  obtain acc got buf where run:
    "run_calls (shm_send small_ring) (shm_recv small_ring) ?calls (fresh_segment 32) = (acc, got, buf)"
    by (rule prod_cases3)
  have "fst (run_calls (shm_send small_ring) (shm_recv small_ring) ?calls (fresh_segment 32)) = [[1, 2, 3], [4], [5, 6]]"
    and "pending_bytes (snd (snd (run_calls (shm_send small_ring) (shm_recv small_ring) ?calls (fresh_segment 32)))) = 0"
    by code_simp+
  then have acc: "acc = [[1, 2, 3], [4], [5, 6]]" "pending_bytes buf = 0" using run by simp_all
  from shm_ring_fifo [of small_ring ?calls acc got buf] run obtain rest
    where rest: "ring_holds small_ring buf rest" "acc = got @ rest" by (auto simp: small_ring_def)
  then have "rest = []"
    using acc(2) by (cases rest) (auto simp: ring_holds_def pending_bytes_def dest!: holds_head(1))
  with rest(2) acc(1) run show ?thesis by simp
qed



text \<open>
  C30. The ring is not safe for a producer and a consumer that run at the same time, although it
  is documented to be: \<open>_set\<close> writes head and tail together, so each side writes back a
  stale copy of the other's position. There is an interleaving of one producer and one
  consumer after which a message has been delivered twice and another not at all, and one
  after which an accepted message is gone from an empty ring.
\<close>

theorem shm_ring_lost_update:
  "(\<exists>s. pipe_runs small_ring (fresh_pipe 32) s \<and> pi_sent s = [[1], [2]] \<and> pi_got s = [[1], [1]])
   \<and> (\<exists>s. pipe_runs small_ring (fresh_pipe 32) s \<and> pi_sent s = [[1], [2]] \<and> pi_got s = [[1]]
        \<and> pending_bytes (pi_buf s) = 0 \<and> pi_producer s = PIdle \<and> pi_consumer s = CIdle)"
proof
  let ?dup = "schedule small_ring (replicate 7 (Some [1]) @ [Some [2]] @ replicate 8 None
    @ replicate 6 (Some [2]) @ replicate 8 None) (fresh_pipe 32)"
  have "pi_sent ?dup = [[1], [2]]" "pi_got ?dup = [[1], [1]]" by code_simp+
  then show "\<exists>s. pipe_runs small_ring (fresh_pipe 32) s \<and> pi_sent s = [[1], [2]] \<and> pi_got s = [[1], [1]]"
    using schedule_runs by blast
  let ?lost = "schedule small_ring (replicate 7 (Some [1]) @ [None] @ replicate 7 (Some [2])
    @ replicate 7 None) (fresh_pipe 32)"
  have "pi_sent ?lost = [[1], [2]]" "pi_got ?lost = [[1]]" "pending_bytes (pi_buf ?lost) = 0"
    "pi_producer ?lost = PIdle" "pi_consumer ?lost = CIdle" by code_simp+
  then show "\<exists>s. pipe_runs small_ring (fresh_pipe 32) s \<and> pi_sent s = [[1], [2]] \<and> pi_got s = [[1]]
      \<and> pending_bytes (pi_buf s) = 0 \<and> pi_producer s = PIdle \<and> pi_consumer s = CIdle"
    using schedule_runs by blast
qed

end
