(* ===== verification/Refinement.thy ===== *)
theory Refinement
  imports Prelude
begin

text \<open>
  Functional refinement of one state machine by another: both take the same operations and
  give the same results, step by step. A component that implements an abstract specification
  interprets \<open>refines_spec\<close> and obtains that whole histories agree.
\<close>

primrec run_ops :: "('o \<Rightarrow> 's \<Rightarrow> 'r \<times> 's) \<Rightarrow> 'o list \<Rightarrow> 's \<Rightarrow> 'r list \<times> 's" where
  "run_ops step [] s = ([], s)"
| "run_ops step (x # xs) s =
     (let (r, s1) = step x s; (rs, s2) = run_ops step xs s1 in (r # rs, s2))"

locale refines_spec =
  fixes step :: "'o \<Rightarrow> 's \<Rightarrow> 'r \<times> 's"
    and spec_step :: "'o \<Rightarrow> 'a \<Rightarrow> 'r \<times> 'a"
    and abs_of :: "'s \<Rightarrow> 'a"
    and inv :: "'s \<Rightarrow> bool"
  assumes keeps: "inv s \<Longrightarrow> inv (snd (step x s))"
    and simulates: "inv s \<Longrightarrow> spec_step x (abs_of s) = (fst (step x s), abs_of (snd (step x s)))"
begin

lemma run_keeps: "inv s \<Longrightarrow> inv (snd (run_ops step xs s))"
proof (induction xs arbitrary: s)
  case (Cons x xs)
  with keeps [OF Cons.prems, of x] show ?case by (simp add: split_beta)
qed simp

lemma run_simulates:
  "inv s \<Longrightarrow> run_ops spec_step xs (abs_of s)
     = (fst (run_ops step xs s), abs_of (snd (run_ops step xs s)))"
proof (induction xs arbitrary: s)
  case (Cons x xs)
  with keeps [OF Cons.prems, of x] simulates [OF Cons.prems, of x] show ?case
    by (simp add: split_beta)
qed simp

end

lemma run_ops_append:
  "run_ops step (xs @ ys) s =
     (let (rs, s1) = run_ops step xs s; (qs, s2) = run_ops step ys s1 in (rs @ qs, s2))"
  by (induction xs arbitrary: s) (simp_all add: split_beta)

end
