(* ===== verification/Vmem.thy ===== *)
theory Vmem
  imports Py_Text Shm_Ring Refinement "HOL-Library.AList"
begin

text \<open>
  Demand paging (\<open>gcos/osprims/vmem.py\<close>): page bodies in a file-backed \<open>mmap\<close>, cut
  into slots of the hardware page size. \<open>page_out\<close> gives the physical pages back to the
  host with \<open>madvise\<close>, \<open>read\<close> touches them again.

  The mapping is a shared one of a regular file, so its bytes (\<open>vm_mem\<close>) are those of the
  file and an advice does not change them; whether an advice raises is an argument of the
  operations, and so are the fault counters of the process. The abstract specification is a
  finite map with a budget of slots; the store refines it (\<open>store_refines_map\<close>).
\<close>

section \<open>The store\<close>

record page_ref =
  pr_offset :: nat
  pr_length :: nat
  pr_slots :: nat
  pr_resident :: bool

record page_store =
  vm_page :: nat
  vm_capacity_bytes :: nat
  vm_path :: string
  vm_owns_path :: bool
  vm_closed :: bool
  vm_madv :: bool
  vm_next_off :: nat
  vm_pages :: "(string \<times> page_ref) list"
  vm_fault_ins :: nat
  vm_page_outs :: nat
  vm_base_min :: int
  vm_base_maj :: int
  vm_mem :: segment

text \<open>\<open>_madv_dontneed\<close>: the first advice the platform has; \<open>has\<close> tells which exist.\<close>

definition madv_dontneed :: "(string \<Rightarrow> bool) \<Rightarrow> string option" where
  "madv_dontneed has = find has [''MADV_DONTNEED'', ''MADV_FREE'', ''MADV_PAGEOUT'']"

text \<open>
  \<open>_self_faults\<close> on the text of \<open>/proc/self/stat\<close> (\<open>None\<close>: the file cannot be read).
  The name of the command may contain parentheses: the fields start after the last one.
\<close>

definition nth_int :: "string list \<Rightarrow> nat \<Rightarrow> int option" where
  "nth_int fs i =
     (if i < length fs then (case py_int (fs ! i) of Inl e \<Rightarrow> None | Inr n \<Rightarrow> Some n) else None)"

definition self_faults :: "string option \<Rightarrow> int \<times> int" where
  "self_faults stat =
     (case stat of
        None \<Rightarrow> (0, 0)
      | Some txt \<Rightarrow>
          (case after_last (CHR '')'') txt of
             None \<Rightarrow> (0, 0)
           | Some rest \<Rightarrow>
               (case (nth_int (str_split rest) 7, nth_int (str_split rest) 9) of
                  (Some mn, Some mj) \<Rightarrow> (mn, mj)
                | _ \<Rightarrow> (0, 0))))"

text \<open>
  \<open>MmapPageStore(capacity_pages, path)\<close>: where the construction can fail, and what it
  leaves of the files then. \<open>fresh\<close> is the name \<open>mkstemp\<close> makes up, \<open>stat\<close> the text of
  the fault counters.
\<close>

datatype init_fault = No_fault | Open_fails py_exc | Map_fails py_exc

definition store_init ::
  "nat \<Rightarrow> (string \<Rightarrow> bool) \<Rightarrow> string option \<Rightarrow> init_fault \<Rightarrow> string \<Rightarrow> int \<Rightarrow> string option \<Rightarrow> shm_fs
     \<Rightarrow> (py_exc + page_store) \<times> shm_fs" where
  "store_init page has stat fault fresh capacity_pages path fs =
     (let owns = (path = None);
          p = (case path of None \<Rightarrow> fresh | Some q \<Rightarrow> q);
          fs0 = (if owns then fs(p \<mapsto> []) else fs);
          cap = capacity_pages * int page;
          failed = (\<lambda>e f. (Inl e, if owns then f(p := None) else f))
      in case fault of
           Open_fails e \<Rightarrow> failed e fs0
         | _ \<Rightarrow>
             if cap < 0 then failed (OtherExc ''OSError'' ''[Errno 22] Invalid argument'') (fs0(p \<mapsto> []))
             else
               let fs1 = fs0(p \<mapsto> replicate (nat cap) 0)
               in case fault of
                    Map_fails e \<Rightarrow> failed e fs1
                  | _ \<Rightarrow>
                      if cap = 0 then failed (OtherExc ''ValueError'' ''cannot mmap an empty file'') fs1
                      else (Inr \<lparr>vm_page = page, vm_capacity_bytes = nat cap, vm_path = p, vm_owns_path = owns,
                                vm_closed = False, vm_madv = (madv_dontneed has \<noteq> None), vm_next_off = 0,
                                vm_pages = [], vm_fault_ins = 0, vm_page_outs = 0,
                                vm_base_min = fst (self_faults stat), vm_base_maj = snd (self_faults stat),
                                vm_mem = replicate (nat cap) 0\<rparr>, fs1))"

section \<open>Operations\<close>

definition slots_of :: "nat \<Rightarrow> nat \<Rightarrow> nat" where
  "slots_of page n = max 1 ((n + page - 1) div page)"

definition out_of_slots :: py_exc where
  "out_of_slots = OtherExc ''MemoryError'' ''MmapPageStore out of slots (raise capacity_pages)''"

definition mmap_closed :: py_exc where
  "mmap_closed = OtherExc ''ValueError'' ''mmap closed or invalid''"

text \<open>\<open>mm[off:off + len(data)] = data\<close>.\<close>

definition splice :: "nat \<Rightarrow> 'a list \<Rightarrow> 'a list \<Rightarrow> 'a list" where
  "splice off d mem = take off mem @ d @ drop (off + length d) mem"

definition vm_store :: "string \<Rightarrow> byte list \<Rightarrow> page_store \<Rightarrow> (py_exc + page_ref) \<times> page_store" where
  "vm_store key d s =
     (let slots = slots_of (vm_page s) (length d);
          need = slots * vm_page s
      in if vm_capacity_bytes s < vm_next_off s + need then (Inl out_of_slots, s)
         else
           let off = vm_next_off s;
               s1 = s\<lparr>vm_next_off := off + need\<rparr>;
               ref = \<lparr>pr_offset = off, pr_length = length d, pr_slots = slots, pr_resident = True\<rparr>
           in if vm_closed s then (Inl mmap_closed, s1)
              else (Inr ref, s1\<lparr>vm_mem := splice off d (vm_mem s1), vm_pages := AList.update key ref (vm_pages s1)\<rparr>))"

text \<open>
  \<open>page_out\<close>, with the advice it gives the host (an offset and a length). A failing
  \<open>madvise\<close> is logged and has no other effect.
\<close>

definition vm_page_out :: "string \<Rightarrow> page_store \<Rightarrow> bool \<times> page_store \<times> (nat \<times> nat) option" where
  "vm_page_out key s =
     (case map_of (vm_pages s) key of
        None \<Rightarrow> (False, s, None)
      | Some ref \<Rightarrow>
          if \<not> pr_resident ref then (False, s, None)
          else (True,
                s\<lparr>vm_pages := AList.update key (ref\<lparr>pr_resident := False\<rparr>) (vm_pages s),
                  vm_page_outs := vm_page_outs s + 1\<rparr>,
                if vm_madv s then Some (pr_offset ref, pr_slots ref * vm_page s) else None))"

definition vm_read :: "string \<Rightarrow> page_store \<Rightarrow> (py_exc + byte list) \<times> page_store" where
  "vm_read key s =
     (case map_of (vm_pages s) key of
        None \<Rightarrow> (Inl (OtherExc ''KeyError'' (py_repr key)), s)
      | Some ref \<Rightarrow>
          let s1 = (if pr_resident ref then s
                    else s\<lparr>vm_fault_ins := vm_fault_ins s + 1,
                           vm_pages := AList.update key (ref\<lparr>pr_resident := True\<rparr>) (vm_pages s)\<rparr>)
          in if vm_closed s then (Inl mmap_closed, s1)
             else (Inr (take (pr_length ref) (drop (pr_offset ref) (vm_mem s1))), s1))"

definition resident_pages :: "page_store \<Rightarrow> nat" where
  "resident_pages s = length (filter (\<lambda>p. pr_resident (snd p)) (vm_pages s))"

record fault_row =
  fr_pages_tracked :: nat
  fr_resident :: nat
  fr_app_page_outs :: nat
  fr_app_fault_ins :: nat
  fr_kernel_minflt_delta :: int
  fr_kernel_majflt_delta :: int
  fr_page_size :: nat

definition fault_stats :: "string option \<Rightarrow> page_store \<Rightarrow> fault_row" where
  "fault_stats stat s =
     (let (cur_min, cur_maj) = self_faults stat
      in \<lparr>fr_pages_tracked = length (vm_pages s), fr_resident = resident_pages s,
          fr_app_page_outs = vm_page_outs s, fr_app_fault_ins = vm_fault_ins s,
          fr_kernel_minflt_delta = max 0 (cur_min - vm_base_min s),
          fr_kernel_majflt_delta = max 0 (cur_maj - vm_base_maj s), fr_page_size = vm_page s\<rparr>)"

text \<open>
  \<open>close\<close>. Closing the map again does nothing, closing the descriptor again raises before
  the file is removed.
\<close>

definition vm_close :: "page_store \<Rightarrow> shm_fs \<Rightarrow> py_exc option \<times> page_store \<times> shm_fs" where
  "vm_close s fs =
     (if vm_closed s then (Some (OtherExc ''OSError'' ''[Errno 9] Bad file descriptor''), s, fs)
      else (None, s\<lparr>vm_closed := True\<rparr>,
            if vm_owns_path s then fs(vm_path s := None) else fs(vm_path s \<mapsto> vm_mem s)))"

section \<open>The specification: a finite map with a budget\<close>

datatype vm_op = Store string "byte list" | Page_out string | Read string

datatype vm_result = Stored | Full | Evicted bool | Content "byte list" | Missing string

text \<open>\<open>pm_out\<close> are the keys whose pages have been given back to the host.\<close>

record page_map =
  pm_page :: nat
  pm_slots :: nat
  pm_used :: nat
  pm_contents :: "string \<rightharpoonup> byte list"
  pm_out :: "string set"

fun pm_do :: "vm_op \<Rightarrow> page_map \<Rightarrow> vm_result \<times> page_map" where
  "pm_do (Store k d) m =
     (let n = slots_of (pm_page m) (length d)
      in if pm_slots m < pm_used m + n then (Full, m)
         else (Stored, m\<lparr>pm_used := pm_used m + n, pm_contents := (pm_contents m)(k \<mapsto> d), pm_out := pm_out m - {k}\<rparr>))"
| "pm_do (Page_out k) m =
     (if k \<in> dom (pm_contents m) - pm_out m then (Evicted True, m\<lparr>pm_out := insert k (pm_out m)\<rparr>)
      else (Evicted False, m))"
| "pm_do (Read k) m =
     (case pm_contents m k of
        None \<Rightarrow> (Missing (py_repr k), m)
      | Some d \<Rightarrow> (Content d, m\<lparr>pm_out := pm_out m - {k}\<rparr>))"

definition fresh_map :: "nat \<Rightarrow> nat \<Rightarrow> page_map" where
  "fresh_map page slots =
     \<lparr>pm_page = page, pm_slots = slots, pm_used = 0, pm_contents = Map.empty, pm_out = {}\<rparr>"

fun vm_do :: "vm_op \<Rightarrow> page_store \<Rightarrow> vm_result \<times> page_store" where
  "vm_do (Store k d) s = (case vm_store k d s of (Inl e, s') \<Rightarrow> (Full, s') | (Inr r, s') \<Rightarrow> (Stored, s'))"
| "vm_do (Page_out k) s = (case vm_page_out k s of (b, s', adv) \<Rightarrow> (Evicted b, s'))"
| "vm_do (Read k) s =
     (case vm_read k s of (Inl e, s') \<Rightarrow> (Missing (exc_str e), s') | (Inr d, s') \<Rightarrow> (Content d, s'))"

definition page_body :: "page_store \<Rightarrow> page_ref \<Rightarrow> byte list" where
  "page_body s r = take (pr_length r) (drop (pr_offset r) (vm_mem s))"

definition vm_abs :: "page_store \<Rightarrow> page_map" where
  "vm_abs s =
     \<lparr>pm_page = vm_page s, pm_slots = vm_capacity_bytes s div vm_page s,
      pm_used = vm_next_off s div vm_page s,
      pm_contents = (\<lambda>k. map_option (page_body s) (map_of (vm_pages s) k)),
      pm_out = {k. \<exists>r. map_of (vm_pages s) k = Some r \<and> \<not> pr_resident r}\<rparr>"

text \<open>A page owns whole slots below the next offset; the bytes of two pages never overlap.\<close>

definition ref_ok :: "page_store \<Rightarrow> page_ref \<Rightarrow> bool" where
  "ref_ok s r \<longleftrightarrow> vm_page s dvd pr_offset r \<and> pr_length r \<le> pr_slots r * vm_page s
     \<and> pr_offset r + pr_slots r * vm_page s \<le> vm_next_off s"

definition apart :: "nat \<Rightarrow> page_ref \<Rightarrow> page_ref \<Rightarrow> bool" where
  "apart page r q \<longleftrightarrow> pr_offset r + pr_slots r * page \<le> pr_offset q \<or> pr_offset q + pr_slots q * page \<le> pr_offset r"

definition vm_geometry :: "page_store \<Rightarrow> bool" where
  "vm_geometry s \<longleftrightarrow> 0 < vm_page s \<and> vm_page s dvd vm_capacity_bytes s \<and> vm_page s dvd vm_next_off s
     \<and> vm_next_off s \<le> vm_capacity_bytes s \<and> length (vm_mem s) = vm_capacity_bytes s \<and> \<not> vm_closed s"

definition vm_inv :: "page_store \<Rightarrow> bool" where
  "vm_inv s \<longleftrightarrow> vm_geometry s
     \<and> (\<forall>k r. map_of (vm_pages s) k = Some r \<longrightarrow> ref_ok s r)
     \<and> (\<forall>k r j q. map_of (vm_pages s) k = Some r \<and> map_of (vm_pages s) j = Some q \<and> k \<noteq> j
           \<longrightarrow> apart (vm_page s) r q)
     \<and> distinct (map fst (vm_pages s))
     \<and> vm_fault_ins s + length (filter (\<lambda>p. \<not> pr_resident (snd p)) (vm_pages s)) \<le> vm_page_outs s"

section \<open>Lemmas\<close>

lemma slots_cover:
  assumes "0 < page"
  shows "n \<le> slots_of page n * page" "0 < slots_of page n"
proof -
  have "n + page - 1 < (n + page - 1) div page * page + page"
    using assms by (metis add.commute div_mult_mod_eq mod_less_divisor nat_add_left_cancel_less)
  then have "n \<le> (n + page - 1) div page * page" by linarith
  also have "\<dots> \<le> slots_of page n * page" by (simp add: slots_of_def)
  finally show "n \<le> slots_of page n * page" .
qed (simp add: slots_of_def)

lemma length_splice: "off + length d \<le> length mem \<Longrightarrow> length (splice off d mem) = length mem"
  by (simp add: splice_def)

lemma splice_before: "off' + n \<le> off \<Longrightarrow> off \<le> length mem \<Longrightarrow> take n (drop off' (splice off d mem)) = take n (drop off' mem)"
  by (simp add: splice_def drop_take min_absorb1)

lemma splice_at: "off \<le> length mem \<Longrightarrow> take (length d) (drop off (splice off d mem)) = d"
  by (simp add: splice_def)

lemma keys_update: "distinct (map fst al) \<Longrightarrow> distinct (map fst (AList.update k v al))"
  by (rule distinct_update)

text \<open>How an update of one entry changes the number of entries with a property.\<close>

lemma count_update:
  assumes "distinct (map fst al)"
  shows "length (filter (\<lambda>p. P (snd p)) (AList.update k v al))
      + (case map_of al k of None \<Rightarrow> 0 | Some u \<Rightarrow> if P u then 1 else 0)
    = length (filter (\<lambda>p. P (snd p)) al) + (if P v then 1 else 0)"
  using assms by (induction al) (auto split: option.splits dest: map_of_SomeD)


lemma vm_inv_parts:
  assumes "vm_inv s"
  shows "vm_geometry s" "distinct (map fst (vm_pages s))"
    and "map_of (vm_pages s) k = Some r \<Longrightarrow> ref_ok s r"
    and "map_of (vm_pages s) k = Some r \<Longrightarrow> map_of (vm_pages s) j = Some q \<Longrightarrow> k \<noteq> j \<Longrightarrow> apart (vm_page s) r q"
    and "vm_fault_ins s + length (filter (\<lambda>p. \<not> pr_resident (snd p)) (vm_pages s)) \<le> vm_page_outs s"
  using assms unfolding vm_inv_def by (blast+)

text \<open>Marking a page as resident or not keeps its place.\<close>

definition mark :: "string \<Rightarrow> page_ref \<Rightarrow> bool \<Rightarrow> page_store \<Rightarrow> page_store" where
  "mark k r b s = s\<lparr>vm_pages := AList.update k (r\<lparr>pr_resident := b\<rparr>) (vm_pages s)\<rparr>"

lemma mark_inv:
  assumes s: "vm_inv s" "map_of (vm_pages s) k = Some r" and b: "pr_resident r \<noteq> b"
    and outs: "outs = (if b then vm_page_outs s else vm_page_outs s + 1)"
    and ins: "ins = (if b then vm_fault_ins s + 1 else vm_fault_ins s)"
  shows "vm_inv ((mark k r b s)\<lparr>vm_fault_ins := ins, vm_page_outs := outs\<rparr>)" (is "vm_inv ?s")
proof -
  have origin: "\<exists>q0. map_of (vm_pages s) j = Some q0 \<and> pr_offset q = pr_offset q0 \<and> pr_slots q = pr_slots q0
      \<and> pr_length q = pr_length q0" if "map_of (vm_pages ?s) j = Some q" for j q
    using that s(2) by (auto simp: mark_def update_conv' split: if_splits)
  have "vm_geometry ?s" using vm_inv_parts(1) [OF s(1)] by (simp add: vm_geometry_def mark_def)
  moreover have "ref_ok ?s q" if q: "map_of (vm_pages ?s) j = Some q" for j q
  proof -
    from origin [OF q] obtain q0 where q0: "map_of (vm_pages s) j = Some q0" "pr_offset q = pr_offset q0"
      "pr_slots q = pr_slots q0" "pr_length q = pr_length q0" by blast
    from vm_inv_parts(3) [OF s(1) q0(1)] q0(2-4) show ?thesis by (simp add: ref_ok_def mark_def)
  qed
  moreover have "apart (vm_page ?s) q p"
    if qp: "map_of (vm_pages ?s) j = Some q \<and> map_of (vm_pages ?s) i = Some p \<and> j \<noteq> i" for j i q p
  proof -
    from origin [of j q] origin [of i p] qp obtain q0 p0 where
      q0: "map_of (vm_pages s) j = Some q0" "pr_offset q = pr_offset q0" "pr_slots q = pr_slots q0"
      and p0: "map_of (vm_pages s) i = Some p0" "pr_offset p = pr_offset p0" "pr_slots p = pr_slots p0" by blast
    from vm_inv_parts(4) [OF s(1) q0(1) p0(1)] q0 p0 qp show ?thesis by (simp add: apart_def mark_def)
  qed
  moreover have "distinct (map fst (vm_pages ?s))"
    using vm_inv_parts(2) [OF s(1)] by (simp add: mark_def keys_update)
  moreover have "vm_fault_ins ?s + length (filter (\<lambda>p. \<not> pr_resident (snd p)) (vm_pages ?s)) \<le> vm_page_outs ?s"
    using count_update [OF vm_inv_parts(2) [OF s(1)], of "\<lambda>r. \<not> pr_resident r" k "r\<lparr>pr_resident := b\<rparr>"]
      vm_inv_parts(5) [OF s(1)] s(2) b outs ins
    by (auto simp: mark_def split: if_splits)
  ultimately show ?thesis unfolding vm_inv_def by blast
qed

lemma mark_abs:
  assumes "map_of (vm_pages s) k = Some r"
  shows "vm_abs ((mark k r b s)\<lparr>vm_fault_ins := ins, vm_page_outs := outs\<rparr>)
    = (vm_abs s)\<lparr>pm_out := (if b then pm_out (vm_abs s) - {k} else insert k (pm_out (vm_abs s)))\<rparr>"
  using assms by (auto simp: vm_abs_def mark_def update_conv' page_body_def [abs_def] fun_eq_iff)

text \<open>Storing takes the slots at the next offset.\<close>

lemma store_full:
  assumes "vm_geometry s"
  shows "vm_capacity_bytes s < vm_next_off s + n * vm_page s
    \<longleftrightarrow> vm_capacity_bytes s div vm_page s < vm_next_off s div vm_page s + n"
proof -
  from assms obtain c o' where "vm_capacity_bytes s = vm_page s * c" "vm_next_off s = vm_page s * o'" "0 < vm_page s"
    unfolding vm_geometry_def by (auto elim!: dvdE)
  moreover have "p * c < p * m + n * p \<longleftrightarrow> c < m + n" if "0 < p" for p c m n :: nat
    using that by (metis add_mult_distrib2 mult.commute nat_mult_less_cancel1)
  ultimately show ?thesis by simp
qed

lemma store_inv_abs:
  assumes s: "vm_inv s" and st: "vm_store k d s = (Inr ref, s')"
  shows "vm_inv s'" and "pm_do (Store k d) (vm_abs s) = (Stored, vm_abs s')"
proof -
  let ?n = "slots_of (vm_page s) (length d)"
  note g = vm_inv_parts(1) [OF s, unfolded vm_geometry_def]
  have fits: "vm_next_off s + ?n * vm_page s \<le> vm_capacity_bytes s"
    and ref: "ref = \<lparr>pr_offset = vm_next_off s, pr_length = length d, pr_slots = ?n, pr_resident = True\<rparr>"
    and s': "s' = s\<lparr>vm_next_off := vm_next_off s + ?n * vm_page s, vm_mem := splice (vm_next_off s) d (vm_mem s),
                    vm_pages := AList.update k ref (vm_pages s)\<rparr>"
    using st by (auto simp: vm_store_def Let_def split: if_splits)
  have cover: "length d \<le> ?n * vm_page s" using slots_cover(1) g by blast
  have old: "pr_offset r + pr_length r \<le> vm_next_off s \<and> pr_offset r + pr_slots r * vm_page s \<le> vm_next_off s"
    if "map_of (vm_pages s) j = Some r" for j r
    using vm_inv_parts(3) [OF s that] by (auto simp: ref_ok_def)
  have "vm_geometry s'" using g fits cover by (simp add: vm_geometry_def s' length_splice)
  moreover have "ref_ok s' r" if "map_of (vm_pages s') j = Some r" for j r
    using that vm_inv_parts(3) [OF s, of j r] g cover
    by (auto simp: s' ref update_conv' ref_ok_def split: if_splits)
  moreover have "apart (vm_page s') r q"
    if "map_of (vm_pages s') j = Some r \<and> map_of (vm_pages s') i = Some q \<and> j \<noteq> i" for j r i q
    using that vm_inv_parts(4) [OF s, of j r i q] old [of j r] old [of i q]
    by (auto simp: s' ref update_conv' apart_def split: if_splits)
  moreover have "distinct (map fst (vm_pages s'))"
    using vm_inv_parts(2) [OF s] by (simp add: s' keys_update)
  moreover have "vm_fault_ins s' + length (filter (\<lambda>p. \<not> pr_resident (snd p)) (vm_pages s')) \<le> vm_page_outs s'"
    using count_update [OF vm_inv_parts(2) [OF s], of "\<lambda>r. \<not> pr_resident r" k ref] vm_inv_parts(5) [OF s]
    by (simp add: s' ref)
  ultimately show "vm_inv s'" unfolding vm_inv_def by blast
  have body: "page_body s' r = page_body s r" if "map_of (vm_pages s) j = Some r" for j r
    using old [OF that] g by (simp add: page_body_def s' splice_before)
  have "page_body s' ref = d" using g by (simp add: page_body_def s' ref splice_at)
  with body have "pm_contents (vm_abs s') = (pm_contents (vm_abs s))(k \<mapsto> d)"
    by (auto simp: vm_abs_def s' update_conv' fun_eq_iff option.map_comp intro!: option.map_cong)
  moreover have "vm_next_off s' div vm_page s = vm_next_off s div vm_page s + ?n" using g by (simp add: s')
  moreover have "pm_out (vm_abs s') = pm_out (vm_abs s) - {k}"
    by (auto simp: vm_abs_def s' ref update_conv' split: if_splits)
  moreover have "\<not> vm_capacity_bytes s div vm_page s < vm_next_off s div vm_page s + ?n"
    using store_full [OF vm_inv_parts(1) [OF s], of ?n] fits by simp
  ultimately show "pm_do (Store k d) (vm_abs s) = (Stored, vm_abs s')"
    by (simp add: Let_def vm_abs_def s')
qed

lemma abs_lookup:
  "pm_contents (vm_abs s) k = map_option (page_body s) (map_of (vm_pages s) k)"
  "k \<in> pm_out (vm_abs s) \<longleftrightarrow> (\<exists>r. map_of (vm_pages s) k = Some r \<and> \<not> pr_resident r)"
  by (simp_all add: vm_abs_def)

lemma vm_simulates:
  assumes "vm_inv s"
  shows "vm_inv (snd (vm_do x s)) \<and> pm_do x (vm_abs s) = (fst (vm_do x s), vm_abs (snd (vm_do x s)))"
proof (cases x)
  case (Store k d)
  have open_s: "\<not> vm_closed s" using vm_inv_parts(1) [OF assms] by (simp add: vm_geometry_def)
  show ?thesis
  proof (cases "vm_store k d s")
    case (Pair r s')
    show ?thesis
    proof (cases r)
      case (Inl e)
      with Pair open_s have "s' = s" "vm_capacity_bytes s < vm_next_off s + slots_of (vm_page s) (length d) * vm_page s"
        by (auto simp: vm_store_def Let_def split: if_splits)
      then show ?thesis using assms store_full [OF vm_inv_parts(1) [OF assms]] Pair Inl Store
        by (simp add: Let_def vm_abs_def)
    next
      case (Inr ref)
      then show ?thesis using store_inv_abs [OF assms] Pair Store by simp
    qed
  qed
next
  case (Page_out k)
  show ?thesis
  proof (cases "\<exists>r. map_of (vm_pages s) k = Some r \<and> pr_resident r")
    case True
    then obtain r where r: "map_of (vm_pages s) k = Some r" "pr_resident r" by blast
    then have "snd (vm_do x s) = (mark k r False s)\<lparr>vm_fault_ins := vm_fault_ins s, vm_page_outs := vm_page_outs s + 1\<rparr>"
      and res: "fst (vm_do x s) = Evicted True"
      by (simp_all add: Page_out vm_page_out_def mark_def)
    with mark_inv [OF assms r(1), where b = False] mark_abs [OF r(1), where b = False] r show ?thesis
      by (simp add: Page_out abs_lookup dom_def)
  qed (auto simp: Page_out vm_page_out_def vm_abs_def assms split: option.splits)
next
  case (Read k)
  have open_s: "\<not> vm_closed s" using vm_inv_parts(1) [OF assms] by (simp add: vm_geometry_def)
  show ?thesis
  proof (cases "\<exists>r. map_of (vm_pages s) k = Some r \<and> \<not> pr_resident r")
    case True
    then obtain r where r: "map_of (vm_pages s) k = Some r" "\<not> pr_resident r" by blast
    then have "snd (vm_do x s) = (mark k r True s)\<lparr>vm_fault_ins := vm_fault_ins s + 1, vm_page_outs := vm_page_outs s\<rparr>"
      and "fst (vm_do x s) = Content (page_body s r)"
      using open_s by (simp_all add: Read vm_read_def mark_def Let_def page_body_def)
    with mark_inv [OF assms r(1), where b = True] mark_abs [OF r(1), where b = True] r show ?thesis
      by (simp add: Read abs_lookup)
  qed (use open_s in \<open>auto simp: Read vm_read_def vm_abs_def assms Let_def page_body_def split: option.splits\<close>)
qed

interpretation vm: refines_spec vm_do pm_do vm_abs vm_inv
  using vm_simulates by unfold_locales auto

lemma store_init_inv:
  assumes "store_init page has stat fault fresh n path fs = (Inr s, fs')" and "0 < page"
  shows "vm_inv s" "vm_abs s = fresh_map page (nat n)" "vm_page s = page" "vm_capacity_bytes s = nat n * page"
proof -
  have s: "0 < n * int page" "s = \<lparr>vm_page = page, vm_capacity_bytes = nat (n * int page),
      vm_path = (case path of None \<Rightarrow> fresh | Some q \<Rightarrow> q), vm_owns_path = (path = None),
      vm_closed = False, vm_madv = (madv_dontneed has \<noteq> None), vm_next_off = 0,
      vm_pages = [], vm_fault_ins = 0, vm_page_outs = 0,
      vm_base_min = fst (self_faults stat), vm_base_maj = snd (self_faults stat),
      vm_mem = replicate (nat (n * int page)) 0\<rparr>"
    using assms(1) by (auto simp: store_init_def Let_def mult_less_0_iff zero_less_mult_iff split: init_fault.splits if_splits)
  have n: "nat (n * int page) = nat n * page"
    using s(1) assms(2) by (simp add: nat_mult_distrib zero_less_mult_iff)
  show "vm_inv s" "vm_abs s = fresh_map page (nat n)" "vm_page s = page" "vm_capacity_bytes s = nat n * page"
    using assms(2) unfolding s(2) n
    by (simp_all add: vm_inv_def vm_geometry_def vm_abs_def fresh_map_def fun_eq_iff)
qed

lemma page_out_region:
  assumes "vm_inv s" "vm_page_out k s = (b, s', Some (off, n))"
  shows "vm_page s dvd off \<and> vm_page s dvd n \<and> off + n \<le> vm_capacity_bytes s"
proof -
  from assms(2) obtain r where r: "map_of (vm_pages s) k = Some r" "off = pr_offset r" "n = pr_slots r * vm_page s"
    by (auto simp: vm_page_out_def split: option.splits if_splits)
  from vm_inv_parts(3) [OF assms(1) r(1)] vm_inv_parts(1) [OF assms(1)] r(2,3) show ?thesis
    by (simp add: ref_ok_def vm_geometry_def)
qed

lemma tracked_split:
  "length (filter (\<lambda>p. \<not> pr_resident (snd p)) (vm_pages s)) + resident_pages s = length (vm_pages s)"
  unfolding resident_pages_def using sum_length_filter_compl [of "\<lambda>p. pr_resident (snd p)" "vm_pages s"] by linarith

section \<open>Properties\<close>

text \<open>
  C11. The page store implements its specification on every history of calls: after any sequence of
  \<open>store\<close>, \<open>page_out\<close> and \<open>read\<close> calls on a new store every call has returned what a finite
  map with \<open>capacity_pages\<close> slots returns, so a read gives back exactly the bytes last stored
  under the key, paged out or not, an unknown key raises \<open>KeyError\<close> with its name, and a store is refused
  exactly when its slots do not fit. Slots are never reused: storing under a key again takes
  new ones.
\<close>

theorem vmem_refines_map:
  assumes "store_init page has stat fault fresh n path fs = (Inr s, fs')" and "0 < page"
  shows "run_ops pm_do ops (fresh_map page (nat n))
    = (fst (run_ops vm_do ops s), vm_abs (snd (run_ops vm_do ops s)))"
  using vm.run_simulates [OF store_init_inv(1) [OF assms], of ops] store_init_inv(2) [OF assms] by simp

theorem vmem_refines_map_witness:
  "fst (run_ops vm_do
      [Store ''a'' [1, 2, 3, 4, 5], Page_out ''a'', Page_out ''a'', Read ''a'', Store ''a'' [7], Read ''a'', Store ''b'' []]
      (projr (fst (store_init 4 (\<lambda>_. True) None No_fault ''t'' 3 None Map.empty))))
   = [Stored, Evicted True, Evicted False, Content [1, 2, 3, 4, 5], Stored, Content [7], Full]"
proof -
  have i: "store_init 4 (\<lambda>_. True) None No_fault ''t'' 3 None Map.empty
      = (Inr (projr (fst (store_init 4 (\<lambda>_. True) None No_fault ''t'' 3 None Map.empty))),
         snd (store_init 4 (\<lambda>_. True) None No_fault ''t'' 3 None Map.empty))"
    by (simp add: store_init_def Let_def)
  have "fst (run_ops pm_do [Store ''a'' [1, 2, 3, 4, 5], Page_out ''a'', Page_out ''a'', Read ''a'',
       Store ''a'' [7], Read ''a'', Store ''b'' []] (fresh_map 4 (nat 3)))
     = [Stored, Evicted True, Evicted False, Content [1, 2, 3, 4, 5], Stored, Content [7], Full]"
    by (simp add: fresh_map_def slots_of_def)
  then show ?thesis by (simp only: vmem_refines_map [OF i zero_less_numeral] fst_conv)
qed

text \<open>
  In every state of a page store the pages occupy whole slots inside the region and no two of
  them share a byte, the advice \<open>page_out\<close> gives the host covers whole pages inside the region,
  and the statistics are consistent: fault-ins and pages that are out never exceed the page-outs.
\<close>

theorem vmem_pages_apart:
  assumes "store_init page has stat fault fresh n path fs = (Inr s0, fs')" and "0 < page"
    and "s = snd (run_ops vm_do ops s0)"
  shows "(\<forall>k r. map_of (vm_pages s) k = Some r \<longrightarrow>
            page dvd pr_offset r \<and> pr_length r \<le> pr_slots r * page \<and> pr_offset r + pr_slots r * page \<le> nat n * page)
    \<and> (\<forall>k r j q. map_of (vm_pages s) k = Some r \<and> map_of (vm_pages s) j = Some q \<and> k \<noteq> j \<longrightarrow> apart page r q)
    \<and> (\<forall>k b t off len. vm_page_out k s = (b, t, Some (off, len)) \<longrightarrow> page dvd off \<and> page dvd len \<and> off + len \<le> nat n * page)
    \<and> fr_app_fault_ins (fault_stats stat' s) + (fr_pages_tracked (fault_stats stat' s) - fr_resident (fault_stats stat' s))
        \<le> fr_app_page_outs (fault_stats stat' s)"
proof -
  have inv: "vm_inv s" unfolding assms(3) by (rule vm.run_keeps [OF store_init_inv(1) [OF assms(1,2)]])
  have "vm_abs s = snd (run_ops pm_do ops (fresh_map page (nat n)))"
    using vm.run_simulates [OF store_init_inv(1) [OF assms(1,2)], of ops] store_init_inv(2) [OF assms(1,2)] assms(3)
    by simp
  moreover have "pm_page (snd (run_ops pm_do ops m)) = pm_page m \<and> pm_slots (snd (run_ops pm_do ops m)) = pm_slots m" for m
  proof (induction ops arbitrary: m)
    case (Cons x xs)
    have "pm_page (snd (pm_do x m)) = pm_page m \<and> pm_slots (snd (pm_do x m)) = pm_slots m"
      by (cases x) (auto simp: Let_def split: option.splits)
    with Cons [of "snd (pm_do x m)"] show ?case by (simp add: split_beta)
  qed simp
  ultimately have m: "pm_page (vm_abs s) = page" "pm_slots (vm_abs s) = nat n" by (simp_all add: fresh_map_def)
  from m have "vm_page s = page" "vm_capacity_bytes s div vm_page s = nat n" by (simp_all add: vm_abs_def)
  moreover note g = vm_inv_parts(1) [OF inv, unfolded vm_geometry_def]
  ultimately have geo: "vm_page s = page" "vm_capacity_bytes s = nat n * page" "vm_next_off s \<le> nat n * page"
    using dvd_div_mult_self [of "vm_page s" "vm_capacity_bytes s"] by auto
  have stats: "vm_fault_ins s + (length (vm_pages s) - resident_pages s) \<le> vm_page_outs s"
    using vm_inv_parts(5) [OF inv] tracked_split [of s] by linarith
  have refs: "page dvd pr_offset r \<and> pr_length r \<le> pr_slots r * page \<and> pr_offset r + pr_slots r * page \<le> nat n * page"
    if "map_of (vm_pages s) k = Some r" for k r
    using vm_inv_parts(3) [OF inv that] geo by (auto simp: ref_ok_def)
  show ?thesis
    using refs vm_inv_parts(4) [OF inv] page_out_region [OF inv] geo(1,2) stats
    by (auto simp: fault_stats_def split_beta)
qed

theorem vmem_pages_apart_witness:
  "\<exists>t len. vm_page_out ''b'' (snd (run_ops vm_do [Store ''a'' [1, 2, 3, 4, 5], Store ''b'' [7]]
      (projr (fst (store_init 4 (\<lambda>_. True) None No_fault ''t'' 3 None Map.empty))))) = (True, t, Some (8, len))
     \<and> 8 + len \<le> nat 3 * 4"
proof -
  let ?i = "store_init 4 (\<lambda>_. True) None No_fault ''t'' 3 None Map.empty"
  let ?s = "snd (run_ops vm_do [Store ''a'' [1, 2, 3, 4, 5], Store ''b'' [7]] (projr (fst ?i)))"
  have i: "?i = (Inr (projr (fst ?i)), snd ?i)" by (simp add: store_init_def Let_def)
  obtain t len where p: "vm_page_out ''b'' ?s = (True, t, Some (8, len))"
    by (simp add: store_init_def Let_def vm_store_def slots_of_def vm_page_out_def madv_dontneed_def)
  with vmem_pages_apart [OF i zero_less_numeral refl, where stat' = None] show ?thesis by blast
qed

end
