(* ===== verification/Preempt.thy ===== *)
theory Preempt
  imports Py_Text "HOL-Library.Sublist"
begin

text \<open>
  Preemption by job-control signals (\<open>gcos/osprims/preempt.py\<close>): the flags a
  \<open>Preemptor\<close> keeps about a child process, its three signals, the reading of the task state
  from \<open>/proc\<close>, and the round robin with a wall-clock quantum.

  The host is a parameter: a record of the calls the code makes, each a function on the state
  of the host, so that processes may change whenever a call is made. What the code relies on of
  signals is the predicate \<open>signals_as_documented\<close>.
\<close>

section \<open>The host\<close>

datatype signal = SIGSTOP | SIGCONT | SIGKILL

text \<open>What \<open>os.kill\<close> does: returns, raises \<open>ProcessLookupError\<close> or \<open>PermissionError\<close>.\<close>

datatype kill_outcome = Sent | No_process | Not_permitted

text \<open>
  \<open>ps_waitpid\<close> gives \<open>None\<close> for \<open>ChildProcessError\<close> and otherwise the PID it
  returns (0: no child to report yet); its flag is \<open>WNOHANG\<close>.
\<close>

record 'h posix =
  ps_kill :: "int \<Rightarrow> signal \<Rightarrow> 'h \<Rightarrow> kill_outcome \<times> 'h"
  ps_sleep :: "real \<Rightarrow> 'h \<Rightarrow> 'h"
  ps_waitpid :: "int \<Rightarrow> bool \<Rightarrow> 'h \<Rightarrow> int option \<times> 'h"
  ps_fork :: "'h \<Rightarrow> (py_exc + int) \<times> 'h"
  ps_clock :: "'h \<Rightarrow> real"

section \<open>A preemptor\<close>

record preemptor =
  pe_pid :: int
  pe_stopped :: bool
  pe_alive :: bool

definition preemptor_init :: "int \<Rightarrow> preemptor" where
  "preemptor_init p = \<lparr>pe_pid = p, pe_stopped = False, pe_alive = True\<rparr>"

definition pe_signal :: "'h posix \<Rightarrow> signal \<Rightarrow> preemptor \<Rightarrow> 'h \<Rightarrow> bool \<times> preemptor \<times> 'h" where
  "pe_signal os sig p h =
     (case ps_kill os (pe_pid p) sig h of
        (Sent, h') \<Rightarrow> (True, p, h')
      | (No_process, h') \<Rightarrow> (False, p\<lparr>pe_alive := False\<rparr>, h')
      | (Not_permitted, h') \<Rightarrow> (False, p, h'))"

definition pe_stop :: "'h posix \<Rightarrow> preemptor \<Rightarrow> 'h \<Rightarrow> bool \<times> preemptor \<times> 'h" where
  "pe_stop os p h =
     (if \<not> pe_alive p \<or> pe_stopped p then (pe_stopped p, p, h)
      else
        let (ok, p1, h1) = pe_signal os SIGSTOP p h;
            p2 = (if ok then p1\<lparr>pe_stopped := True\<rparr> else p1)
        in (pe_stopped p2, p2, h1))"

definition pe_cont :: "'h posix \<Rightarrow> preemptor \<Rightarrow> 'h \<Rightarrow> bool \<times> preemptor \<times> 'h" where
  "pe_cont os p h =
     (if \<not> pe_alive p \<or> \<not> pe_stopped p then (\<not> pe_stopped p \<and> pe_alive p, p, h)
      else
        let (ok, p1, h1) = pe_signal os SIGCONT p h;
            p2 = (if ok then p1\<lparr>pe_stopped := False\<rparr> else p1)
        in (\<not> pe_stopped p2, p2, h1))"

definition pe_kill :: "'h posix \<Rightarrow> preemptor \<Rightarrow> 'h \<Rightarrow> bool \<times> preemptor \<times> 'h" where
  "pe_kill os p h =
     (let (p1, h1) = (if pe_stopped p
                      then (let (ok, q, h') = pe_signal os SIGCONT p h in (q\<lparr>pe_stopped := False\<rparr>, h'))
                      else (p, h));
          (ok, p2, h2) = pe_signal os SIGKILL p1 h1
      in (ok, p2\<lparr>pe_alive := False\<rparr>, h2))"

text \<open>\<open>is_running_in_kernel\<close> on the text of \<open>/proc/<pid>/stat\<close> (\<open>None\<close>: not readable).\<close>

definition is_running_in_kernel :: "string option \<Rightarrow> bool option" where
  "is_running_in_kernel stat =
     (case stat of
        None \<Rightarrow> None
      | Some txt \<Rightarrow>
          (case after_last (CHR '')'') txt of
             None \<Rightarrow> None
           | Some rest \<Rightarrow>
               (case str_split rest of [] \<Rightarrow> None | state # xs \<Rightarrow> Some (state \<noteq> ''T''))))"

section \<open>Round robin with a quantum\<close>

text \<open>
  The preemptors are objects the loop changes, so the state holds them by position;
  \<open>is_done\<close> is the callback.
\<close>

record 'h rq_state =
  rqs_host :: 'h
  rqs_procs :: "preemptor list"
  rqs_order :: "int list"

definition on_proc :: "(preemptor \<Rightarrow> 'h \<Rightarrow> bool \<times> preemptor \<times> 'h) \<Rightarrow> nat \<Rightarrow> 'h rq_state \<Rightarrow> 'h rq_state" where
  "on_proc f i s =
     (let (b, p, h) = f (rqs_procs s ! i) (rqs_host s)
      in s\<lparr>rqs_procs := (rqs_procs s)[i := p], rqs_host := h\<rparr>)"

definition ask_done :: "(int \<Rightarrow> 'h \<Rightarrow> bool \<times> 'h) \<Rightarrow> nat \<Rightarrow> 'h rq_state \<Rightarrow> bool \<times> 'h rq_state" where
  "ask_done is_done i s =
     (let (d, h) = is_done (pe_pid (rqs_procs s ! i)) (rqs_host s) in (d, s\<lparr>rqs_host := h\<rparr>))"

text \<open>The body of the inner loop: whether the process stays, and the state.\<close>

definition give_slice ::
  "'h posix \<Rightarrow> (int \<Rightarrow> 'h \<Rightarrow> bool \<times> 'h) \<Rightarrow> real \<Rightarrow> nat \<Rightarrow> 'h rq_state \<Rightarrow> bool \<times> 'h rq_state" where
  "give_slice os is_done quantum i s =
     (let (d, s1) = ask_done is_done i s
      in if d \<or> \<not> pe_alive (rqs_procs s1 ! i) then (False, on_proc (pe_cont os) i s1)
         else
           let s2 = s1\<lparr>rqs_order := rqs_order s1 @ [pe_pid (rqs_procs s1 ! i)]\<rparr>;
               s3 = on_proc (pe_cont os) i s2;
               s4 = s3\<lparr>rqs_host := ps_sleep os quantum (rqs_host s3)\<rparr>;
               (d2, s5) = ask_done is_done i s4
           in if \<not> d2 \<and> pe_alive (rqs_procs s5 ! i) then (True, on_proc (pe_stop os) i s5)
              else (False, s5))"

fun rr_round ::
  "'h posix \<Rightarrow> (int \<Rightarrow> 'h \<Rightarrow> bool \<times> 'h) \<Rightarrow> real \<Rightarrow> nat list \<Rightarrow> 'h rq_state \<Rightarrow> nat list \<times> 'h rq_state" where
  "rr_round os is_done quantum [] s = ([], s)"
| "rr_round os is_done quantum (i # live) s =
     (let (stays, s1) = give_slice os is_done quantum i s;
          (nxt, s2) = rr_round os is_done quantum live s1
      in (if stays then i # nxt else nxt, s2))"

text \<open>\<open>while live\<close>; \<open>None\<close> when the rounds do not suffice.\<close>

fun rr_rounds ::
  "nat \<Rightarrow> 'h posix \<Rightarrow> (int \<Rightarrow> 'h \<Rightarrow> bool \<times> 'h) \<Rightarrow> real \<Rightarrow> nat list \<Rightarrow> 'h rq_state \<Rightarrow> 'h rq_state option" where
  "rr_rounds fuel os is_done quantum [] s = Some s"
| "rr_rounds 0 os is_done quantum (i # live) s = None"
| "rr_rounds (Suc fuel) os is_done quantum (i # live) s =
     (let (nxt, s1) = rr_round os is_done quantum (i # live) s
      in rr_rounds fuel os is_done quantum nxt s1)"

definition run_rr_quantum ::
  "nat \<Rightarrow> 'h posix \<Rightarrow> (int \<Rightarrow> 'h \<Rightarrow> bool \<times> 'h) \<Rightarrow> real \<Rightarrow> preemptor list \<Rightarrow> 'h \<Rightarrow> 'h rq_state option" where
  "run_rr_quantum fuel os is_done quantum ps h =
     (let s0 = \<lparr>rqs_host = h, rqs_procs = ps, rqs_order = []\<rparr>
      in rr_rounds fuel os is_done quantum [0..<length ps] (fold (on_proc (pe_stop os)) [0..<length ps] s0))"

section \<open>Signals as documented\<close>

text \<open>
  The state of a task, and what a signal does to it (signal(7), kill(2)): a task that has
  ended but was not waited for can still be signalled, without effect. The child belongs to
  the caller, so the signal is permitted.
\<close>

datatype task = Task_running | Task_stopped | Task_ended

fun signal_effect :: "signal \<Rightarrow> task \<Rightarrow> task" where
  "signal_effect sig Task_ended = Task_ended"
| "signal_effect SIGSTOP t = Task_stopped"
| "signal_effect SIGCONT t = Task_running"
| "signal_effect SIGKILL t = Task_ended"

definition signals_as_documented :: "'h posix \<Rightarrow> ('h \<Rightarrow> int \<Rightarrow> task option) \<Rightarrow> bool" where
  "signals_as_documented os task_of \<longleftrightarrow>
     (\<forall>p sig h. (fst (ps_kill os p sig h) = (case task_of h p of None \<Rightarrow> No_process | Some t \<Rightarrow> Sent))
        \<and> task_of (snd (ps_kill os p sig h)) p = map_option (signal_effect sig) (task_of h p))"

text \<open>What a task does by itself: a running one may end, an ended one may be waited for.\<close>

inductive lives_on :: "task option \<Rightarrow> task option \<Rightarrow> bool" where
  same: "lives_on t t"
| ends: "lives_on (Some Task_running) (Some Task_ended)"
| waited: "lives_on (Some Task_running) None"
| reaped: "lives_on (Some Task_ended) None"

text \<open>One preemptor and its task: calls, interleaved with the life of the task.\<close>

inductive preempt_step ::
  "'h posix \<Rightarrow> ('h \<Rightarrow> int \<Rightarrow> task option) \<Rightarrow> preemptor \<times> 'h \<Rightarrow> preemptor \<times> 'h \<Rightarrow> bool" for os task_of where
  stop: "preempt_step os task_of (p, h) (snd (pe_stop os p h))"
| cont: "preempt_step os task_of (p, h) (snd (pe_cont os p h))"
| kill: "preempt_step os task_of (p, h) (snd (pe_kill os p h))"
| life: "lives_on (task_of h (pe_pid p)) (task_of h' (pe_pid p)) \<Longrightarrow> preempt_step os task_of (p, h) (p, h')"

inductive_cases preempt_step_cases: "preempt_step os task_of c c'"
inductive_cases lives_on_cases: "lives_on t t'"

section \<open>Lemmas\<close>

text \<open>The flags of a preemptor agree with its task.\<close>

definition truthful :: "('h \<Rightarrow> int \<Rightarrow> task option) \<Rightarrow> preemptor \<times> 'h \<Rightarrow> bool" where
  "truthful task_of c \<longleftrightarrow>
     (task_of (snd c) (pe_pid (fst c)) = Some Task_running \<longrightarrow> pe_alive (fst c) \<and> \<not> pe_stopped (fst c))
     \<and> (task_of (snd c) (pe_pid (fst c)) = Some Task_stopped \<longrightarrow> pe_alive (fst c) \<and> pe_stopped (fst c))"

lemma signal_result:
  assumes "signals_as_documented os task_of" and "pe_signal os sig p h = (ok, q, h')"
  shows "pe_pid q = pe_pid p" "pe_stopped q = pe_stopped p" "pe_alive q = (pe_alive p \<and> ok)"
    and "ok = (task_of h (pe_pid p) \<noteq> None)"
    and "task_of h' (pe_pid p) = map_option (signal_effect sig) (task_of h (pe_pid p))"
proof -
  obtain r h1 where r: "ps_kill os (pe_pid p) sig h = (r, h1)" by force
  from assms(1) r have doc: "r = (case task_of h (pe_pid p) of None \<Rightarrow> No_process | Some t \<Rightarrow> Sent)"
    "task_of h1 (pe_pid p) = map_option (signal_effect sig) (task_of h (pe_pid p))"
    unfolding signals_as_documented_def by (metis fst_conv snd_conv)+
  with assms(2) r show "pe_pid q = pe_pid p" "pe_stopped q = pe_stopped p" "pe_alive q = (pe_alive p \<and> ok)"
    "ok = (task_of h (pe_pid p) \<noteq> None)" "task_of h' (pe_pid p) = map_option (signal_effect sig) (task_of h (pe_pid p))"
    by (auto simp: pe_signal_def split: option.splits)
qed

lemma signal_effect_simps [simp]:
  "signal_effect SIGSTOP t \<noteq> Task_running" "signal_effect SIGCONT t \<noteq> Task_stopped"
  "signal_effect SIGKILL t = Task_ended"
  by (cases t; simp)+

lemma stop_truthful:
  assumes doc: "signals_as_documented os task_of" and t: "truthful task_of (p, h)"
  shows "truthful task_of (snd (pe_stop os p h)) \<and> pe_pid (fst (snd (pe_stop os p h))) = pe_pid p
    \<and> task_of (snd (snd (pe_stop os p h))) (pe_pid p) \<noteq> Some Task_running"
proof (cases "\<not> pe_alive p \<or> pe_stopped p")
  case True
  with t show ?thesis by (auto simp: pe_stop_def truthful_def)
next
  case False
  obtain ok q h1 where sg: "pe_signal os SIGSTOP p h = (ok, q, h1)" by (metis prod_cases3)
  note r = signal_result [OF doc sg]
  from False r sg show ?thesis
    by (cases "task_of h (pe_pid p)") (auto simp: pe_stop_def truthful_def)
qed

lemma cont_truthful:
  assumes doc: "signals_as_documented os task_of" and t: "truthful task_of (p, h)"
  shows "truthful task_of (snd (pe_cont os p h)) \<and> pe_pid (fst (snd (pe_cont os p h))) = pe_pid p
    \<and> task_of (snd (snd (pe_cont os p h))) (pe_pid p) \<noteq> Some Task_stopped"
proof (cases "\<not> pe_alive p \<or> \<not> pe_stopped p")
  case True
  with t show ?thesis by (auto simp: pe_cont_def truthful_def)
next
  case False
  obtain ok q h1 where sg: "pe_signal os SIGCONT p h = (ok, q, h1)" by (metis prod_cases3)
  note r = signal_result [OF doc sg]
  from False r sg show ?thesis
    by (cases "task_of h (pe_pid p)") (auto simp: pe_cont_def truthful_def)
qed

lemma kill_truthful:
  assumes doc: "signals_as_documented os task_of"
  shows "truthful task_of (snd (pe_kill os p h)) \<and> pe_pid (fst (snd (pe_kill os p h))) = pe_pid p
    \<and> task_of (snd (snd (pe_kill os p h))) (pe_pid p) \<in> {None, Some Task_ended}"
proof -
  obtain p1 h1 where p1: "(if pe_stopped p then (let (ok, q, h') = pe_signal os SIGCONT p h in (q\<lparr>pe_stopped := False\<rparr>, h'))
      else (p, h)) = (p1, h1)" by force
  then have pid: "pe_pid p1 = pe_pid p"
    using signal_result(1) [OF doc] by (auto split: if_splits prod.splits)
  obtain ok q h2 where sg: "pe_signal os SIGKILL p1 h1 = (ok, q, h2)" by (metis prod_cases3)
  note r = signal_result [OF doc sg]
  have "snd (pe_kill os p h) = (q\<lparr>pe_alive := False\<rparr>, h2)"
    using p1 sg by (cases "pe_stopped p") (auto simp: pe_kill_def split_beta Let_def)
  with r pid show ?thesis by (cases "task_of h1 (pe_pid p1)") (auto simp: truthful_def)
qed

lemma life_truthful:
  assumes "truthful task_of (p, h)" and "lives_on (task_of h (pe_pid p)) (task_of h' (pe_pid p))"
  shows "truthful task_of (p, h')"
  using assms(2,1) by (auto simp: truthful_def elim!: lives_on_cases)

lemma preempt_step_truthful:
  assumes "signals_as_documented os task_of" and "preempt_step os task_of c c'" and "truthful task_of c"
  shows "truthful task_of c' \<and> pe_pid (fst c') = pe_pid (fst c)"
  using assms(2,3) stop_truthful [OF assms(1)] cont_truthful [OF assms(1)] kill_truthful [OF assms(1)] life_truthful
  by cases auto

text \<open>The rounds of the round robin.\<close>

lemma pids_kept [simp]:
  "pe_pid (fst (snd (pe_signal os sig p h))) = pe_pid p"
  "pe_pid (fst (snd (pe_stop os p h))) = pe_pid p"
  "pe_pid (fst (snd (pe_cont os p h))) = pe_pid p"
proof -
  show s: "pe_pid (fst (snd (pe_signal os sig p h))) = pe_pid p" for sig
    by (auto simp: pe_signal_def split: prod.splits kill_outcome.splits)
  show "pe_pid (fst (snd (pe_stop os p h))) = pe_pid p" "pe_pid (fst (snd (pe_cont os p h))) = pe_pid p"
    using s [of SIGSTOP] s [of SIGCONT] by (auto simp: pe_stop_def pe_cont_def Let_def split_beta)
qed

definition pids :: "'h rq_state \<Rightarrow> int list" where
  "pids s = map pe_pid (rqs_procs s)"

lemma pids_simps [simp]:
  "pids (s\<lparr>rqs_host := h\<rparr>) = pids s" "pids (s\<lparr>rqs_order := xs\<rparr>) = pids s"
  by (simp_all add: pids_def)

lemma pids_nth: "i < length (rqs_procs s) \<Longrightarrow> pe_pid (rqs_procs s ! i) = pids s ! i"
  by (simp add: pids_def)

lemma on_proc_simps:
  assumes "\<And>p h. pe_pid (fst (snd (f p h))) = pe_pid p"
  shows "pids (on_proc f i s) = pids s" and "rqs_order (on_proc f i s) = rqs_order s"
proof -
  have "i < length (rqs_procs s) \<Longrightarrow> (map pe_pid (rqs_procs s))[i := pe_pid (rqs_procs s ! i)] = map pe_pid (rqs_procs s)"
    using list_update_id [of "map pe_pid (rqs_procs s)" i] by simp
  then show "pids (on_proc f i s) = pids s"
    using assms [of "rqs_procs s ! i" "rqs_host s"]
    by (cases "i < length (rqs_procs s)") (auto simp: on_proc_def pids_def Let_def split_beta map_update list_update_beyond)
qed (simp add: on_proc_def Let_def split_beta)

lemma give_slice_order:
  assumes "give_slice os is_done q i s = (stays, s')" and "i < length (rqs_procs s)"
  shows "pids s' = pids s"
    and "rqs_order s' = rqs_order s @ [pids s ! i] \<or> rqs_order s' = rqs_order s \<and> \<not> stays"
  using assms
  by (auto simp: give_slice_def ask_done_def Let_def split_beta on_proc_simps pids_nth split: if_splits)

lemma length_pids: "length (rqs_procs s) = length (pids s)"
  by (simp add: pids_def)

lemma set_mono_subseq: "subseq xs ys \<Longrightarrow> set xs \<subseteq> set ys"
  by (induction rule: list_emb.induct) auto

lemma rr_round_order:
  assumes "rr_round os is_done q live s = (nxt, s')" and "set live \<subseteq> {..<length (pids s)}"
  shows "pids s' = pids s \<and> (\<exists>xs. rqs_order s' = rqs_order s @ map (\<lambda>i. pids s ! i) xs \<and> subseq xs live \<and> subseq nxt xs)"
  using assms
proof (induction os is_done q live s arbitrary: nxt s' rule: rr_round.induct)
  case (2 os is_done q i live s)
  obtain stays s1 where g: "give_slice os is_done q i s = (stays, s1)" by force
  obtain nxt1 s2 where r: "rr_round os is_done q live s1 = (nxt1, s2)" by force
  have n: "nxt = (if stays then i # nxt1 else nxt1)" "s' = s2" using "2.prems"(1) g r by auto
  have i: "i < length (rqs_procs s)" using "2.prems"(2) by (simp add: length_pids)
  note p = give_slice_order [OF g i]
  from "2.IH" [OF g [symmetric] refl r] "2.prems"(2) p(1) obtain xs where
    xs: "pids s2 = pids s" "rqs_order s2 = rqs_order s1 @ map (\<lambda>i. pids s ! i) xs" "subseq xs live" "subseq nxt1 xs"
    by auto
  show ?case
  proof (cases "rqs_order s1 = rqs_order s @ [pids s ! i]")
    case True
    with xs n have "rqs_order s' = rqs_order s @ map (\<lambda>i. pids s ! i) (i # xs) \<and> subseq (i # xs) (i # live) \<and> subseq nxt (i # xs)"
      by (auto intro: subseq_Cons')
    with xs(1) n(2) show ?thesis by blast
  next
    case False
    with p(2) have "rqs_order s1 = rqs_order s" "\<not> stays" by auto
    with xs n have "rqs_order s' = rqs_order s @ map (\<lambda>i. pids s ! i) xs \<and> subseq xs (i # live) \<and> subseq nxt xs"
      by auto
    with xs(1) n(2) show ?thesis by blast
  qed
qed simp

lemma rr_rounds_order:
  assumes "rr_rounds fuel os is_done q live s = Some s'" and "set live \<subseteq> {..<length (pids s)}"
  shows "\<exists>rounds. rqs_order s' = rqs_order s @ map (\<lambda>i. pids s ! i) (concat rounds)
    \<and> successively (\<lambda>a b. subseq b a) (live # rounds)"
  using assms
proof (induction fuel os is_done q live s rule: rr_rounds.induct)
  case (1 fuel os is_done q s)
  then show ?case by (intro exI [of _ "[]"]) simp
next
  case (3 fuel os is_done q i live s)
  obtain nxt s1 where r: "rr_round os is_done q (i # live) s = (nxt, s1)" by force
  from rr_round_order [OF r] "3.prems"(2) obtain xs where
    xs: "pids s1 = pids s" "rqs_order s1 = rqs_order s @ map (\<lambda>i. pids s ! i) xs"
      "subseq xs (i # live)" "subseq nxt xs" by auto
  have "set nxt \<subseteq> {..<length (pids s1)}"
    using xs(1) "3.prems"(2) set_mono_subseq [OF xs(3)] set_mono_subseq [OF xs(4)] by auto
  with "3.IH" [OF r [symmetric] refl] "3.prems"(1) r obtain rounds where
    rounds: "rqs_order s' = rqs_order s1 @ map (\<lambda>i. pids s1 ! i) (concat rounds)"
      "successively (\<lambda>a b. subseq b a) (nxt # rounds)" by auto
  have "successively (\<lambda>a b. subseq b a) (xs # rounds)"
    using rounds(2) xs(4) by (cases rounds) (auto intro: subseq_order.trans)
  with xs rounds(1) show ?case by (intro exI [of _ "xs # rounds"]) simp
qed simp

section \<open>A small host\<close>

text \<open>
  A concrete host, on which the assumptions about signals and time hold: tasks with an amount
  of work each, one unit done per sleep by every running task.
\<close>

record box =
  bx_tasks :: "(int \<times> task \<times> nat) list"
  bx_clock :: real

definition box_task :: "box \<Rightarrow> int \<Rightarrow> task option" where
  "box_task h p = map_option fst (map_of (bx_tasks h) p)"

fun box_work :: "task \<times> nat \<Rightarrow> task \<times> nat" where
  "box_work (Task_running, n) = (if n \<le> 1 then (Task_ended, 0) else (Task_running, n - 1))"
| "box_work tn = tn"

definition box_map :: "(int \<Rightarrow> task \<times> nat \<Rightarrow> task \<times> nat) \<Rightarrow> box \<Rightarrow> box" where
  "box_map f h = h\<lparr>bx_tasks := map (\<lambda>(p, tn). (p, f p tn)) (bx_tasks h)\<rparr>"

text \<open>A child forked in the box has three units of work.\<close>

definition box_host :: "box posix" where
  "box_host =
     \<lparr>ps_kill = (\<lambda>p sig h.
        case map_of (bx_tasks h) p of
          None \<Rightarrow> (No_process, h)
        | Some tn \<Rightarrow> (Sent, box_map (\<lambda>q (t, n). if q = p then (signal_effect sig t, n) else (t, n)) h)),
      ps_sleep = (\<lambda>q h. (box_map (\<lambda>p. box_work) h)\<lparr>bx_clock := bx_clock h + max 0 q\<rparr>),
      ps_waitpid = (\<lambda>p nohang h.
        case map_of (bx_tasks h) p of
          None \<Rightarrow> (None, h)
        | Some tn \<Rightarrow>
            if fst tn = Task_ended then (Some p, h\<lparr>bx_tasks := filter (\<lambda>e. fst e \<noteq> p) (bx_tasks h)\<rparr>) else (Some 0, h)),
      ps_fork = (\<lambda>h. let p = 100 + int (length (bx_tasks h))
                    in (Inr p, h\<lparr>bx_tasks := bx_tasks h @ [(p, Task_running, 3)]\<rparr>)),
      ps_clock = bx_clock\<rparr>"

lemma map_of_box: "map_of (map (\<lambda>(p, tn). (p, f p tn)) xs) p = map_option (f p) (map_of xs p)"
  by (induction xs) auto

lemma box_signals: "signals_as_documented box_host box_task"
  by (auto simp: signals_as_documented_def box_host_def box_task_def box_map_def map_of_box split: option.splits)

section \<open>Properties\<close>

text \<open>
  C12. Preemption is real: however calls of a preemptor interleave with the life of its child, its flags
  agree with the task the kernel has (a running task is alive and not stopped, a stopped one
  alive and stopped), and whatever the flags say, after \<open>stop\<close> the task does not run, after
  \<open>cont\<close> it is not stopped, and after \<open>kill\<close> it has ended, also when it was stopped.
\<close>

theorem preempt_controls_task:
  assumes "signals_as_documented os task_of" and "task_of h0 p0 = Some Task_running"
    and "(preempt_step os task_of)\<^sup>*\<^sup>* (preemptor_init p0, h0) (p, h)"
  shows "(task_of h p0 = Some Task_running \<longrightarrow> pe_alive p \<and> \<not> pe_stopped p)
    \<and> (task_of h p0 = Some Task_stopped \<longrightarrow> pe_alive p \<and> pe_stopped p)
    \<and> task_of (snd (snd (pe_stop os p h))) p0 \<noteq> Some Task_running
    \<and> task_of (snd (snd (pe_cont os p h))) p0 \<noteq> Some Task_stopped
    \<and> task_of (snd (snd (pe_kill os p h))) p0 \<in> {None, Some Task_ended}"
proof -
  from assms(3) have "truthful task_of (p, h) \<and> pe_pid p = p0"
  proof (induction "(p, h)" arbitrary: p h rule: rtranclp_induct)
    case base
    from assms(2) show ?case by (simp add: truthful_def preemptor_init_def)
  next
    case (step c)
    with preempt_step_truthful [OF assms(1) step(2)] show ?case by (cases c) auto
  qed
  then show ?thesis
    using stop_truthful [OF assms(1), of p h] cont_truthful [OF assms(1), of p h] kill_truthful [OF assms(1), of p h]
    by (auto simp: truthful_def)
qed

theorem preempt_controls_task_witness:
  "box_task (snd (snd (pe_stop box_host (preemptor_init 7) \<lparr>bx_tasks = [(7, Task_running, 2)], bx_clock = 0\<rparr>))) 7
     \<noteq> Some Task_running"
proof -
  let ?h = "\<lparr>bx_tasks = [(7, Task_running, 2)], bx_clock = 0\<rparr>"
  have "box_task ?h 7 = Some Task_running" by (simp add: box_task_def)
  from preempt_controls_task [OF box_signals this rtranclp.rtrancl_refl] show ?thesis by blast
qed

text \<open>
  The round robin with a quantum gives slices in rounds: the dispatch order is a sequence of
  rounds, each of which visits a part of the processes of the round before in the same order,
  so that no process gets a second slice before every other live one had its turn.
\<close>

theorem rr_quantum_rotates:
  assumes "run_rr_quantum fuel os is_done quantum ps h = Some s"
  shows "\<exists>rounds. rqs_order s = map (\<lambda>i. pe_pid (ps ! i)) (concat rounds)
    \<and> successively (\<lambda>a b. subseq b a) ([0..<length ps] # rounds)"
proof -
  define s0 where "s0 = fold (on_proc (pe_stop os)) [0..<length ps] \<lparr>rqs_host = h, rqs_procs = ps, rqs_order = []\<rparr>"
  have start: "pids (fold (on_proc (pe_stop os)) is s) = pids s \<and> rqs_order (fold (on_proc (pe_stop os)) is s) = rqs_order s"
    for "is" s
    by (induction "is" arbitrary: s) (simp_all add: on_proc_simps)
  have s0: "pids s0 = map pe_pid ps" "rqs_order s0 = []"
    using start unfolding s0_def by (simp_all add: pids_def)
  from assms have "rr_rounds fuel os is_done quantum [0..<length ps] s0 = Some s"
    by (simp add: run_rr_quantum_def s0_def)
  moreover have "set [0..<length ps] \<subseteq> {..<length (pids s0)}" using s0 by auto
  ultimately have "\<exists>rounds. rqs_order s = rqs_order s0 @ map (\<lambda>i. pids s0 ! i) (concat rounds)
      \<and> successively (\<lambda>a b. subseq b a) ([0..<length ps] # rounds)"
    by (rule rr_rounds_order)
  then obtain rounds where
    r: "rqs_order s = map (\<lambda>i. map pe_pid ps ! i) (concat rounds)"
      "successively (\<lambda>a b. subseq b a) ([0..<length ps] # rounds)"
    unfolding s0 append_Nil by blast
  have "set (concat rounds) \<subseteq> set [0..<length ps]"
  proof -
    have "successively (\<lambda>a b. subseq b a) (xs # rs) \<Longrightarrow> set (concat rs) \<subseteq> set xs" for xs :: "nat list" and rs
      by (induction rs arbitrary: xs) (auto dest: set_mono_subseq)
    then show ?thesis using r(2) by blast
  qed
  then have "map (\<lambda>i. map pe_pid ps ! i) (concat rounds) = map (\<lambda>i. pe_pid (ps ! i)) (concat rounds)"
    by (intro map_cong) auto
  with r show ?thesis by auto
qed

end
