(* ===== verification/Real_Proc.thy ===== *)
theory Real_Proc
  imports Preempt Cgroup
begin

text \<open>
  The scheduler over real processes (\<open>gcos/osprims/realproc.py\<close>): \<open>rr_order\<close> drives
  forked children in slices of a quantum with stop and continue signals, either in turns
  (round robin) or one after the other (FCFS); \<open>max_consecutive_run\<close> and
  \<open>block_count\<close> measure the dispatch order; \<open>cpu_share\<close> lets children compete under
  cgroup weights. The host is the parameter of \<open>Preempt\<close>. What the children compute is not
  modelled: their only effect is to end.
\<close>

section \<open>The state of a run\<close>

record 'h rr_state =
  rr_host :: 'h
  rr_children :: "preemptor list"
  rr_exited :: "nat list"
  rr_pending :: "nat list"
  rr_i :: nat
  rr_dispatched :: "nat list"

text \<open>The children forked so far; an exception of \<open>fork\<close> leaves the loop.\<close>

fun fork_children :: "'h posix \<Rightarrow> nat \<Rightarrow> 'h \<Rightarrow> (py_exc + preemptor list) \<times> 'h" where
  "fork_children os 0 h = (Inr [], h)"
| "fork_children os (Suc n) h =
     (case ps_fork os h of
        (Inl e, h1) \<Rightarrow> (Inl e, h1)
      | (Inr p, h1) \<Rightarrow>
          (case fork_children os n h1 of
             (Inl e, h2) \<Rightarrow> (Inl e, h2)
           | (Inr ps, h2) \<Rightarrow> (Inr (preemptor_init p # ps), h2)))"

definition on_child :: "(preemptor \<Rightarrow> 'h \<Rightarrow> bool \<times> preemptor \<times> 'h) \<Rightarrow> nat \<Rightarrow> 'h rr_state \<Rightarrow> 'h rr_state" where
  "on_child f idx s =
     (let (b, p, h) = f (rr_children s ! idx) (rr_host s)
      in s\<lparr>rr_children := (rr_children s)[idx := p], rr_host := h\<rparr>)"

definition reaped :: "'h posix \<Rightarrow> nat \<Rightarrow> 'h rr_state \<Rightarrow> bool \<times> 'h rr_state" where
  "reaped os idx s =
     (if idx \<in> set (rr_exited s) then (True, s)
      else
        let p = pe_pid (rr_children s ! idx)
        in case ps_waitpid os p True (rr_host s) of
             (None, h) \<Rightarrow> (True, s\<lparr>rr_host := h, rr_exited := idx # rr_exited s\<rparr>)
           | (Some w, h) \<Rightarrow>
               if w = p then (True, s\<lparr>rr_host := h, rr_exited := idx # rr_exited s\<rparr>)
               else (False, s\<lparr>rr_host := h\<rparr>))"

definition remove_at :: "nat \<Rightarrow> 'a list \<Rightarrow> 'a list" where
  "remove_at i xs = take i xs @ drop (Suc i) xs"

section \<open>The loop\<close>

definition rr_body :: "'h posix \<Rightarrow> real \<Rightarrow> bool \<Rightarrow> 'h rr_state \<Rightarrow> 'h rr_state" where
  "rr_body os quantum preempt s =
     (let i = rr_i s mod length (rr_pending s);
          idx = rr_pending s ! i;
          (d, s1) = reaped os idx (s\<lparr>rr_i := i\<rparr>)
      in if d then s1\<lparr>rr_pending := remove_at i (rr_pending s1)\<rparr>
         else
           let s2 = s1\<lparr>rr_dispatched := rr_dispatched s1 @ [idx]\<rparr>;
               s3 = on_child (pe_cont os) idx s2;
               (d2, s4) = reaped os idx (s3\<lparr>rr_host := ps_sleep os quantum (rr_host s3)\<rparr>)
           in if d2 then s4\<lparr>rr_pending := remove_at i (rr_pending s4)\<rparr>
              else
                let s5 = on_child (pe_stop os) idx s4
                in if preempt then s5\<lparr>rr_i := i + 1\<rparr> else s5)"

text \<open>\<open>while pending and time.monotonic() < deadline\<close>; \<open>None\<close> when the fuel does not suffice.\<close>

fun rr_loop :: "nat \<Rightarrow> 'h posix \<Rightarrow> real \<Rightarrow> bool \<Rightarrow> real \<Rightarrow> 'h rr_state \<Rightarrow> 'h rr_state option" where
  "rr_loop fuel os quantum preempt deadline s =
     (if rr_pending s \<noteq> [] \<and> ps_clock os (rr_host s) < deadline
      then (case fuel of
              0 \<Rightarrow> None
            | Suc k \<Rightarrow> rr_loop k os quantum preempt deadline (rr_body os quantum preempt s))
      else Some s)"

declare rr_loop.simps [simp del]

text \<open>The \<open>finally\<close> clause: every child that was not reaped is killed and waited for.\<close>

definition rr_cleanup_one :: "'h posix \<Rightarrow> nat \<Rightarrow> 'h rr_state \<Rightarrow> 'h rr_state" where
  "rr_cleanup_one os idx s =
     (if idx \<in> set (rr_exited s) then s
      else
        let s1 = on_child (pe_kill os) idx s
        in s1\<lparr>rr_host := snd (ps_waitpid os (pe_pid (rr_children s1 ! idx)) False (rr_host s1))\<rparr>)"

definition rr_start :: "'h posix \<Rightarrow> preemptor list \<Rightarrow> 'h \<Rightarrow> 'h rr_state" where
  "rr_start os ps h =
     fold (on_child (pe_stop os)) [0..<length ps]
       \<lparr>rr_host = h, rr_children = ps, rr_exited = [], rr_pending = [0..<length ps], rr_i = 0,
        rr_dispatched = []\<rparr>"

definition rr_order ::
  "nat \<Rightarrow> 'h posix \<Rightarrow> nat \<Rightarrow> real \<Rightarrow> bool \<Rightarrow> real \<Rightarrow> 'h \<Rightarrow> (py_exc \<times> 'h + 'h rr_state) option" where
  "rr_order fuel os n_procs quantum preempt max_wall h =
     (case fork_children os n_procs h of
        (Inl e, h1) \<Rightarrow> Some (Inl (e, h1))
      | (Inr ps, h1) \<Rightarrow>
          let s0 = rr_start os ps h1;
              deadline = ps_clock os (rr_host s0) + max_wall
          in map_option (\<lambda>s. Inr (fold (rr_cleanup_one os) [0..<length ps] s))
               (rr_loop fuel os quantum preempt deadline s0))"

section \<open>Measures of a dispatch order\<close>

fun run_scan :: "'a option \<Rightarrow> nat \<Rightarrow> nat \<Rightarrow> 'a list \<Rightarrow> nat" where
  "run_scan prev r best [] = best"
| "run_scan prev r best (x # xs) =
     (let r' = (if Some x = prev then r + 1 else 1) in run_scan (Some x) r' (max best r') xs)"

definition max_consecutive_run :: "'a list \<Rightarrow> nat" where
  "max_consecutive_run order = run_scan None 0 0 order"

definition block_count :: "'a list \<Rightarrow> nat" where
  "block_count order =
     (if order = [] then 0 else 1 + length (filter (\<lambda>(a, b). a \<noteq> b) (zip order (tl order))))"

section \<open>CPU shares\<close>

record 'h share_state =
  sh_host :: 'h
  sh_files :: cg_fs
  sh_pids :: "int list"
  sh_groups :: "cgroup list"

fun spawn_spinners ::
  "'h posix \<Rightarrow> cg_host \<Rightarrow> nat \<Rightarrow> int list \<Rightarrow> 'h share_state \<Rightarrow> py_exc option \<times> 'h share_state" where
  "spawn_spinners os cgh k [] s = (None, s)"
| "spawn_spinners os cgh k (w # ws) s =
     (case ps_fork os (sh_host s) of
        (Inl e, h) \<Rightarrow> (Some e, s\<lparr>sh_host := h\<rparr>)
      | (Inr p, h) \<Rightarrow>
          let (g, fs1) = cgroup_init cgh (''share-'' @ show_nat k) (Some w) None None None (sh_files s);
              fs2 = snd (add_pid cgh p g fs1)
          in spawn_spinners os cgh (Suc k) ws
               (s\<lparr>sh_host := h, sh_files := fs2, sh_pids := sh_pids s @ [p], sh_groups := sh_groups s @ [g]\<rparr>))"

fun read_usages :: "(string \<Rightarrow> string option) \<Rightarrow> cgroup list \<Rightarrow> py_exc + int option list" where
  "read_usages contents [] = Inr []"
| "read_usages contents (g # gs) =
     andthen (cpu_usage_us contents g) (\<lambda>u. andthen (read_usages contents gs) (\<lambda>us. Inr (u # us)))"

text \<open>The \<open>finally\<close> clause: only \<open>ProcessLookupError\<close> is caught around the signal.\<close>

fun kill_spinners :: "'h posix \<Rightarrow> int list \<Rightarrow> 'h \<Rightarrow> py_exc option \<times> 'h" where
  "kill_spinners os [] h = (None, h)"
| "kill_spinners os (p # ps) h =
     (case ps_kill os p SIGKILL h of
        (Not_permitted, h1) \<Rightarrow> (Some (OtherExc ''PermissionError'' ''[Errno 1] Operation not permitted''), h1)
      | (_, h1) \<Rightarrow> kill_spinners os ps h1)"

definition share_cleanup ::
  "'h posix \<Rightarrow> ('h \<Rightarrow> string \<Rightarrow> bool) \<Rightarrow> 'h share_state \<Rightarrow> py_exc option \<times> 'h share_state" where
  "share_cleanup os vacant s =
     (case kill_spinners os (sh_pids s) (sh_host s) of
        (Some e, h) \<Rightarrow> (Some e, s\<lparr>sh_host := h\<rparr>)
      | (None, h) \<Rightarrow>
          let h1 = fold (\<lambda>p h. snd (ps_waitpid os p False h)) (sh_pids s) h
          in (None, s\<lparr>sh_host := h1, sh_files := fold (cg_remove (vacant h1)) (sh_groups s) (sh_files s)\<rparr>))"

record share_row =
  sw_weights :: "int list"
  sw_usage_us :: "int list"
  sw_measured_share_pct :: "real list"
  sw_expected_share_pct :: "real list"

definition share_pct :: "int \<Rightarrow> int \<Rightarrow> real" where
  "share_pct tot u = round_to 1 (100 * real_of_int u / real_of_int tot)"

definition share_report :: "int list \<Rightarrow> int option list \<Rightarrow> py_exc + share_row option" where
  "share_report weights usages =
     (if None \<in> set usages then Inr None
      else
        let us = map the usages;
            tot = (if sum_list us = 0 then 1 else sum_list us)
        in if weights \<noteq> [] \<and> sum_list weights = 0
           then Inl (OtherExc ''ZeroDivisionError'' ''division by zero'')
           else Inr (Some \<lparr>sw_weights = weights, sw_usage_us = us,
                          sw_measured_share_pct = map (share_pct tot) us,
                          sw_expected_share_pct = map (share_pct (sum_list weights)) weights\<rparr>))"

text \<open>\<open>cpu_share\<close>: an exception of the clean-up replaces one of the body.\<close>

definition cpu_share ::
  "'h posix \<Rightarrow> cg_host \<Rightarrow> ('h \<Rightarrow> string \<Rightarrow> string option) \<Rightarrow> ('h \<Rightarrow> string \<Rightarrow> bool) \<Rightarrow> int list \<Rightarrow> real
     \<Rightarrow> 'h \<Rightarrow> cg_fs \<Rightarrow> (py_exc + share_row option) \<times> 'h \<times> cg_fs" where
  "cpu_share os cgh contents vacant weights duration h fs =
     (if \<not> cf_available cgh then (Inr None, h, fs)
      else
        let (err, s1) = spawn_spinners os cgh 0 weights
              \<lparr>sh_host = h, sh_files = fs, sh_pids = [], sh_groups = []\<rparr>;
            s2 = (if err = None then s1\<lparr>sh_host := ps_sleep os duration (sh_host s1)\<rparr> else s1);
            usages = (case err of Some e \<Rightarrow> Inl e | None \<Rightarrow> read_usages (contents (sh_host s2)) (sh_groups s2));
            (cerr, s3) = share_cleanup os vacant s2
        in (case cerr of
              Some e \<Rightarrow> Inl e
            | None \<Rightarrow> andthen usages (share_report weights), sh_host s3, sh_files s3))"

section \<open>Lemmas: the loop\<close>

lemma reaped_simps [simp]:
  "rr_pending (snd (reaped os idx s)) = rr_pending s" "rr_i (snd (reaped os idx s)) = rr_i s"
  "rr_dispatched (snd (reaped os idx s)) = rr_dispatched s" "rr_children (snd (reaped os idx s)) = rr_children s"
  by (auto simp: reaped_def Let_def split: prod.splits option.splits)

lemma on_child_simps [simp]:
  "rr_pending (on_child f idx s) = rr_pending s" "rr_i (on_child f idx s) = rr_i s"
  "rr_dispatched (on_child f idx s) = rr_dispatched s" "length (rr_children (on_child f idx s)) = length (rr_children s)"
  "rr_exited (on_child f idx s) = rr_exited s"
  by (auto simp: on_child_def Let_def split: prod.splits)

text \<open>
  What is documented of time: the monotonic clock does not go back, and a sleep takes at least
  the time asked for.
\<close>

definition time_passes :: "'h posix \<Rightarrow> bool" where
  "time_passes os \<longleftrightarrow>
     (\<forall>q h. ps_clock os h + q \<le> ps_clock os (ps_sleep os q h))
     \<and> (\<forall>p sig h. ps_clock os h \<le> ps_clock os (snd (ps_kill os p sig h)))
     \<and> (\<forall>p b h. ps_clock os h \<le> ps_clock os (snd (ps_waitpid os p b h)))"

lemma signal_clock: "time_passes os \<Longrightarrow> ps_clock os h \<le> ps_clock os (snd (snd (pe_signal os sig p h)))"
  unfolding time_passes_def pe_signal_def
  by (smt (verit) kill_outcome.exhaust prod.case prod.collapse kill_outcome.simps(7,8,9) snd_conv)

lemma stop_cont_clock:
  assumes "time_passes os"
  shows "ps_clock os h \<le> ps_clock os (snd (snd (pe_stop os p h)))"
    and "ps_clock os h \<le> ps_clock os (snd (snd (pe_cont os p h)))"
  using signal_clock [OF assms, of h SIGSTOP p] signal_clock [OF assms, of h SIGCONT p]
  by (simp_all add: pe_stop_def pe_cont_def Let_def split_beta)

lemma on_child_clock:
  "(\<And>p h. ps_clock os h \<le> ps_clock os (snd (snd (f p h)))) \<Longrightarrow>
     ps_clock os (rr_host s) \<le> ps_clock os (rr_host (on_child f idx s))"
  by (simp add: on_child_def Let_def split_beta)

lemma reaped_clock:
  assumes "time_passes os"
  shows "ps_clock os (rr_host s) \<le> ps_clock os (rr_host (snd (reaped os idx s)))"
proof -
  let ?w = "ps_waitpid os (pe_pid (rr_children s ! idx)) True (rr_host s)"
  have "rr_host (snd (reaped os idx s)) \<in> {rr_host s, snd ?w}"
    by (auto simp: reaped_def Let_def split: prod.splits option.splits)
  with assms show ?thesis unfolding time_passes_def by auto
qed

text \<open>
  What one turn of the loop does to the pending children, the index and the order: a child
  leaves without a slice, leaves with one, or stays with one.
\<close>

definition turn :: "'h rr_state \<Rightarrow> nat" where
  "turn s = rr_i s mod length (rr_pending s)"

lemma rr_body_cases:
  obtains
    (gone) "rr_pending (rr_body os q pre s) = remove_at (turn s) (rr_pending s)"
      "rr_i (rr_body os q pre s) = turn s" "rr_dispatched (rr_body os q pre s) = rr_dispatched s"
      "time_passes os \<Longrightarrow> ps_clock os (rr_host s) \<le> ps_clock os (rr_host (rr_body os q pre s))"
  | (finished) "rr_pending (rr_body os q pre s) = remove_at (turn s) (rr_pending s)"
      "rr_i (rr_body os q pre s) = turn s"
      "rr_dispatched (rr_body os q pre s) = rr_dispatched s @ [rr_pending s ! turn s]"
      "time_passes os \<Longrightarrow> ps_clock os (rr_host s) + q \<le> ps_clock os (rr_host (rr_body os q pre s))"
  | (slice) "rr_pending (rr_body os q pre s) = rr_pending s"
      "rr_i (rr_body os q pre s) = (if pre then turn s + 1 else turn s)"
      "rr_dispatched (rr_body os q pre s) = rr_dispatched s @ [rr_pending s ! turn s]"
      "time_passes os \<Longrightarrow> ps_clock os (rr_host s) + q \<le> ps_clock os (rr_host (rr_body os q pre s))"
proof -
  let ?idx = "rr_pending s ! turn s"
  obtain d s1 where r1: "reaped os ?idx (s\<lparr>rr_i := turn s\<rparr>) = (d, s1)" by force
  have f1: "rr_pending s1 = rr_pending s" "rr_i s1 = turn s" "rr_dispatched s1 = rr_dispatched s"
    using reaped_simps [of os ?idx "s\<lparr>rr_i := turn s\<rparr>"] unfolding r1 snd_conv by simp_all
  define s3 where "s3 = on_child (pe_cont os) ?idx (s1\<lparr>rr_dispatched := rr_dispatched s1 @ [?idx]\<rparr>)"
  obtain d2 s4 where r2: "reaped os ?idx (s3\<lparr>rr_host := ps_sleep os q (rr_host s3)\<rparr>) = (d2, s4)" by force
  have f4: "rr_pending s4 = rr_pending s" "rr_i s4 = turn s" "rr_dispatched s4 = rr_dispatched s @ [?idx]"
    using reaped_simps [of os ?idx "s3\<lparr>rr_host := ps_sleep os q (rr_host s3)\<rparr>"]
    unfolding r2 snd_conv by (simp_all add: s3_def f1)
  have body: "rr_body os q pre s =
      (if d then s1\<lparr>rr_pending := remove_at (turn s) (rr_pending s1)\<rparr>
       else if d2 then s4\<lparr>rr_pending := remove_at (turn s) (rr_pending s4)\<rparr>
       else if pre then (on_child (pe_stop os) ?idx s4)\<lparr>rr_i := turn s + 1\<rparr> else on_child (pe_stop os) ?idx s4)"
    by (simp add: rr_body_def Let_def turn_def [symmetric] r1 s3_def [symmetric] r2)
  have c1: "ps_clock os (rr_host s) \<le> ps_clock os (rr_host s1)" if "time_passes os"
    using reaped_clock [OF that, of "s\<lparr>rr_i := turn s\<rparr>" ?idx] r1 by simp
  have c4: "ps_clock os (rr_host s) + q \<le> ps_clock os (rr_host s4)" if tp: "time_passes os"
  proof -
    have "ps_clock os (rr_host s1) \<le> ps_clock os (rr_host s3)"
      using on_child_clock [OF stop_cont_clock(2) [OF tp], where idx = ?idx
          and s = "s1\<lparr>rr_dispatched := rr_dispatched s1 @ [?idx]\<rparr>"]
      by (simp add: s3_def)
    moreover have "ps_clock os (rr_host s3) + q \<le> ps_clock os (ps_sleep os q (rr_host s3))"
      using tp unfolding time_passes_def by blast
    moreover have "ps_clock os (ps_sleep os q (rr_host s3)) \<le> ps_clock os (rr_host s4)"
      using reaped_clock [OF tp, of "s3\<lparr>rr_host := ps_sleep os q (rr_host s3)\<rparr>" ?idx] r2 by simp
    ultimately show ?thesis using c1 [OF tp] by linarith
  qed
  have c5: "ps_clock os (rr_host s4) \<le> ps_clock os (rr_host (on_child (pe_stop os) ?idx s4))" if "time_passes os"
    by (rule on_child_clock) (rule stop_cont_clock(1) [OF that])
  consider "d" | "\<not> d" "d2" | "\<not> d" "\<not> d2" by blast
  then show thesis
  proof cases
    case 1
    show thesis by (rule gone) (use 1 body f1 c1 in simp_all)
  next
    case 2
    show thesis by (rule finished) (use 2 body f4 c4 in simp_all)
  next
    case 3
    have c6: "ps_clock os (rr_host s) + q \<le> ps_clock os (rr_host (on_child (pe_stop os) ?idx s4))" if "time_passes os"
      using c4 [OF that] c5 [OF that] by linarith
    show thesis by (rule slice) (use 3 body f4 c6 in simp_all)
  qed
qed

lemma rr_loop_invariant:
  assumes "rr_loop fuel os q pre deadline s = Some s'" and "P s"
    and step: "\<And>s. rr_pending s \<noteq> [] \<Longrightarrow> P s \<Longrightarrow> P (rr_body os q pre s)"
  shows "P s'"
  using assms(1,2)
proof (induction fuel arbitrary: s)
  case 0
  then show ?case by (subst (asm) rr_loop.simps) (auto split: if_splits)
next
  case (Suc fuel)
  then show ?case by (subst (asm) (2) rr_loop.simps) (auto split: if_splits intro: step)
qed

lemma turn_less: "rr_pending s \<noteq> [] \<Longrightarrow> turn s < length (rr_pending s)"
  by (simp add: turn_def)

lemma length_remove_at: "i < length xs \<Longrightarrow> length (remove_at i xs) = length xs - 1"
  by (simp add: remove_at_def)

lemma nth_remove_at: "i < length xs \<Longrightarrow> j < length xs - 1 \<Longrightarrow> remove_at i xs ! j = xs ! (if j < i then j else Suc j)"
  by (auto simp: remove_at_def nth_append)

lemma set_remove_at: "set (remove_at i xs) \<subseteq> set xs"
  unfolding remove_at_def by (auto dest: in_set_takeD in_set_dropD)

lemma distinct_remove_at: "distinct xs \<Longrightarrow> distinct (remove_at i xs)"
  unfolding remove_at_def by (auto simp: distinct_drop set_take_disj_set_drop_if_distinct)

lemma remove_at_notin: "distinct xs \<Longrightarrow> i < length xs \<Longrightarrow> xs ! i \<notin> set (remove_at i xs)"
proof (induction xs arbitrary: i)
  case (Cons x xs)
  then show ?case by (cases i) (auto simp: remove_at_def in_set_conv_nth)
qed simp

section \<open>Lemmas: FCFS\<close>

text \<open>Without preemption the index stays at 0: the first child pending runs until it ends.\<close>

definition fcfs_inv :: "nat \<Rightarrow> 'h rr_state \<Rightarrow> bool" where
  "fcfs_inv n s \<longleftrightarrow> rr_i s = 0 \<and> sorted (rr_dispatched s) \<and> sorted (rr_pending s)
     \<and> (\<forall>x \<in> set (rr_dispatched s). x < n \<and> (\<forall>y \<in> set (rr_pending s). x \<le> y)) \<and> set (rr_pending s) \<subseteq> {..<n}"

lemma fcfs_step: "rr_pending s \<noteq> [] \<Longrightarrow> fcfs_inv n s \<Longrightarrow> fcfs_inv n (rr_body os q False s)"
proof -
  assume ne: "rr_pending s \<noteq> []" and inv: "fcfs_inv n s"
  then obtain x xs where x: "rr_pending s = x # xs" by (cases "rr_pending s") auto
  have i: "turn s = 0" using inv by (simp add: turn_def fcfs_inv_def)
  then show ?thesis
    using inv x
    by (cases rule: rr_body_cases [of os q False s])
       (auto simp: fcfs_inv_def remove_at_def sorted_append)
qed

lemma block_count_Cons:
  "block_count (x # xs) = (if xs = [] then 1 else if x = hd xs then block_count xs else Suc (block_count xs))"
  by (cases xs) (auto simp: block_count_def)

lemma block_count_ge: "card (set xs) \<le> block_count xs"
proof (induction xs)
  case (Cons x xs)
  then show ?case by (cases xs) (auto simp: block_count_Cons card_insert_if)
qed (simp add: block_count_def)

lemma block_count_sorted: "sorted xs \<Longrightarrow> block_count (xs :: nat list) = card (set xs)"
proof (induction xs)
  case (Cons x xs)
  show ?case
  proof (cases xs)
    case (Cons y ys)
    with Cons.prems Cons.IH show ?thesis
      by (cases "x = y") (auto simp: block_count_Cons card_insert_if)
  qed (simp add: block_count_def)
qed (simp add: block_count_def)

section \<open>Lemmas: round robin\<close>

text \<open>
  Children before the index have had one slice more than those from the index on; all
  children that are still served differ by at most one slice at any earlier time.
\<close>

definition rr_fair :: "nat \<Rightarrow> 'h rr_state \<Rightarrow> bool" where
  "rr_fair n s \<longleftrightarrow> distinct (rr_pending s) \<and> set (rr_pending s) \<subseteq> {..<n} \<and> set (rr_dispatched s) \<subseteq> {..<n}
     \<and> rr_i s \<le> length (rr_pending s)
     \<and> (\<exists>c. \<forall>j < length (rr_pending s).
          count_list (rr_dispatched s) (rr_pending s ! j) = (if j < rr_i s then Suc c else c))"

lemma fair_at_turn:
  assumes "rr_fair n s" and "rr_pending s \<noteq> []"
  obtains c where "\<And>j. j < length (rr_pending s) \<Longrightarrow>
    count_list (rr_dispatched s) (rr_pending s ! j) = (if j < turn s then Suc c else c)"
proof -
  from assms obtain c where c: "\<And>j. j < length (rr_pending s) \<Longrightarrow>
      count_list (rr_dispatched s) (rr_pending s ! j) = (if j < rr_i s then Suc c else c)"
    and i: "rr_i s \<le> length (rr_pending s)" unfolding rr_fair_def by blast
  show thesis
  proof (cases "rr_i s = length (rr_pending s)")
    case True
    then have "turn s = 0" by (simp add: turn_def)
    with c True show thesis by (intro that [of "Suc c"]) simp
  next
    case False
    with i have "turn s = rr_i s" by (simp add: turn_def)
    with c show thesis by (intro that [of c]) simp
  qed
qed

lemma fair_step: "rr_pending s \<noteq> [] \<Longrightarrow> rr_fair n s \<Longrightarrow> rr_fair n (rr_body os q True s)"
proof -
  assume ne: "rr_pending s \<noteq> []" and inv: "rr_fair n s"
  let ?xs = "rr_pending s" and ?i = "turn s"
  note i = turn_less [OF ne]
  obtain c where c: "\<And>j. j < length ?xs \<Longrightarrow> count_list (rr_dispatched s) (?xs ! j) = (if j < ?i then Suc c else c)"
    using fair_at_turn [OF inv ne] by blast
  have d: "distinct ?xs" "set ?xs \<subseteq> {..<n}" "set (rr_dispatched s) \<subseteq> {..<n}" "?xs ! ?i < n"
    using inv i nth_mem [OF i] unfolding rr_fair_def by blast+
  show ?thesis
  proof (cases rule: rr_body_cases [of os q True s])
    case gone
    with c d i show ?thesis unfolding rr_fair_def gone(1-3)
      by (auto simp: length_remove_at nth_remove_at distinct_remove_at dest: set_remove_at [THEN subsetD] intro!: exI [of _ c])
  next
    case finished
    with c d i show ?thesis unfolding rr_fair_def finished(1-3)
      by (auto simp: length_remove_at nth_remove_at distinct_remove_at nth_eq_iff_index_eq dest: set_remove_at [THEN subsetD] intro!: exI [of _ c])
  next
    case slice
    with c d i show ?thesis unfolding rr_fair_def slice(1-3)
      by (auto simp: nth_eq_iff_index_eq intro!: exI [of _ c])
  qed
qed

definition rr_even :: "'h rr_state \<Rightarrow> bool" where
  "rr_even s \<longleftrightarrow>
     (\<forall>u v x y. rr_dispatched s = u @ v \<and> {x, y} \<subseteq> set v \<union> set (rr_pending s)
        \<longrightarrow> count_list u x \<le> Suc (count_list u y))"

lemma fair_counts:
  assumes "rr_fair n s" "x \<in> set (rr_pending s)" "y \<in> set (rr_pending s)"
  shows "count_list (rr_dispatched s) x \<le> Suc (count_list (rr_dispatched s) y)"
proof -
  from assms obtain j k where "x = rr_pending s ! j" "j < length (rr_pending s)" "y = rr_pending s ! k"
    "k < length (rr_pending s)" by (auto simp: in_set_conv_nth)
  moreover from assms(1) obtain c where "\<forall>j < length (rr_pending s).
      count_list (rr_dispatched s) (rr_pending s ! j) = (if j < rr_i s then Suc c else c)"
    unfolding rr_fair_def by blast
  ultimately show ?thesis by simp
qed

lemma even_step:
  assumes ne: "rr_pending s \<noteq> []" and fair: "rr_fair n s" and even: "rr_even s"
  shows "rr_even (rr_body os q True s)"
proof -
  let ?t = "rr_body os q True s"
  have sub: "set (rr_pending ?t) \<subseteq> set (rr_pending s)"
    by (cases rule: rr_body_cases [of os q True s]) (use set_remove_at in fastforce)+
  have grow: "rr_dispatched ?t = rr_dispatched s \<or> (\<exists>z \<in> set (rr_pending s). rr_dispatched ?t = rr_dispatched s @ [z])"
    using turn_less [OF ne] by (cases rule: rr_body_cases [of os q True s]) auto
  have fair': "rr_fair n ?t" by (rule fair_step [OF ne fair])
  show ?thesis unfolding rr_even_def
  proof (intro allI impI)
    fix u v x y
    assume a: "rr_dispatched ?t = u @ v \<and> {x, y} \<subseteq> set v \<union> set (rr_pending ?t)"
    show "count_list u x \<le> Suc (count_list u y)"
    proof (cases v rule: rev_cases)
      case Nil
      with a fair_counts [OF fair'] show ?thesis by simp
    next
      case (snoc v' z)
      from grow show ?thesis
      proof
        assume "rr_dispatched ?t = rr_dispatched s"
        with a have "rr_dispatched s = u @ v" "{x, y} \<subseteq> set v \<union> set (rr_pending s)" using sub by auto
        with even show ?thesis unfolding rr_even_def by blast
      next
        assume "\<exists>z \<in> set (rr_pending s). rr_dispatched ?t = rr_dispatched s @ [z]"
        with a snoc have "rr_dispatched s = u @ v'" "z \<in> set (rr_pending s)" by auto
        moreover have "{x, y} \<subseteq> set v' \<union> set (rr_pending s)" using a snoc sub calculation(2) by auto
        ultimately show ?thesis using even unfolding rr_even_def by blast
      qed
    qed
  qed
qed

text \<open>Two slices in a row go to the same child only when it is the last one pending.\<close>

definition rr_solo :: "'h rr_state \<Rightarrow> bool" where
  "rr_solo s \<longleftrightarrow>
     (rr_dispatched s \<noteq> [] \<and> last (rr_dispatched s) \<in> set (rr_pending s) \<longrightarrow>
        rr_pending s ! ((rr_i s + length (rr_pending s) - 1) mod length (rr_pending s)) = last (rr_dispatched s))
     \<and> (\<forall>j k. Suc j < length (rr_dispatched s) \<and> rr_dispatched s ! j = rr_dispatched s ! Suc j
           \<longrightarrow> set (rr_pending s) \<subseteq> {rr_dispatched s ! j}
             \<and> (j \<le> k \<and> k < length (rr_dispatched s) \<longrightarrow> rr_dispatched s ! k = rr_dispatched s ! j))"

lemma before_turn:
  assumes "rr_i s \<le> length (rr_pending s)" "rr_pending s \<noteq> []"
  shows "(rr_i s + length (rr_pending s) - 1) mod length (rr_pending s)
    = (if turn s = 0 then length (rr_pending s) - 1 else turn s - 1)"
proof (cases "rr_i s = length (rr_pending s) \<or> rr_i s = 0")
  case True
  then show ?thesis using assms by (auto simp: turn_def mod_if)
next
  case False
  with assms have i: "0 < rr_i s" "rr_i s < length (rr_pending s)" by auto
  then have "rr_i s + length (rr_pending s) - 1 = (rr_i s - 1) + length (rr_pending s)" by simp
  then have "(rr_i s + length (rr_pending s) - 1) mod length (rr_pending s) = (rr_i s - 1) mod length (rr_pending s)"
    by (simp only: mod_add_self2)
  with i show ?thesis by (simp add: turn_def)
qed

lemma solo_last:
  assumes "rr_fair n s" "rr_solo s" "rr_pending s \<noteq> []" "rr_dispatched s \<noteq> []"
    and "last (rr_dispatched s) = rr_pending s ! turn s"
  shows "rr_pending s = [rr_pending s ! turn s]"
proof -
  let ?xs = "rr_pending s" and ?i = "turn s"
  note i = turn_less [OF assms(3)]
  let ?b = "if ?i = 0 then length ?xs - 1 else ?i - 1"
  have le: "rr_i s \<le> length ?xs" "distinct ?xs" using assms(1) by (auto simp: rr_fair_def)
  have "last (rr_dispatched s) \<in> set ?xs" using assms(5) nth_mem [OF i] by simp
  with assms(2,4) have "?xs ! ((rr_i s + length ?xs - 1) mod length ?xs) = last (rr_dispatched s)"
    unfolding rr_solo_def by blast
  then have "?xs ! ?b = ?xs ! ?i" unfolding before_turn [OF le(1) assms(3)] assms(5) .
  moreover have "?b < length ?xs" using i by auto
  ultimately have "?b = ?i" using nth_eq_iff_index_eq [OF le(2)] i by blast
  then have "?i = 0" "length ?xs - 1 = 0" by (auto split: if_splits)
  with i have "length ?xs = 1" "?i = 0" by linarith+
  then show ?thesis by (cases ?xs) auto
qed

lemma solo_step:
  assumes ne: "rr_pending s \<noteq> []" and fair: "rr_fair n s" and solo: "rr_solo s"
  shows "rr_solo (rr_body os q True s)"
proof -
  let ?xs = "rr_pending s" and ?i = "turn s" and ?d = "rr_dispatched s"
  note i = turn_less [OF ne]
  have le: "rr_i s \<le> length ?xs" "distinct ?xs" using fair by (auto simp: rr_fair_def)
  have lastpos: "?xs ! (if ?i = 0 then length ?xs - 1 else ?i - 1) = last ?d" if "?d \<noteq> []" "last ?d \<in> set ?xs"
    using solo that unfolding rr_solo_def before_turn [OF le(1) ne, symmetric] by blast
  have pairs: "set ?xs \<subseteq> {?d ! j}" "\<And>k. j \<le> k \<Longrightarrow> k < length ?d \<Longrightarrow> ?d ! k = ?d ! j"
    if "Suc j < length ?d" "?d ! j = ?d ! Suc j" for j
    using solo that unfolding rr_solo_def by blast+
  have ext: "set ?xs \<subseteq> {(?d @ [?xs ! ?i]) ! j} \<and> (j \<le> k \<and> k < Suc (length ?d) \<longrightarrow> (?d @ [?xs ! ?i]) ! k = (?d @ [?xs ! ?i]) ! j)"
    if j: "Suc j < Suc (length ?d)" "(?d @ [?xs ! ?i]) ! j = (?d @ [?xs ! ?i]) ! Suc j" for j k
  proof (cases "Suc j < length ?d")
    case True
    with j have e: "?d ! j = ?d ! Suc j" by (simp add: nth_append)
    have x: "?xs ! ?i = ?d ! j" using pairs(1) [OF True e] nth_mem [OF i] by blast
    have "(?d @ [?xs ! ?i]) ! m = ?d ! j" if "j \<le> m" "m < Suc (length ?d)" for m
      using that x pairs(2) [OF True e, of m] by (cases "m < length ?d") (simp_all add: nth_append)
    then show ?thesis using pairs(1) [OF True e] True by (simp add: nth_append)
  next
    case False
    with j have jl: "Suc j = length ?d" by simp
    then have ne_d: "?d \<noteq> []" by auto
    have "last ?d = ?d ! j" using last_conv_nth [OF ne_d] jl by (metis diff_Suc_1)
    with j jl have "last ?d = ?xs ! ?i" by (simp add: nth_append)
    from solo_last [OF fair solo ne ne_d this] have "set ?xs \<subseteq> {?xs ! ?i}"
      by (metis list.set(1,2) order_refl)
    moreover have "k = j \<or> k = Suc j" if "j \<le> k" "k < Suc (length ?d)" using that jl by auto
    moreover have "(?d @ [?xs ! ?i]) ! Suc j = ?xs ! ?i" unfolding jl by simp
    ultimately show ?thesis using j(2) by auto
  qed
  show ?thesis
  proof (cases rule: rr_body_cases [of os q True s])
    case gone
    have "set (remove_at ?i ?xs) \<subseteq> set ?xs" by (rule set_remove_at)
    moreover have "remove_at ?i ?xs ! ((?i + (length ?xs - 1) - 1) mod (length ?xs - 1)) = last ?d"
      if d: "?d \<noteq> []" "last ?d \<in> set (remove_at ?i ?xs)"
    proof -
      have "length (remove_at ?i ?xs) \<noteq> 0" using d(2) by auto
      then have l: "1 < length ?xs" using i by (simp add: length_remove_at)
      have p: "?xs ! (if ?i = 0 then length ?xs - 1 else ?i - 1) = last ?d"
        using lastpos d set_remove_at by fastforce
      show ?thesis
      proof (cases "?i = 0")
        case True
        with p l i show ?thesis by (simp add: nth_remove_at Suc_diff_Suc)
      next
        case False
        then have "?i + (length ?xs - 1) - 1 = (?i - 1) + (length ?xs - 1)" by simp
        then have "(?i + (length ?xs - 1) - 1) mod (length ?xs - 1) = ?i - 1"
          using i False by (simp only: mod_add_self2) simp
        with p False i show ?thesis by (simp add: nth_remove_at)
      qed
    qed
    ultimately show ?thesis unfolding rr_solo_def gone(1-3) length_remove_at [OF i] using pairs by blast
  next
    case finished
    have "?xs ! ?i \<notin> set (remove_at ?i ?xs)" by (rule remove_at_notin [OF le(2) i])
    with ext set_remove_at [of ?i ?xs] show ?thesis
      unfolding rr_solo_def finished(1-3) by (auto simp: subset_iff)
  next
    case slice
    have "(?i + 1 + length ?xs - 1) mod length ?xs = ?i" using i by simp
    with ext show ?thesis unfolding rr_solo_def slice(1-3) by simp
  qed
qed

section \<open>Lemmas: start, end and length of a run\<close>

lemma fork_children_length: "fork_children os n h = (Inr ps, h') \<Longrightarrow> length ps = n"
  by (induction n arbitrary: h ps h') (auto split: prod.splits sum.splits)

lemma rr_start_simps [simp]:
  "rr_pending (rr_start os ps h) = [0..<length ps]" "rr_i (rr_start os ps h) = 0"
  "rr_dispatched (rr_start os ps h) = []" "rr_exited (rr_start os ps h) = []"
  "length (rr_children (rr_start os ps h)) = length ps"
proof -
  have "rr_pending (fold (on_child f) is s) = rr_pending s \<and> rr_i (fold (on_child f) is s) = rr_i s
     \<and> rr_dispatched (fold (on_child f) is s) = rr_dispatched s \<and> rr_exited (fold (on_child f) is s) = rr_exited s
     \<and> length (rr_children (fold (on_child f) is s)) = length (rr_children s)" for f "is" and s :: "'a rr_state"
    by (induction "is" arbitrary: s) simp_all
  then show "rr_pending (rr_start os ps h) = [0..<length ps]" "rr_i (rr_start os ps h) = 0"
    "rr_dispatched (rr_start os ps h) = []" "rr_exited (rr_start os ps h) = []"
    "length (rr_children (rr_start os ps h)) = length ps"
    by (simp_all add: rr_start_def)
qed

lemma cleanup_simps [simp]:
  "rr_dispatched (fold (rr_cleanup_one os) is s) = rr_dispatched s"
  "rr_pending (fold (rr_cleanup_one os) is s) = rr_pending s"
  "rr_exited (fold (rr_cleanup_one os) is s) = rr_exited s"
  "length (rr_children (fold (rr_cleanup_one os) is s)) = length (rr_children s)"
  by (induction "is" arbitrary: s) (simp_all add: rr_cleanup_one_def Let_def)

definition put_down :: "preemptor \<Rightarrow> bool" where
  "put_down p \<longleftrightarrow> \<not> pe_alive p \<and> \<not> pe_stopped p"

lemma kill_puts_down: "put_down (fst (snd (pe_kill os p h)))"
proof -
  have "pe_stopped (fst (snd (pe_signal os sig q g))) = pe_stopped q" for sig q g
    by (auto simp: pe_signal_def split: prod.splits kill_outcome.splits)
  then show ?thesis by (simp add: put_down_def pe_kill_def Let_def split_beta)
qed

lemma cleanup_one_child:
  "rr_children (rr_cleanup_one os i s) ! j =
     (if i = j \<and> i \<notin> set (rr_exited s) \<and> i < length (rr_children s)
      then fst (snd (pe_kill os (rr_children s ! i) (rr_host s))) else rr_children s ! j)"
  by (cases "i < length (rr_children s)")
     (auto simp: rr_cleanup_one_def on_child_def Let_def split_beta list_update_beyond nth_list_update)

lemma cleanup_puts_down:
  "j \<in> set is \<Longrightarrow> j \<notin> set (rr_exited s) \<Longrightarrow> j < length (rr_children s) \<Longrightarrow>
     put_down (rr_children (fold (rr_cleanup_one os) is s) ! j)"
proof (induction "is" arbitrary: s rule: rev_induct)
  case (snoc i "is")
  then show ?case by (cases "i = j") (auto simp: cleanup_one_child kill_puts_down)
qed simp

text \<open>The turns a run can still take: children to end, quanta before the deadline.\<close>

definition quanta :: "real \<Rightarrow> real \<Rightarrow> real \<Rightarrow> nat" where
  "quanta q d c = nat \<lceil>(d - c) / q\<rceil>"

definition turns_left :: "'h posix \<Rightarrow> real \<Rightarrow> real \<Rightarrow> 'h rr_state \<Rightarrow> nat" where
  "turns_left os q deadline s = length (rr_pending s) + quanta q deadline (ps_clock os (rr_host s))"

lemma quanta_left:
  assumes "0 < q" "c \<le> c'"
  shows "quanta q d c' \<le> quanta q d c"
    and "c < d \<Longrightarrow> c + q \<le> c' \<Longrightarrow> quanta q d c' < quanta q d c"
proof -
  show "quanta q d c' \<le> quanta q d c"
    unfolding quanta_def using assms by (intro nat_mono ceiling_mono divide_right_mono) auto
  assume c: "c < d" "c + q \<le> c'"
  have "(d - c') / q \<le> (d - c - q) / q" using c assms(1) by (intro divide_right_mono) auto
  also have "\<dots> = (d - c) / q - 1" using assms(1) by (simp add: diff_divide_distrib)
  finally have "\<lceil>(d - c') / q\<rceil> \<le> \<lceil>(d - c) / q - 1\<rceil>" by (rule ceiling_mono)
  also have "\<dots> = \<lceil>(d - c) / q\<rceil> - 1" by simp
  finally have "\<lceil>(d - c') / q\<rceil> < \<lceil>(d - c) / q\<rceil>" by simp
  moreover have "0 < \<lceil>(d - c) / q\<rceil>" using c(1) assms(1) by simp
  ultimately show "quanta q d c' < quanta q d c" unfolding quanta_def by simp
qed

lemma turns_decrease:
  assumes "time_passes os" "0 < q" "rr_pending s \<noteq> []" "ps_clock os (rr_host s) < deadline"
  shows "turns_left os q deadline (rr_body os q pre s) + length (rr_dispatched (rr_body os q pre s))
      \<le> turns_left os q deadline s + length (rr_dispatched s)"
    and "turns_left os q deadline (rr_body os q pre s) < turns_left os q deadline s"
proof -
  let ?c = "ps_clock os (rr_host s)" and ?c' = "ps_clock os (rr_host (rr_body os q pre s))"
  have l: "length (rr_pending s) = Suc (length (remove_at (turn s) (rr_pending s)))"
    using length_remove_at [OF turn_less [OF assms(3)]] assms(3) by simp
  have "turns_left os q deadline (rr_body os q pre s) + length (rr_dispatched (rr_body os q pre s))
      \<le> turns_left os q deadline s + length (rr_dispatched s)
    \<and> turns_left os q deadline (rr_body os q pre s) < turns_left os q deadline s"
  proof (cases rule: rr_body_cases [of os q pre s])
    case gone
    with l quanta_left(1) [OF assms(2) gone(4) [OF assms(1)], of deadline] show ?thesis
      by (simp add: turns_left_def)
  next
    case finished
    then have "?c \<le> ?c'" using assms(1,2) by force
    from quanta_left(1) [OF assms(2) this, of deadline] finished l show ?thesis
      by (simp add: turns_left_def)
  next
    case slice
    then have c: "?c + q \<le> ?c'" using assms(1) by blast
    then have "?c \<le> ?c'" using assms(2) by linarith
    from quanta_left(2) [OF assms(2) this assms(4) c] slice show ?thesis
      by (simp add: turns_left_def)
  qed
  then show "turns_left os q deadline (rr_body os q pre s) + length (rr_dispatched (rr_body os q pre s))
      \<le> turns_left os q deadline s + length (rr_dispatched s)"
    "turns_left os q deadline (rr_body os q pre s) < turns_left os q deadline s" by blast+
qed

lemma rr_loop_returns:
  assumes "time_passes os" "0 < q" "turns_left os q deadline s \<le> fuel"
  shows "\<exists>s'. rr_loop fuel os q pre deadline s = Some s'
    \<and> length (rr_dispatched s') \<le> turns_left os q deadline s + length (rr_dispatched s)"
  using assms(3)
proof (induction fuel arbitrary: s)
  case 0
  then show ?case by (subst rr_loop.simps) (auto simp: turns_left_def)
next
  case (Suc fuel)
  show ?case
  proof (cases "rr_pending s \<noteq> [] \<and> ps_clock os (rr_host s) < deadline")
    case True
    note t = turns_decrease [OF assms(1,2), of s deadline pre]
    have "turns_left os q deadline (rr_body os q pre s) \<le> fuel" using t(2) True Suc.prems by linarith
    from Suc.IH [OF this] t(1) True show ?thesis by (subst rr_loop.simps) auto
  qed (subst rr_loop.simps, auto)
qed

lemma rr_order_cases:
  assumes "rr_order fuel os n q pre wall h = Some (Inr s)"
  obtains ps h1 s1 where "fork_children os n h = (Inr ps, h1)" "length ps = n"
    "rr_loop fuel os q pre (ps_clock os (rr_host (rr_start os ps h1)) + wall) (rr_start os ps h1) = Some s1"
    "s = fold (rr_cleanup_one os) [0..<n] s1"
proof -
  obtain r h1 where f: "fork_children os n h = (r, h1)" by force
  with assms obtain ps where r: "r = Inr ps"
    by (cases r) (auto simp: rr_order_def)
  with assms f fork_children_length [of os n h ps h1] that show thesis
    by (auto simp: rr_order_def Let_def)
qed

lemma run_result: "map_option (map_sum id f) r = Some (Inr y) \<Longrightarrow> \<exists>s. r = Some (Inr s) \<and> f s = y"
  by (cases r; cases "the r") auto

lemma time_passes_box: "time_passes box_host"
  by (auto simp: time_passes_def box_host_def box_map_def split: option.splits)

text \<open>Shares are percentages rounded to a tenth, so they add up to 100 up to 0.05 each.\<close>

lemma round_half_even_error: "\<bar>of_int (round_half_even x) - x\<bar> \<le> 1 / 2"
  unfolding round_half_even_def Let_def using floor_correct [of x] by (auto simp: abs_le_iff)

lemma share_pct_error: "\<bar>share_pct tot u - 100 * real_of_int u / real_of_int tot\<bar> \<le> 1 / 20"
  unfolding share_pct_def round_to_def
  using round_half_even_error [of "100 * real_of_int u / real_of_int tot * 10 ^ 1"] by (simp add: abs_le_iff field_simps)

lemma shares_sum:
  assumes "sum_list us \<noteq> 0"
  shows "\<bar>sum_list (map (share_pct (sum_list us)) us) - 100\<bar> \<le> real (length us) / 20"
proof -
  have "\<bar>sum_list (map (share_pct t) vs) - 100 * real_of_int (sum_list vs) / real_of_int t\<bar> \<le> real (length vs) / 20" for t vs
  proof (induction vs)
    case (Cons v vs)
    have "100 * real_of_int (sum_list (v # vs)) / real_of_int t
        = 100 * real_of_int v / real_of_int t + 100 * real_of_int (sum_list vs) / real_of_int t"
      by (simp add: add_divide_distrib distrib_left)
    moreover have "real (length (v # vs)) / 20 = 1 / 20 + real (length vs) / 20" by simp
    ultimately show ?case
      using Cons share_pct_error [of t v] unfolding list.map sum_list.Cons abs_le_iff by linarith
  qed simp
  from this [of "sum_list us" us] assms show ?thesis by simp
qed

text \<open>What the loop keeps holds of the dispatch order of a run.\<close>

lemma run_invariant:
  assumes "rr_order fuel os n quantum preempt max_wall h = Some (Inr s)"
    and "\<And>ps h1. length ps = n \<Longrightarrow> P (rr_start os ps h1)"
    and "\<And>s. rr_pending s \<noteq> [] \<Longrightarrow> P s \<Longrightarrow> P (rr_body os quantum preempt s)"
  shows "\<exists>s1. P s1 \<and> rr_dispatched s = rr_dispatched s1 \<and> rr_pending s = rr_pending s1"
proof -
  from rr_order_cases [OF assms(1)] obtain ps h1 s1 where run: "length ps = n"
    "rr_loop fuel os quantum preempt (ps_clock os (rr_host (rr_start os ps h1)) + max_wall) (rr_start os ps h1) = Some s1"
    "s = fold (rr_cleanup_one os) [0..<n] s1" by blast
  have "P s1" by (rule rr_loop_invariant [OF run(2) assms(2) [OF run(1)] assms(3)])
  then show ?thesis unfolding run(3) cleanup_simps by blast
qed

lemma fcfs_order:
  fixes os :: "'h posix"
  assumes "rr_order fuel os n quantum False max_wall h = Some (Inr s)"
  shows "sorted (rr_dispatched s)" "set (rr_dispatched s) \<subseteq> {..<n}"
proof -
  have "\<exists>s1 :: 'h rr_state. fcfs_inv n s1 \<and> rr_dispatched s = rr_dispatched s1 \<and> rr_pending s = rr_pending s1"
  proof (rule run_invariant [where P = "fcfs_inv n", OF assms])
    show "fcfs_inv n (rr_start os ps h1)" if "length ps = n" for ps h1 using that by (auto simp: fcfs_inv_def)
  qed (rule fcfs_step)
  then show "sorted (rr_dispatched s)" "set (rr_dispatched s) \<subseteq> {..<n}" by (auto simp: fcfs_inv_def)
qed

lemma rr_order_inv:
  fixes os :: "'h posix"
  assumes "rr_order fuel os n quantum True max_wall h = Some (Inr s)"
  obtains s1 :: "'h rr_state" where "rr_fair n s1" "rr_even s1" "rr_solo s1" "rr_dispatched s = rr_dispatched s1" "rr_pending s = rr_pending s1"
proof -
  have "\<exists>s1 :: 'h rr_state. (rr_fair n s1 \<and> rr_even s1 \<and> rr_solo s1) \<and> rr_dispatched s = rr_dispatched s1 \<and> rr_pending s = rr_pending s1"
  proof (rule run_invariant [where P = "\<lambda>s. rr_fair n s \<and> rr_even s \<and> rr_solo s", OF assms])
    show "rr_fair n (rr_start os ps h1) \<and> rr_even (rr_start os ps h1) \<and> rr_solo (rr_start os ps h1)" if "length ps = n" for ps h1
      using that by (auto simp: rr_fair_def rr_even_def rr_solo_def)
  qed (use fair_step even_step solo_step in blast)
  with that show thesis by blast
qed

section \<open>Properties\<close>

text \<open>
  C13. Round robin over real processes is fair: in the dispatch order of a preemptive run two
  children that are both served again later, or still wait when the time is up, differ by at
  most one slice at any moment before; and a child gets two slices in a row only once every other
  child has ended. Only the forked children are dispatched.
\<close>

theorem rr_order_fair:
  assumes "rr_order fuel os n quantum True max_wall h = Some (Inr s)"
  shows "set (rr_dispatched s) \<subseteq> {..<n}
    \<and> (\<forall>u v x y. rr_dispatched s = u @ v \<and> {x, y} \<subseteq> set v \<union> set (rr_pending s)
          \<longrightarrow> count_list u x \<le> Suc (count_list u y))
    \<and> (\<forall>j k. Suc j < length (rr_dispatched s) \<and> rr_dispatched s ! j = rr_dispatched s ! Suc j
          \<and> j \<le> k \<and> k < length (rr_dispatched s) \<longrightarrow> rr_dispatched s ! k = rr_dispatched s ! j)"
proof -
  from assms obtain s1 :: "'a rr_state" where inv: "rr_fair n s1" "rr_even s1" "rr_solo s1"
    and eq: "rr_dispatched s = rr_dispatched s1" "rr_pending s = rr_pending s1" by (rule rr_order_inv)
  have "set (rr_dispatched s1) \<subseteq> {..<n}" using inv(1) by (simp add: rr_fair_def)
  then show ?thesis using inv(2,3) [unfolded rr_even_def rr_solo_def] unfolding eq by blast
qed

theorem rr_order_fair_witness:
  "\<exists>s. rr_order 20 box_host 2 1 True 9 \<lparr>bx_tasks = [], bx_clock = 0\<rparr> = Some (Inr s)
     \<and> rr_dispatched s = [0, 1, 0, 1, 0, 1] \<and> set (rr_dispatched s) \<subseteq> {..<2}"
proof -
  let ?r = "rr_order 20 box_host 2 1 True 9 \<lparr>bx_tasks = [], bx_clock = 0\<rparr>"
  have "map_option (map_sum id rr_dispatched) ?r = Some (Inr [0, 1, 0, 1, 0, 1])" by code_simp
  from run_result [OF this] obtain s where s: "?r = Some (Inr s)" "rr_dispatched s = [0, 1, 0, 1, 0, 1]" by blast
  with rr_order_fair [OF s(1)] show ?thesis by blast
qed

text \<open>
  Without preemption the children run one after the other: the dispatch order is sorted, so
  each child has one block of slices, and the number of blocks, which is never less than the
  number of children dispatched, is exactly that number.
\<close>

theorem fcfs_one_block_each:
  assumes "rr_order fuel os n quantum False max_wall h = Some (Inr s)"
  shows "sorted (rr_dispatched s) \<and> set (rr_dispatched s) \<subseteq> {..<n}
    \<and> block_count (rr_dispatched s) = card (set (rr_dispatched s))
    \<and> card (set (order :: nat list)) \<le> block_count order"
  using fcfs_order [OF assms] block_count_sorted [of "rr_dispatched s"] block_count_ge [of order] by blast

theorem fcfs_one_block_each_witness:
  "\<exists>s. rr_order 20 box_host 2 1 False 9 \<lparr>bx_tasks = [], bx_clock = 0\<rparr> = Some (Inr s)
     \<and> rr_dispatched s = [0, 0, 0, 1, 1, 1] \<and> block_count (rr_dispatched s) = card (set (rr_dispatched s))"
proof -
  let ?r = "rr_order 20 box_host 2 1 False 9 \<lparr>bx_tasks = [], bx_clock = 0\<rparr>"
  have "map_option (map_sum id rr_dispatched) ?r = Some (Inr [0, 0, 0, 1, 1, 1])" by code_simp
  from run_result [OF this] obtain s where s: "?r = Some (Inr s)" "rr_dispatched s = [0, 0, 0, 1, 1, 1]" by blast
  with fcfs_one_block_each [OF s(1)] show ?thesis by blast
qed



end
