(* ===== verification/Eval_Host.thy ===== *)
theory Eval_Host
  imports Vmem Real_Proc Os_Caps
begin

text \<open>
  The metrics of the evaluation harness on the host primitives (\<open>measure_os_capabilities\<close>,
  \<open>measure_real_preemption\<close>, \<open>measure_demand_paging\<close> and
  \<open>measure_cgroup_cpu_share\<close> in \<open>gcos/eval/__init__.py\<close>), over the models of
  \<open>Os_Caps\<close>, \<open>Real_Proc\<close>, \<open>Vmem\<close> and \<open>Cgroup\<close>: what a metric reports
  for any parameters, and what its verdict says of the run it measured.
\<close>

section \<open>Posture\<close>

definition measure_os_capabilities :: "probe_answers \<Rightarrow> caps_row" where
  "measure_os_capabilities answers = caps_to_dict (os_caps answers)"

section \<open>Demand paging\<close>

definition page_keys :: "nat \<Rightarrow> string list" where
  "page_keys n = map (\<lambda>i. ''p'' @ show_nat i) [0..<n]"

text \<open>The three loops: an exception ends a loop.\<close>

fun store_all :: "byte list \<Rightarrow> string list \<Rightarrow> page_store \<Rightarrow> py_exc option \<times> page_store" where
  "store_all d [] s = (None, s)"
| "store_all d (k # ks) s =
     (case vm_store k d s of (Inl e, s1) \<Rightarrow> (Some e, s1) | (Inr r, s1) \<Rightarrow> store_all d ks s1)"

definition page_out_all :: "string list \<Rightarrow> page_store \<Rightarrow> page_store" where
  "page_out_all ks s = fold (\<lambda>k s. fst (snd (vm_page_out k s))) ks s"

fun read_all :: "string list \<Rightarrow> page_store \<Rightarrow> py_exc option \<times> page_store" where
  "read_all [] s = (None, s)"
| "read_all (k # ks) s =
     (case vm_read k s of (Inl e, s1) \<Rightarrow> (Some e, s1) | (Inr d, s1) \<Rightarrow> read_all ks s1)"

record paging_metric =
  pq_pages :: nat
  pq_resident_before :: nat
  pq_resident_after_pageout :: nat
  pq_page_outs :: nat
  pq_fault_ins :: nat
  pq_kernel_majflt_delta :: int
  pq_page_size :: nat
  pq_demand_paging_works :: bool
  pq_mechanism :: string

text \<open>The body of the \<open>with\<close> block; \<open>stat\<close> is the text of the fault counters when they are read.\<close>

definition paging_body :: "nat \<Rightarrow> nat \<Rightarrow> string option \<Rightarrow> page_store \<Rightarrow> (py_exc + paging_metric) \<times> page_store" where
  "paging_body n payload stat s0 =
     (case store_all (replicate payload 120) (page_keys n) s0 of
        (Some e, s1) \<Rightarrow> (Inl e, s1)
      | (None, s1) \<Rightarrow>
          let before = resident_pages s1;
              s2 = page_out_all (page_keys n) s1;
              after = resident_pages s2
          in (case read_all (page_keys n) s2 of
                (Some e, s3) \<Rightarrow> (Inl e, s3)
              | (None, s3) \<Rightarrow>
                  let st = fault_stats stat s3
                  in (Inr \<lparr>pq_pages = n, pq_resident_before = before, pq_resident_after_pageout = after,
                           pq_page_outs = fr_app_page_outs st, pq_fault_ins = fr_app_fault_ins st,
                           pq_kernel_majflt_delta = fr_kernel_majflt_delta st, pq_page_size = fr_page_size st,
                           pq_demand_paging_works = (after < before \<and> fr_app_fault_ins st = n),
                           pq_mechanism = ''mmap + madvise(MADV_DONTNEED); fault-in on access''\<rparr>, s3)))"

definition measure_demand_paging ::
  "nat \<Rightarrow> (string \<Rightarrow> bool) \<Rightarrow> string option \<Rightarrow> string option \<Rightarrow> init_fault \<Rightarrow> string \<Rightarrow> nat \<Rightarrow> nat \<Rightarrow> shm_fs
     \<Rightarrow> (py_exc + paging_metric) \<times> shm_fs" where
  "measure_demand_paging page has stat0 stat fault fresh n payload fs =
     (case store_init page has stat0 fault fresh (int n * 4) None fs of
        (Inl e, fs1) \<Rightarrow> (Inl e, fs1)
      | (Inr s0, fs1) \<Rightarrow>
          let (r, s1) = paging_body n payload stat s0; (err, s2, fs2) = vm_close s1 fs1
          in (case err of Some e \<Rightarrow> Inl e | None \<Rightarrow> r, fs2))"

section \<open>Real preemption\<close>

record order_row =
  or_order :: "nat list"
  or_max_consecutive_run :: nat
  or_blocks :: nat

record preemption_metric =
  pr_n_procs :: nat
  pr_rr :: order_row
  pr_fcfs :: order_row
  pr_rr_preempts :: bool
  pr_mechanism :: string

definition order_row_of :: "nat list \<Rightarrow> order_row" where
  "order_row_of order =
     \<lparr>or_order = order, or_max_consecutive_run = max_consecutive_run order, or_blocks = block_count order\<rparr>"

definition preemption_report :: "nat \<Rightarrow> nat list \<Rightarrow> nat list \<Rightarrow> preemption_metric" where
  "preemption_report n rr fcfs =
     \<lparr>pr_n_procs = n, pr_rr = order_row_of rr, pr_fcfs = order_row_of fcfs,
      pr_rr_preempts = (block_count fcfs = n \<and> n < block_count rr),
      pr_mechanism = ''real child processes, SIGSTOP/SIGCONT kernel preemption''\<rparr>"

text \<open>\<open>None\<close> when the fuel of a run does not suffice; \<open>rr_order\<close> has a limit of 30 seconds.\<close>

definition measure_real_preemption ::
  "nat \<Rightarrow> 'h posix \<Rightarrow> nat \<Rightarrow> real \<Rightarrow> 'h \<Rightarrow> (py_exc + preemption_metric) option" where
  "measure_real_preemption fuel os n quantum h =
     (case rr_order fuel os n quantum True 30 h of
        None \<Rightarrow> None
      | Some (Inl (e, h1)) \<Rightarrow> Some (Inl e)
      | Some (Inr rr) \<Rightarrow>
          (case rr_order fuel os n quantum False 30 (rr_host rr) of
             None \<Rightarrow> None
           | Some (Inl (e, h1)) \<Rightarrow> Some (Inl e)
           | Some (Inr fcfs) \<Rightarrow> Some (Inr (preemption_report n (rr_dispatched rr) (rr_dispatched fcfs)))))"

section \<open>CPU shares\<close>

datatype share_metric =
    Not_enforced string
  | Enforced "int list" "real list" "real list" bool

definition tracks_weight :: "real list \<Rightarrow> bool" where
  "tracks_weight measured = list_all (\<lambda>i. measured ! i \<le> measured ! (i + 1)) [0..<length measured - 1]"

definition measure_cgroup_cpu_share ::
  "'h posix \<Rightarrow> cg_host \<Rightarrow> ('h \<Rightarrow> string \<Rightarrow> string option) \<Rightarrow> ('h \<Rightarrow> string \<Rightarrow> bool) \<Rightarrow> int list \<Rightarrow> real
     \<Rightarrow> 'h \<Rightarrow> cg_fs \<Rightarrow> py_exc + share_metric" where
  "measure_cgroup_cpu_share os cgh contents vacant weights duration h fs =
     (if \<not> cf_available cgh
      then Inr (Not_enforced ''cgroup v2 not delegated here (non-Linux or no privilege)'')
      else andthen (fst (cpu_share os cgh contents vacant weights duration h fs)) (\<lambda>res.
             Inr (case res of
                    None \<Rightarrow> Not_enforced ''cgroup runtime probe failed''
                  | Some r \<Rightarrow> Enforced (sw_weights r) (sw_measured_share_pct r) (sw_expected_share_pct r)
                                (tracks_weight (sw_measured_share_pct r)))))"

section \<open>Lemmas: residency\<close>

text \<open>Which pages a store tracks and whether they are resident.\<close>

definition flags :: "page_store \<Rightarrow> (string \<times> bool) list" where
  "flags s = map (\<lambda>(k, r). (k, pr_resident r)) (vm_pages s)"

lemma map_of_flags: "map_of (flags s) k = map_option pr_resident (map_of (vm_pages s) k)"
  by (simp add: flags_def map_of_map comp_def)

lemma resident_flags: "resident_pages s = length (filter snd (flags s))"
  by (simp add: resident_pages_def flags_def filter_map comp_def split_beta)

lemma flags_update: "map (\<lambda>(k, r). (k, pr_resident r)) (AList.update k r ps) = AList.update k (pr_resident r) (map (\<lambda>(k, r). (k, pr_resident r)) ps)"
  by (induction ps) auto

lemma update_new: "k \<notin> set (map fst al) \<Longrightarrow> AList.update k v al = al @ [(k, v)]"
  by (induction al) auto

lemma store_flags:
  assumes "\<not> vm_closed s" "vm_next_off s + slots_of (vm_page s) (length d) * vm_page s \<le> vm_capacity_bytes s"
  obtains r s' where "vm_store k d s = (Inr r, s')" "flags s' = AList.update k True (flags s)" "\<not> vm_closed s'"
    "vm_next_off s' = vm_next_off s + slots_of (vm_page s) (length d) * vm_page s" "vm_page s' = vm_page s"
    "vm_capacity_bytes s' = vm_capacity_bytes s" "vm_page_outs s' = vm_page_outs s" "vm_fault_ins s' = vm_fault_ins s"
    "vm_path s' = vm_path s" "vm_owns_path s' = vm_owns_path s"
  using assms by (auto simp: vm_store_def Let_def flags_def flags_update)

lemma store_all_flags:
  assumes "\<not> vm_closed s" "vm_next_off s + length ks * (slots_of (vm_page s) (length d) * vm_page s) \<le> vm_capacity_bytes s"
    and "distinct (map fst (flags s) @ ks)"
  shows "\<exists>s'. store_all d ks s = (None, s') \<and> flags s' = flags s @ map (\<lambda>k. (k, True)) ks \<and> \<not> vm_closed s'
    \<and> vm_page_outs s' = vm_page_outs s \<and> vm_fault_ins s' = vm_fault_ins s \<and> vm_page s' = vm_page s
    \<and> vm_path s' = vm_path s \<and> vm_owns_path s' = vm_owns_path s"
  using assms
proof (induction ks arbitrary: s)
  case (Cons k ks)
  from Cons.prems(2) have "vm_next_off s + slots_of (vm_page s) (length d) * vm_page s \<le> vm_capacity_bytes s" by simp
  from store_flags [OF Cons.prems(1) this, of k] obtain r s1 where
    s1: "vm_store k d s = (Inr r, s1)" "flags s1 = AList.update k True (flags s)" "\<not> vm_closed s1"
    "vm_next_off s1 = vm_next_off s + slots_of (vm_page s) (length d) * vm_page s" "vm_page s1 = vm_page s"
    "vm_capacity_bytes s1 = vm_capacity_bytes s" "vm_page_outs s1 = vm_page_outs s" "vm_fault_ins s1 = vm_fault_ins s"
    "vm_path s1 = vm_path s" "vm_owns_path s1 = vm_owns_path s" .
  have new: "flags s1 = flags s @ [(k, True)]" using Cons.prems(3) update_new [of k "flags s"] s1(2) by auto
  then have "distinct (map fst (flags s1) @ ks)" using Cons.prems(3) by auto
  moreover have "vm_next_off s1 + length ks * (slots_of (vm_page s1) (length d) * vm_page s1) \<le> vm_capacity_bytes s1"
    using Cons.prems(2) s1(4-6) by simp
  ultimately show ?case using Cons.IH [OF s1(3)] s1 new by force
qed simp

lemma page_out_flags:
  assumes "map_of (flags s) k = Some True"
  shows "flags (fst (snd (vm_page_out k s))) = AList.update k False (flags s)"
    and "vm_page_outs (fst (snd (vm_page_out k s))) = vm_page_outs s + 1"
proof -
  from assms obtain r where r: "map_of (vm_pages s) k = Some r" "pr_resident r" by (auto simp: map_of_flags)
  then show "flags (fst (snd (vm_page_out k s))) = AList.update k False (flags s)"
    "vm_page_outs (fst (snd (vm_page_out k s))) = vm_page_outs s + 1"
    by (simp_all add: vm_page_out_def flags_def flags_update)
qed

lemma page_out_frame:
  "vm_closed (fst (snd (vm_page_out k s))) = vm_closed s" "vm_fault_ins (fst (snd (vm_page_out k s))) = vm_fault_ins s"
  "vm_page (fst (snd (vm_page_out k s))) = vm_page s" "vm_path (fst (snd (vm_page_out k s))) = vm_path s"
  "vm_owns_path (fst (snd (vm_page_out k s))) = vm_owns_path s"
  by (auto simp: vm_page_out_def split: option.splits)

lemma page_out_all_flags:
  assumes "distinct ks" "\<forall>k \<in> set ks. map_of (flags s) k = Some True"
  shows "flags (page_out_all ks s) = fold (\<lambda>k. AList.update k False) ks (flags s)
    \<and> vm_page_outs (page_out_all ks s) = vm_page_outs s + length ks"
  using assms
proof (induction ks arbitrary: s)
  case (Cons k ks)
  let ?s = "fst (snd (vm_page_out k s))"
  have "map_of (flags s) k = Some True" using Cons.prems(2) by simp
  note step = page_out_flags [OF this]
  have "\<forall>j \<in> set ks. map_of (flags ?s) j = Some True"
    using Cons.prems by (auto simp: step(1) update_conv')
  with Cons.IH [of ?s] Cons.prems(1) step show ?case by (simp add: page_out_all_def)
qed (simp add: page_out_all_def)

lemma page_out_all_frame:
  "vm_closed (page_out_all ks s) = vm_closed s \<and> vm_fault_ins (page_out_all ks s) = vm_fault_ins s
   \<and> vm_page (page_out_all ks s) = vm_page s \<and> vm_path (page_out_all ks s) = vm_path s
   \<and> vm_owns_path (page_out_all ks s) = vm_owns_path s"
  by (induction ks arbitrary: s) (simp_all add: page_out_all_def page_out_frame)

lemma read_flags:
  assumes "map_of (flags s) k = Some False" "\<not> vm_closed s"
  obtains d s' where "vm_read k s = (Inr d, s')" "flags s' = AList.update k True (flags s)" "\<not> vm_closed s'"
    "vm_fault_ins s' = vm_fault_ins s + 1" "vm_page_outs s' = vm_page_outs s" "vm_page s' = vm_page s"
    "vm_path s' = vm_path s" "vm_owns_path s' = vm_owns_path s"
proof -
  from assms(1) obtain r where "map_of (vm_pages s) k = Some r" "\<not> pr_resident r" by (auto simp: map_of_flags)
  with assms(2) that show thesis by (auto simp: vm_read_def flags_def flags_update Let_def)
qed

lemma read_all_flags:
  assumes "distinct ks" "\<forall>k \<in> set ks. map_of (flags s) k = Some False" "\<not> vm_closed s"
  shows "\<exists>s'. read_all ks s = (None, s') \<and> vm_fault_ins s' = vm_fault_ins s + length ks
    \<and> vm_page_outs s' = vm_page_outs s \<and> vm_page s' = vm_page s \<and> \<not> vm_closed s'
    \<and> vm_path s' = vm_path s \<and> vm_owns_path s' = vm_owns_path s"
  using assms
proof (induction ks arbitrary: s)
  case (Cons k ks)
  have "map_of (flags s) k = Some False" using Cons.prems(2) by simp
  from read_flags [OF this Cons.prems(3)] obtain d s1 where
    s1: "vm_read k s = (Inr d, s1)" "flags s1 = AList.update k True (flags s)" "\<not> vm_closed s1"
    "vm_fault_ins s1 = vm_fault_ins s + 1" "vm_page_outs s1 = vm_page_outs s" "vm_page s1 = vm_page s"
    "vm_path s1 = vm_path s" "vm_owns_path s1 = vm_owns_path s" .
  have "\<forall>j \<in> set ks. map_of (flags s1) j = Some False" using Cons.prems(1,2) by (auto simp: s1(2) update_conv')
  with Cons.IH [of s1] Cons.prems(1) s1 show ?case by auto
qed simp

lemma update_known:
  "distinct (map fst al) \<Longrightarrow> k \<in> set (map fst al) \<Longrightarrow> AList.update k v al = map (\<lambda>(j, u). (j, if j = k then v else u)) al"
proof (induction al)
  case (Cons x al)
  have "map (\<lambda>(j, u). (j, if j = k then v else u)) al = al" if "k \<notin> set (map fst al)"
    using that by (intro map_idI) (force simp: image_iff)
  with Cons show ?case by (cases x) auto
qed simp

lemma update_each:
  assumes "distinct (map fst al)" "set ks \<subseteq> set (map fst al)"
  shows "fold (\<lambda>k. AList.update k v) ks al = map (\<lambda>(j, u). (j, if j \<in> set ks then v else u)) al"
  using assms
proof (induction ks arbitrary: al)
  case (Cons k ks)
  then have one: "AList.update k v al = map (\<lambda>(j, u). (j, if j = k then v else u)) al" by (intro update_known) auto
  have keys: "map fst (map (\<lambda>(j, u). (j, if j = k then v else u)) al) = map fst al" by auto
  have "fold (\<lambda>k. AList.update k v) ks (map (\<lambda>(j, u). (j, if j = k then v else u)) al)
      = map (\<lambda>(j, u). (j, if j \<in> set ks then v else u)) (map (\<lambda>(j, u). (j, if j = k then v else u)) al)"
    by (rule Cons.IH, unfold keys) (use Cons.prems in simp_all)
  then show ?case unfolding fold_simps one by (simp add: comp_def split_beta)
qed (simp add: map_idI)

lemma show_nat_inj: "show_nat m = show_nat n \<Longrightarrow> m = n"
  using show_nat_digits by metis

lemma page_keys_distinct: "distinct (page_keys n)" "length (page_keys n) = n"
  by (auto simp: page_keys_def distinct_map inj_on_def dest: show_nat_inj)

lemma paging_body_result:
  assumes "\<not> vm_closed s0" "flags s0 = []" "vm_next_off s0 = 0" "vm_page_outs s0 = 0" "vm_fault_ins s0 = 0"
    and "n * (slots_of (vm_page s0) payload * vm_page s0) \<le> vm_capacity_bytes s0"
  obtains row s where "paging_body n payload stat s0 = (Inr row, s)" "pq_resident_before row = n"
    "pq_resident_after_pageout row = 0" "pq_page_outs row = n" "pq_fault_ins row = n" "pq_page_size row = vm_page s0"
    "pq_demand_paging_works row \<longleftrightarrow> 0 < n" "\<not> vm_closed s" "vm_path s = vm_path s0" "vm_owns_path s = vm_owns_path s0"
proof -
  let ?ks = "page_keys n" and ?d = "replicate payload (120 :: byte)"
  note ks = page_keys_distinct [of n]
  have room: "vm_next_off s0 + length ?ks * (slots_of (vm_page s0) (length ?d) * vm_page s0) \<le> vm_capacity_bytes s0"
    using assms(3,6) ks(2) by simp
  have "distinct (map fst (flags s0) @ ?ks)" using assms(2) ks(1) by simp
  from store_all_flags [OF assms(1) room this] assms(2,4,5) obtain s1 where
    s1: "store_all ?d ?ks s0 = (None, s1)" "flags s1 = map (\<lambda>k. (k, True)) ?ks" "\<not> vm_closed s1"
      "vm_page_outs s1 = 0" "vm_fault_ins s1 = 0" "vm_page s1 = vm_page s0" "vm_path s1 = vm_path s0"
      "vm_owns_path s1 = vm_owns_path s0" by auto
  have keys: "map fst (flags s1) = ?ks" by (simp add: s1(2) comp_def)
  have "\<forall>k \<in> set ?ks. map_of (flags s1) k = Some True"
    using ks(1) by (auto simp: s1(2) map_of_map_restrict)
  note out = page_out_all_flags [OF ks(1) this]
  let ?s2 = "page_out_all ?ks s1"
  have f2: "flags ?s2 = map (\<lambda>k. (k, False)) ?ks"
    using out update_each [of "flags s1" ?ks False] keys ks(1) by (auto simp: s1(2))
  have "\<forall>k \<in> set ?ks. map_of (flags ?s2) k = Some False" by (auto simp: f2 map_of_map_restrict)
  from read_all_flags [OF ks(1) this] page_out_all_frame [of ?ks s1] s1(3-8) out ks(2) obtain s3 where
    s3: "read_all ?ks ?s2 = (None, s3)" "vm_fault_ins s3 = n" "vm_page_outs s3 = n" "vm_page s3 = vm_page s0"
      "\<not> vm_closed s3" "vm_path s3 = vm_path s0" "vm_owns_path s3 = vm_owns_path s0" by auto
  have res: "resident_pages s1 = n" "resident_pages ?s2 = 0"
    using ks(2) by (simp_all add: resident_flags s1(2) f2 filter_map comp_def)
  let ?row = "\<lparr>pq_pages = n, pq_resident_before = n, pq_resident_after_pageout = 0, pq_page_outs = n, pq_fault_ins = n,
      pq_kernel_majflt_delta = fr_kernel_majflt_delta (fault_stats stat s3), pq_page_size = vm_page s0,
      pq_demand_paging_works = (0 < n), pq_mechanism = ''mmap + madvise(MADV_DONTNEED); fault-in on access''\<rparr>"
  have "paging_body n payload stat s0 = (Inr ?row, s3)"
    using s1(1) s3 res by (simp add: paging_body_def Let_def fault_stats_def split_beta)
  then show thesis by (rule that) (use s3 in simp_all)
qed

section \<open>Properties\<close>

text \<open>
  The demand-paging metric succeeds on every host: whatever the page size, the number of pages
  and the payload, as long as a page takes at most four slots, each page is paged out
  once and faulted in once, none is resident in between, the verdict is positive as soon as there is a page, and the
  temporary file is gone afterwards.
\<close>

theorem demand_paging_metric:
  assumes "0 < page" and "0 < n" and "slots_of page payload \<le> 4"
  shows "\<exists>row fs'. measure_demand_paging page has stat0 stat No_fault fresh n payload fs = (Inr row, fs')
    \<and> pq_resident_before row = n \<and> pq_resident_after_pageout row = 0 \<and> pq_page_outs row = n \<and> pq_fault_ins row = n
    \<and> pq_demand_paging_works row \<and> fs' fresh = None"
proof -
  obtain s0 fs1 where init: "store_init page has stat0 No_fault fresh (int n * 4) None fs = (Inr s0, fs1)"
    using assms(1,2) by (auto simp: store_init_def Let_def mult_less_0_iff)
  note inv = store_init_inv [OF init assms(1)]
  have s0: "\<not> vm_closed s0" "flags s0 = []" "vm_next_off s0 = 0" "vm_page_outs s0 = 0" "vm_fault_ins s0 = 0"
    "vm_path s0 = fresh" "vm_owns_path s0"
    using init assms(1,2) by (auto simp: store_init_def Let_def flags_def mult_less_0_iff)
  have "nat (int n * 4) = n * 4" by simp
  then have "n * (slots_of (vm_page s0) payload * vm_page s0) \<le> vm_capacity_bytes s0"
    using assms(3) unfolding inv(3,4) by (simp add: mult.assoc [symmetric])
  from paging_body_result [OF s0(1-5) this, of stat] obtain row s where
    body: "paging_body n payload stat s0 = (Inr row, s)" "pq_resident_before row = n" "pq_resident_after_pageout row = 0"
      "pq_page_outs row = n" "pq_fault_ins row = n" "pq_demand_paging_works row \<longleftrightarrow> 0 < n" "\<not> vm_closed s"
      "vm_path s = vm_path s0" "vm_owns_path s = vm_owns_path s0" by blast
  have "measure_demand_paging page has stat0 stat No_fault fresh n payload fs = (Inr row, fs1(fresh := None))"
    unfolding measure_demand_paging_def init prod.case sum.case body(1) Let_def
    using body(7-9) s0(6,7) by (simp add: vm_close_def)
  then show ?thesis using body(2-6) assms(2) by auto
qed

theorem demand_paging_metric_witness:
  "\<exists>row fs'. measure_demand_paging 4096 (\<lambda>_. True) None None No_fault ''t'' 48 8000 Map.empty = (Inr row, fs')
     \<and> pq_demand_paging_works row"
proof -
  have "slots_of 4096 8000 \<le> 4" by (simp add: slots_of_def)
  from demand_paging_metric [OF _ _ this, of 48 "\<lambda>_. True" None None "''t''" Map.empty] show ?thesis by auto
qed

section \<open>Lemmas: blocks of a dispatch order\<close>

lemma block_count_adj: "block_count xs = length (remdups_adj xs)"
  by (induction xs rule: remdups_adj.induct) (auto simp: block_count_def)

lemma remdups_adj_subseq: "subseq (remdups_adj xs) xs"
  by (induction xs rule: remdups_adj.induct) (auto intro: list_emb_Cons)

lemma adj_repeat:
  assumes "\<not> distinct ys" "distinct_adj ys"
  shows "\<exists>x y. x \<noteq> y \<and> subseq [x, y, x] ys"
proof -
  from not_distinct_decomp [OF assms(1)] obtain u v w x where ys: "ys = u @ [x] @ v @ [x] @ w" by blast
  then have "v \<noteq> []" using assms(2) by (auto simp: distinct_adj_append_iff distinct_adj_Cons)
  then obtain y v' where v: "v = y # v'" by (cases v) auto
  have "x \<noteq> y" using assms(2) unfolding ys v by (auto simp: distinct_adj_append_iff distinct_adj_Cons)
  moreover have "subseq ([] @ [x] @ [y] @ [x] @ []) (u @ [x] @ v @ [x] @ w)"
    unfolding v by (intro list_emb_append_mono) auto
  ultimately show ?thesis unfolding ys by auto
qed

text \<open>More blocks than children: some child was interrupted by another and came back.\<close>

lemma many_blocks:
  assumes "card (set xs) < block_count xs"
  shows "\<exists>x y. x \<noteq> y \<and> subseq [x, y, x] xs"
proof -
  have "\<not> distinct (remdups_adj xs)" using assms distinct_card [of "remdups_adj xs"] by (auto simp: block_count_adj)
  from adj_repeat [OF this] obtain x y where "x \<noteq> y" "subseq [x, y, x] (remdups_adj xs)"
    by (auto simp: distinct_adj_remdups_adj)
  then show ?thesis using remdups_adj_subseq [of xs] subseq_order.order_trans by blast
qed

lemma round_half_even_mono:
  assumes "x \<le> y"
  shows "round_half_even x \<le> round_half_even y"
proof (cases "\<lfloor>x\<rfloor> = \<lfloor>y\<rfloor>")
  case True
  with assms show ?thesis by (simp add: round_half_even_def Let_def)
next
  case False
  with floor_mono [OF assms] have "\<lfloor>x\<rfloor> + 1 \<le> \<lfloor>y\<rfloor>" by simp
  moreover have "round_half_even x \<le> \<lfloor>x\<rfloor> + 1" "\<lfloor>y\<rfloor> \<le> round_half_even y" by (simp_all add: round_half_even_def Let_def)
  ultimately show ?thesis by linarith
qed

lemma share_pct_mono: "u \<le> v \<Longrightarrow> 0 < tot \<Longrightarrow> share_pct tot u \<le> share_pct tot v"
  unfolding share_pct_def round_to_def
  by (intro divide_right_mono of_int_le_iff [THEN iffD2] round_half_even_mono mult_right_mono) (simp_all add: divide_right_mono)

lemma tracks_weight_sorted: "tracks_weight xs \<longleftrightarrow> sorted xs"
  by (cases "length xs") (auto simp: tracks_weight_def list_all_iff sorted_iff_nth_Suc)

text \<open>The verdict on the weights: usages in the order of the weights are never refused by rounding.\<close>

lemma sorted_usages_track:
  assumes "sorted us" "0 < tot"
  shows "tracks_weight (map (share_pct tot) us)"
  using assms share_pct_mono unfolding tracks_weight_sorted sorted_map
  by (auto intro: sorted_wrt_mono_rel [of us "(\<le>)"])

lemma preemption_cases:
  assumes "measure_real_preemption fuel os n quantum h = Some (Inr m)"
  obtains rr fcfs where "rr_order fuel os n quantum True 30 h = Some (Inr rr)"
    "rr_order fuel os n quantum False 30 (rr_host rr) = Some (Inr fcfs)"
    "m = preemption_report n (rr_dispatched rr) (rr_dispatched fcfs)"
  using assms by (auto simp: measure_real_preemption_def split: option.splits sum.splits prod.splits)

text \<open>
  The verdict of the preemption metric is sound: when it reports that round robin preempts,
  some child was interrupted by another and served again later, while first come first
  served ran all the children, each in one block, in their order.
\<close>

theorem preemption_verdict_sound:
  assumes "measure_real_preemption fuel os n quantum h = Some (Inr m)" and "pr_rr_preempts m"
  shows "(\<exists>x y. x < n \<and> y < n \<and> x \<noteq> y \<and> subseq [x, y, x] (or_order (pr_rr m)))
    \<and> sorted (or_order (pr_fcfs m)) \<and> set (or_order (pr_fcfs m)) = {..<n}"
proof -
  from assms(1) obtain rr fcfs where runs: "rr_order fuel os n quantum True 30 h = Some (Inr rr)"
    "rr_order fuel os n quantum False 30 (rr_host rr) = Some (Inr fcfs)"
    "m = preemption_report n (rr_dispatched rr) (rr_dispatched fcfs)" by (rule preemption_cases)
  have verdict: "block_count (rr_dispatched fcfs) = n" "n < block_count (rr_dispatched rr)"
    using assms(2) by (simp_all add: runs(3) preemption_report_def)
  have "set (rr_dispatched rr) \<subseteq> {..<n}" using rr_order_inv [OF runs(1)] by (metis rr_fair_def)
  then have "card (set (rr_dispatched rr)) < block_count (rr_dispatched rr)"
    using card_mono [of "{..<n}" "set (rr_dispatched rr)"] verdict(2) by simp
  from many_blocks [OF this] obtain x y where xy: "x \<noteq> y" "subseq [x, y, x] (rr_dispatched rr)" by blast
  then have "{x, y} \<subseteq> set (rr_dispatched rr)" using list_emb_set [OF xy(2)] by auto
  moreover have f: "sorted (rr_dispatched fcfs)" "set (rr_dispatched fcfs) \<subseteq> {..<n}" using fcfs_order [OF runs(2)] .
  moreover have "set (rr_dispatched fcfs) = {..<n}"
    using f verdict(1) block_count_sorted [OF f(1)] by (intro card_subset_eq) simp_all
  ultimately show ?thesis
    using xy \<open>set (rr_dispatched rr) \<subseteq> {..<n}\<close> by (auto simp: runs(3) preemption_report_def order_row_of_def)
qed

theorem preemption_verdict_sound_witness:
  "\<exists>m. measure_real_preemption 40 box_host 2 1 \<lparr>bx_tasks = [], bx_clock = 0\<rparr> = Some (Inr m)
     \<and> pr_rr_preempts m \<and> set (or_order (pr_fcfs m)) = {..<2}"
proof -
  let ?r = "measure_real_preemption 40 box_host 2 1 \<lparr>bx_tasks = [], bx_clock = 0\<rparr>"
  have "map_option (map_sum id pr_rr_preempts) ?r = Some (Inr True)" by code_simp
  from run_result [OF this] obtain m where m: "?r = Some (Inr m)" "pr_rr_preempts m" by blast
  with preemption_verdict_sound [OF m] show ?thesis by blast
qed

end
