(* ===== verification/Eval_Pool.thy ===== *)
theory Eval_Pool
  imports Pool_Safety Real_Proc
begin

text \<open>
  The metrics of the evaluation harness on the worker pool (\<open>gcos/eval/__init__.py\<close>):
  quota conservation, one dispatch per agent, and first-come-first-served against round robin.
  Each metric fills a fresh queue with synthetic agents, drives the real pool with a step
  runner of its own, waits until the queue is drained, shuts down and reads its figures off
  the shared state. The interface \<open>single_shot\<close> states what a runner that ends its agent in
  one step owes; the verdicts of the first two metrics then hold in every interleaving.
\<close>

section \<open>The step runners of the metrics\<close>

definition count_call :: "step_state \<Rightarrow> step_state" where
  "count_call st = ((fst st)\<lparr>acb_llm_calls_used := acb_llm_calls_used (fst st) + 1\<rparr>, snd st)"

text \<open>\<open>_fixed_latency_runner\<close>: sleeping changes nothing that is modelled.\<close>

definition fixed_latency_runner :: step_fun where
  "fixed_latency_runner env st =
     (let st1 = count_call (do_move RUNNING st);
          st2 = ((fst st1)\<lparr>acb_result := Some (''ok-'' @ show_int (acb_pid (fst st1)))\<rparr>, snd st1)
      in (do_move DONE st2, Inr False))"

text \<open>The runner of \<open>measure_priority_no_double_dispatch\<close>: the count of runs is read off the PCB.\<close>

definition once_runner :: step_fun where
  "once_runner env st = (do_move DONE (count_call (do_move RUNNING st)), Inr False)"

definition denied_text :: string where
  "denied_text = ''denied (no LLM call)''"

definition quota_runner :: step_fun where
  "quota_runner env st =
     (let st1 = do_move RUNNING st
      in if starts_with ''deny'' (acb_name (fst st1))
         then (do_move ERROR (set_error denied_text (fst st1), snd st1), Inr False)
         else (do_move DONE (count_call st1), Inr False))"

text \<open>The runner of \<open>measure_scheduler_preemption\<close>; its count of an agent's steps is the count of calls.\<close>

definition steps_runner :: "int \<Rightarrow> step_fun" where
  "steps_runner steps_each env st =
     (let st1 = (if acb_state (fst st) \<noteq> RUNNING then do_move RUNNING st else st);
          st2 = count_call st1
      in if steps_each \<le> acb_llm_calls_used (fst st2) then (do_move DONE st2, Inr False)
         else (st2, Inr True))"

section \<open>Filling the queue and running the pool\<close>

text \<open>A synthetic agent: its creation time, PID, name and priority.\<close>

definition synthetic :: "time \<Rightarrow> pid \<Rightarrow> string \<Rightarrow> int \<Rightarrow> agent" where
  "synthetic now i name priority = (new_agent i name ''x'' now)\<lparr>acb_priority := priority\<rparr>"

text \<open>\<open>table.add(p); q.put(p)\<close> for each of them.\<close>

definition admit :: "agent \<Rightarrow> sys \<Rightarrow> sys" where
  "admit a s = kop_do (KEnqueue (acb_pid a)) (kop_do (KAdd a) s)"

definition metric_pool :: "scheduler \<Rightarrow> worker_pool" where
  "metric_pool sch = \<lparr>wp_scheduler = sch, wp_bus = False, wp_input_deadline_s = None\<rparr>"

text \<open>A fresh table, queue and quota, which may refuse its total, then the agents.\<close>

definition set_up :: "int \<Rightarrow> world \<Rightarrow> agent list \<Rightarrow> py_exc + sys" where
  "set_up tot w agents =
     (case quota_init tot of
        Inl e \<Rightarrow> Inl e
      | Inr q \<Rightarrow> Inr (fold admit agents (sys_init 0 (w\<lparr>w_quota := q\<rparr>))))"

text \<open>The pool on its own: workers take steps and threads start.\<close>

inductive crew_step ::
  "worker_pool \<Rightarrow> step_fun \<Rightarrow> wpc list \<times> sys \<Rightarrow> wpc list \<times> sys \<Rightarrow> bool" for wp runner where
  crew_worker: "i < length ws \<Longrightarrow> worker_step wp runner notified env (ws ! i) s = (pc, s') \<Longrightarrow>
    crew_step wp runner (ws, s) (ws[i := pc], s')"
| crew_thread: "crew_step wp runner (ws, s) (ws @ [Idle], s)"

definition crew_runs ::
  "worker_pool \<Rightarrow> step_fun \<Rightarrow> wpc list \<times> sys \<Rightarrow> wpc list \<times> sys \<Rightarrow> bool" where
  "crew_runs wp runner = (crew_step wp runner)\<^sup>*\<^sup>*"

text \<open>
  \<open>start\<close>, a \<open>wait_idle\<close> that returns \<open>True\<close>, \<open>shutdown\<close>: the queue is seen
  drained, the pool may go on for a while, it is told to stop, and the workers leave.
\<close>

definition measured :: "worker_pool \<Rightarrow> step_fun \<Rightarrow> sys \<Rightarrow> sys \<Rightarrow> bool" where
  "measured wp runner s0 s' \<longleftrightarrow> (\<exists>ws s ws1 s1 ws'. crew_runs wp runner ([], s0) (ws, s)
     \<and> rq_is_drained (sy_queue s) \<and> crew_runs wp runner (ws, s) (ws1, s1)
     \<and> crew_runs wp runner (ws1, kop_do KStop s1) (ws', s'))"

subsection \<open>Quota conservation\<close>

definition quota_agents :: "(nat \<Rightarrow> time) \<Rightarrow> nat \<Rightarrow> nat \<Rightarrow> agent list" where
  "quota_agents born n_ok n_denied =
     map (\<lambda>i. synthetic (born i) (int i) ((if i \<le> n_ok then ''ok'' else ''deny'') @ show_nat i) 5)
       [1..<n_ok + n_denied + 1]"

record quota_metric =
  qm_agents_total :: nat
  qm_real_calls :: nat
  qm_no_call_exits :: nat
  qm_quota_used :: int
  qm_conserved :: bool
  qm_all_completed :: bool

definition quota_used :: "sys \<Rightarrow> int" where
  "quota_used s = qr_used (quota_snapshot (quota_of s))"

definition quota_conservation_report :: "nat \<Rightarrow> nat \<Rightarrow> bool \<Rightarrow> sys \<Rightarrow> quota_metric" where
  "quota_conservation_report n_ok n_denied ok s =
     \<lparr>qm_agents_total = n_ok + n_denied, qm_real_calls = n_ok, qm_no_call_exits = n_denied,
      qm_quota_used = quota_used s, qm_conserved = (quota_used s = int n_ok), qm_all_completed = ok\<rparr>"

subsection \<open>One dispatch per agent\<close>

definition dispatch_agents :: "(nat \<Rightarrow> time) \<Rightarrow> nat \<Rightarrow> agent list" where
  "dispatch_agents born n =
     map (\<lambda>i. synthetic (born i) (int i) (''a'' @ show_nat i) (int (i mod 5))) [1..<n + 1]"

record dispatch_metric =
  dm_n_agents :: nat
  dm_workers :: int
  dm_distinct_agents_run :: nat
  dm_total_dispatches :: int
  dm_max_runs_per_agent :: int
  dm_each_run_exactly_once :: bool
  dm_all_completed :: bool

text \<open>The values of \<open>runs\<close>: the agents that ran at all, how often each did.\<close>

definition runs_values :: "nat \<Rightarrow> sys \<Rightarrow> int list" where
  "runs_values n s = filter (\<lambda>c. 0 < c) (map (\<lambda>i. calls_at s (int i)) [1..<n + 1])"

definition dispatch_report :: "nat \<Rightarrow> int \<Rightarrow> bool \<Rightarrow> sys \<Rightarrow> dispatch_metric" where
  "dispatch_report n workers ok s =
     (let runs = runs_values n s; max_runs = (if runs = [] then 0 else Max (set runs))
      in \<lparr>dm_n_agents = n, dm_workers = workers, dm_distinct_agents_run = length runs,
          dm_total_dispatches = sum_list runs, dm_max_runs_per_agent = max_runs,
          dm_each_run_exactly_once = (max_runs = 1 \<and> length runs = n), dm_all_completed = ok\<rparr>)"

subsection \<open>First come, first served against round robin\<close>

text \<open>A single worker, with the PIDs its runner is called with, in order; at most \<open>fuel\<close> of its steps.\<close>

fun called_now :: "wpc \<Rightarrow> pid list" where
  "called_now (Calling p n) = [p]"
| "called_now pc = []"

fun observed_order :: "worker_pool \<Rightarrow> step_fun \<Rightarrow> env \<Rightarrow> nat \<Rightarrow> wpc \<Rightarrow> sys \<Rightarrow> pid list option" where
  "observed_order wp runner env 0 pc s = (if pc = Idle \<and> rq_is_drained (sy_queue s) then Some [] else None)"
| "observed_order wp runner env (Suc fuel) pc s =
     (if pc = Idle \<and> rq_is_drained (sy_queue s) then Some []
      else
        let (pc', s') = worker_step wp runner True env pc s
        in map_option ((@) (called_now pc)) (observed_order wp runner env fuel pc' s'))"

definition step_agents :: "(nat \<Rightarrow> time) \<Rightarrow> nat \<Rightarrow> agent list" where
  "step_agents born n = map (\<lambda>i. synthetic (born i) (int i) (''a'' @ show_nat i) 5) [1..<n + 1]"

fun first_index :: "pid \<Rightarrow> pid list \<Rightarrow> nat" where
  "first_index p [] = 0"
| "first_index p (q # qs) = (if q = p then 0 else Suc (first_index p qs))"

text \<open>\<open>sum(first_slice.values()) / len(first_slice)\<close>, rounded to two digits.\<close>

definition mean_time_to_first_slice :: "pid list \<Rightarrow> real" where
  "mean_time_to_first_slice order =
     (let ps = remdups order
      in round_to 2 (if ps = [] then 0
           else real (sum_list (map (\<lambda>p. first_index p order) ps)) / real (length ps)))"

definition longest_run :: "pid list \<Rightarrow> nat" where
  "longest_run order = run_scan None 0 0 order"

definition preemption_verdict :: "int \<Rightarrow> pid list \<Rightarrow> pid list \<Rightarrow> bool \<times> bool" where
  "preemption_verdict rr_quantum fcfs rr =
     (int (longest_run rr) \<le> rr_quantum \<and> rr_quantum < int (longest_run fcfs),
      mean_time_to_first_slice rr < mean_time_to_first_slice fcfs)"

section \<open>Who writes an agent\<close>

lemma queue_put_agents:
  "agent_at s p = Some a \<Longrightarrow> agent_at (queue_put p s) = (agent_at s)(p \<mapsto> move (now_of (sy_world s)) READY a)"
  by (auto simp: queue_put_def rq_put_def agent_at_def obj_write_def fun_eq_iff)

lemma agent_at_eq: "agent_at s = pt_objs (sy_table s)"
  by (simp add: agent_at_def fun_eq_iff)

lemma queue_put_none: "agent_at s p = None \<Longrightarrow> agent_at (queue_put p s) = agent_at s"
  by (auto simp: queue_put_def rq_put_def agent_at_def)

lemma queue_put_other: "r \<noteq> p \<Longrightarrow> agent_at (queue_put p s) r = agent_at s r"
  by (cases "agent_at s p") (simp_all add: queue_put_agents queue_put_none)

lemma on_agent_at:
  "agent_at (on_agent p f s) =
     (case agent_at s p of None \<Rightarrow> agent_at s | Some a \<Rightarrow> (agent_at s)(p \<mapsto> fst (f (a, sy_world s))))"
  by (simp add: on_agent_def split: option.splits)

lemma on_agent_other: "r \<noteq> p \<Longrightarrow> agent_at (on_agent p f s) r = agent_at s r"
  by (simp add: on_agent_at split: option.splits)

lemma busy_agents [simp]: "agent_at (enter_busy s) = agent_at s" "agent_at (leave_busy s) = agent_at s"
  "agent_at (task_done s) = agent_at s"
  by (simp_all add: enter_busy_def leave_busy_def task_done_def)

lemma loop_top_agents: "loop_top wp notified s = (pc', s') \<Longrightarrow> agent_at s' = agent_at s"
  by (auto simp: loop_top_def agent_at_def Let_def split: if_splits prod.splits option.splits)

lemmas point_defs = dispatch_enter_def receive_input_def repark_waiting_def loop_round_def wait_quota_def
  after_wait_def call_runner_def settle_def yield_rest_def Let_def

text \<open>A worker writes no agent but the one it owns.\<close>

lemma worker_step_frame:
  assumes "worker_step wp runner notified env pc s = (pc', s')" and "r \<notin># own pc"
  shows "agent_at s' r = agent_at s r"
proof (cases pc)
  case Idle
  with assms loop_top_agents [of wp notified s] show ?thesis by simp
next
  case (After p k)
  with assms forward_result_keeps(1) show ?thesis by auto
qed (use assms in \<open>auto simp: point_defs on_agent_other queue_put_other
       split: if_splits option.splits prod.splits nat.splits sum.splits\<close>)

text \<open>The points at which the worker's agent is known to be live.\<close>

fun poised :: "sys \<Rightarrow> wpc \<Rightarrow> bool" where
  "poised s (Receiving p) = False" | "poised s (Reparking p) = False"
| "poised s (Loop p n k) = live s p" | "poised s (Short p n) = live s p"
| "poised s (Blocked p n) = live s p" | "poised s (Woken p n g) = live s p"
| "poised s (Holding p n) = live s p" | "poised s (Calling p n) = live s p"
| "poised s pc = True"

lemma poised_frame:
  "(\<And>p. p \<in># own pc \<Longrightarrow> agent_at s' p = agent_at s p) \<Longrightarrow> poised s pc \<Longrightarrow> poised s' pc"
  by (cases pc) (auto simp: live_def)

section \<open>Runners that end their agent in one step\<close>

text \<open>
  An agent of such a metric, named \<open>name\<close>: it awaits no input, and has made no request
  while it lives and, once it is finished, one if \<open>pays\<close> says so of its name.
\<close>

definition shot :: "(string \<Rightarrow> bool) \<Rightarrow> string \<Rightarrow> agent \<Rightarrow> bool" where
  "shot pays name a \<longleftrightarrow> acb_name a = name \<and> acb_input_from a = None
     \<and> acb_llm_calls_used a = (if is_terminal a \<and> pays name then 1 else 0)"

definition crew_inv :: "(string \<Rightarrow> bool) \<Rightarrow> (pid \<Rightarrow> string) \<Rightarrow> wpc list \<times> sys \<Rightarrow> bool" where
  "crew_inv pays names c = (case c of (ws, s) \<Rightarrow>
     (\<forall>p a. agent_at s p = Some a \<longrightarrow> shot pays (names p) a) \<and> (\<forall>pc \<in> set ws. poised s pc))"

lemma shot_move:
  "shot pays n a \<Longrightarrow> \<not> terminal x \<Longrightarrow> shot pays n (move t x a)"
  by (cases "is_terminal a") (simp_all add: shot_def is_terminal_def move_state)

lemma live_move:
  "\<not> is_terminal a \<Longrightarrow> \<not> terminal x \<Longrightarrow> \<not> is_terminal (move t x a)"
  by (simp add: is_terminal_def move_state)

locale single_shot = pool_runner runner "\<lambda>_. True" for runner +
  fixes pays :: "string \<Rightarrow> bool"
  assumes one_shot: "\<not> is_terminal (fst st) \<Longrightarrow> snd (runner env st) = Inr False"
    and pays_once: "\<not> is_terminal (fst st) \<Longrightarrow>
      calls_between (fst st) (fst (fst (runner env st))) = (if pays (acb_name (fst st)) then 1 else 0)"
    and no_input: "acb_input_from (fst (fst (runner env st))) = acb_input_from (fst st)"
begin

lemma runner_shot:
  assumes "shot pays n a" and "\<not> is_terminal a" and "runner env (a, w) = (st, r)"
  shows "shot pays n (fst st)" and "is_terminal (fst st)" and "r = Inr False"
proof -
  show r: "r = Inr False" using one_shot [of "(a, w)" env] assms by simp
  show t: "is_terminal (fst st)" using runner_done [of env "(a, w)"] assms(3) r by simp
  have "step_frame a (fst st)" using runner_frame [of "(a, w)" env] assms(3) by simp
  then show "shot pays n (fst st)"
    using pays_once [of "(a, w)" env] no_input [of env "(a, w)"] assms t
    by (auto simp: shot_def step_frame_def calls_between_def)
qed

lemma call_runner_shot:
  assumes "agent_at s p = Some a" and "\<not> is_terminal a" and "shot pays n a"
    and "call_runner runner env p m s = (pc', s')"
  shows "\<exists>b made. agent_at s' = (agent_at s)(p \<mapsto> b) \<and> shot pays n b \<and> pc' = Called p m made False"
proof -
  obtain st r where run: "runner env (a, sy_world s) = (st, r)" by (metis surj_pair)
  note sh = runner_shot [OF assms(3,2) run]
  have "s' = leave_busy (sys_write p st s)" "\<exists>made. pc' = Called p m made False"
    using assms(1,4) run sh(3) by (auto simp: call_runner_def Let_def)
  with sh(1) show ?thesis by auto
qed

lemma worker_shot:
  assumes step: "worker_step wp runner notified env pc s = (pc', s')" and pos: "poised s pc"
    and shots: "\<forall>p a. agent_at s p = Some a \<longrightarrow> shot pays (names p) a"
  shows "(\<forall>p a. agent_at s' p = Some a \<longrightarrow> shot pays (names p) a) \<and> poised s' pc'"
proof (cases pc)
  case Idle
  with step have "agent_at s' = agent_at s" "pc' = Idle \<or> pc' = Exited \<or> (\<exists>p. pc' = Picked p)"
    using loop_top_agents [of wp notified s]
    by (auto simp: loop_top_def Let_def split: if_splits prod.splits option.splits)
  with shots show ?thesis by auto
next
  case (Picked p)
  have "\<not> needs_input a" if "agent_at s p = Some a" for a
    using shots that by (auto simp: shot_def needs_input_def)
  with Picked step shots show ?thesis
    by (auto simp: dispatch_enter_def live_def split: option.splits if_splits)
next
  case (Short p n)
  with pos obtain a where a: "agent_at s p = Some a" "\<not> is_terminal a"
    by (auto simp: live_def split: option.splits)
  have nt: "\<not> terminal BLOCKED" by (simp add: terminal_def terminal_states_def)
  from Short step shots a show ?thesis
    using shot_move [OF _ nt, of pays "names p" a] live_move [OF a(2) nt]
    by (auto simp: on_agent_at live_def split: if_splits)
next
  case (Calling p n)
  with pos obtain a where a: "agent_at s p = Some a" "\<not> is_terminal a"
    by (auto simp: live_def split: option.splits)
  with Calling step shots call_runner_shot [OF a, of "names p" env n pc' s'] show ?thesis
    by (auto split: if_splits)
next
  case (After p k)
  with step shots forward_result_keeps(1) [of wp p s] show ?thesis by auto
next
  case (Called p n made k)
  with step shots show ?thesis
    by (auto simp: settle_def live_def Let_def split: option.splits if_splits)
next
  case (Yielding p k)
  have nt: "\<not> terminal READY" by (simp add: terminal_def terminal_states_def)
  from Yielding step shots show ?thesis
    using shot_move [OF _ nt] by (auto simp: yield_rest_def queue_put_agents split: option.splits if_splits)
next
  case (Requeue p)
  have nt: "\<not> terminal READY" by (simp add: terminal_def terminal_states_def)
  from Requeue step shots show ?thesis
    using shot_move [OF _ nt]
    by (cases "agent_at s p") (auto simp: queue_put_agents queue_put_none split: if_splits)
qed (use step pos shots in \<open>auto simp: loop_round_def wait_quota_def after_wait_def live_def enter_busy_def
       Let_def split: nat.splits if_splits prod.splits\<close>)

lemma crew_inv_step:
  assumes "crew_step wp runner c c'" and "pool_inv c" and "crew_inv pays names c"
  shows "crew_inv pays names c'"
  using assms(1)
proof cases
  case (crew_worker i ws notified env s pc s')
  have inv: "pool_inv (ws, s)" and shots: "\<forall>p a. agent_at s p = Some a \<longrightarrow> shot pays (names p) a"
    and pos: "\<forall>x \<in> set ws. poised s x"
    using assms(2,3) crew_worker(1) by (auto simp: crew_inv_def)
  have new: "(\<forall>p a. agent_at s' p = Some a \<longrightarrow> shot pays (names p) a) \<and> poised s' pc"
    using worker_shot [OF crew_worker(4) _ shots] pos crew_worker(3) by auto
  have "poised s' (ws[i := pc] ! j)" if j: "j < length ws" for j
  proof (cases "j = i")
    case False
    have "agent_at s' p = agent_at s p" if "p \<in># own (ws ! j)" for p
      using worker_step_frame [OF crew_worker(4), of p]
        pool_inv_exclusive(2) [OF inv j crew_worker(3) that] False by blast
    then show ?thesis using poised_frame [of "ws ! j" s' s] pos j False by auto
  qed (use new j in simp)
  with new show ?thesis
    using crew_worker(2) by (auto simp: crew_inv_def all_set_conv_all_nth)
next
  case (crew_thread ws s)
  with assms(3) show ?thesis by (auto simp: crew_inv_def)
qed

end

section \<open>From the set-up to the verdict\<close>

lemma crew_step_pool: "crew_step wp runner c c' \<Longrightarrow> pool_step wp runner c c'"
  by (induction rule: crew_step.induct) (auto intro: pool_step.intros)

lemma crew_runs_pool: "crew_runs wp runner c c' \<Longrightarrow> pool_runs wp runner c c'"
  unfolding crew_runs_def pool_runs_def using mono_rtranclp [of "crew_step wp runner" "pool_step wp runner"]
  by (blast intro: crew_step_pool)

text \<open>A system filled with the agents of a metric, before any thread starts.\<close>

definition stocked :: "(string \<Rightarrow> bool) \<Rightarrow> (pid \<Rightarrow> string) \<Rightarrow> pid set \<Rightarrow> sys \<Rightarrow> bool" where
  "stocked pays names D s \<longleftrightarrow> sy_spawning s = [] \<and> \<not> sy_stop s \<and> dom (agent_at s) = D
     \<and> set (pt_keys (sy_table s)) \<subseteq> D \<and> crew_inv pays names ([], s)"

definition newborn :: "(pid \<Rightarrow> string) \<Rightarrow> agent \<Rightarrow> bool" where
  "newborn names a \<longleftrightarrow> acb_state a = NEW \<and> acb_name a = names (acb_pid a) \<and> acb_input_from a = None
     \<and> acb_llm_calls_used a = 0"

lemma newborn_synthetic: "names i = n \<Longrightarrow> newborn names (synthetic t i n prio)"
  by (simp add: newborn_def synthetic_def new_agent_def)

lemma synthetic_pid [simp]: "acb_pid (synthetic t i n prio) = i"
  by (simp add: synthetic_def new_agent_def)

lemma stocked_init: "stocked pays names {} (sys_init cap w)"
  by (simp add: stocked_def crew_inv_def sys_init_def agent_at_eq table_init_def)

lemma queue_put_keys: "pt_keys (sy_table (queue_put p s)) = pt_keys (sy_table s)"
  by (simp add: queue_put_def rq_put_def obj_write_def split: option.splits)

lemma newborn_live: "newborn names a \<Longrightarrow> \<not> is_terminal a"
  by (simp add: newborn_def is_terminal_def terminal_def terminal_states_def)

lemma admit_facts:
  assumes st: "stocked pays names D s" and nb: "newborn names a" and new: "acb_pid a \<notin> D"
  shows "agent_at (admit a s) = (agent_at s)(acb_pid a \<mapsto> move (now_of (sy_world s)) READY a)"
    and "quota_of (admit a s) = quota_of s" and "sy_spawning (admit a s) = []" and "\<not> sy_stop (admit a s)"
    and "rq_in_flight (sy_queue (admit a s)) = rq_in_flight (sy_queue s)"
    and "rq_q (sy_queue (admit a s)) = rq_q (sy_queue s) @ [acb_pid a]"
    and "pt_keys (sy_table (admit a s)) = pt_keys (sy_table s) @ [acb_pid a]"
    and "pool_runs wp runner (ws, s) (ws, admit a s)"
proof -
  let ?p = "acb_pid a"
  let ?t = "\<lparr>pt_objs = (pt_objs (sy_table s))(?p \<mapsto> a), pt_keys = pt_keys (sy_table s) @ [?p]\<rparr>"
  let ?s1 = "s\<lparr>sy_table := ?t, sy_spawning := [?p]\<rparr>" and ?s2 = "s\<lparr>sy_table := ?t, sy_spawning := []\<rparr>"
  have "agent_at s ?p = None" and "?p \<notin> set (pt_keys (sy_table s))"
    using st new by (auto simp: stocked_def)
  then have add: "kop_do (KAdd a) s = ?s1" and ok: "kop_ok (KAdd a) s"
    using st nb by (simp_all add: table_add_def stocked_def newborn_def)
  have eq: "admit a s = queue_put ?p ?s2" unfolding admit_def add by simp
  have at: "agent_at ?s2 = (agent_at s)(?p \<mapsto> a)" by (simp add: agent_at_eq)
  then have own: "agent_at ?s2 ?p = Some a" by simp
  show "agent_at (admit a s) = (agent_at s)(?p \<mapsto> move (now_of (sy_world s)) READY a)"
    unfolding eq using queue_put_agents [OF own] at by simp
  show "quota_of (admit a s) = quota_of s"
    using queue_put_spec(2) [OF own] by (simp add: eq level_def quota_of_def)
  show "sy_spawning (admit a s) = []" "\<not> sy_stop (admit a s)"
    "rq_in_flight (sy_queue (admit a s)) = rq_in_flight (sy_queue s)"
    "rq_q (sy_queue (admit a s)) = rq_q (sy_queue s) @ [?p]"
    "pt_keys (sy_table (admit a s)) = pt_keys (sy_table s) @ [?p]"
    using queue_put_spec(3,5,7,8) [OF own] st newborn_live [OF nb]
    by (simp_all add: eq stocked_def queue_put_keys)
  have "pool_step wp runner (ws, s) (ws, ?s1)" using pool_step.kernel [OF ok, of wp runner ws] add by simp
  moreover have "pool_step wp runner (ws, ?s1) (ws, admit a s)"
    using pool_step.kernel [of "KEnqueue ?p" ?s1 wp runner ws] by (simp add: eq)
  ultimately show "pool_runs wp runner (ws, s) (ws, admit a s)"
    unfolding pool_runs_def by (meson converse_rtranclp_into_rtranclp rtranclp.rtrancl_refl)
qed

lemma admit_stocked:
  assumes st: "stocked pays names D s" and nb: "newborn names a" and new: "acb_pid a \<notin> D"
  shows "stocked pays names (insert (acb_pid a) D) (admit a s)"
proof -
  note facts = admit_facts [OF assms]
  have "shot pays (names (acb_pid a)) a" using nb newborn_live [OF nb] by (simp add: newborn_def shot_def)
  then have "shot pays (names (acb_pid a)) (move (now_of (sy_world s)) READY a)"
    by (rule shot_move) (simp add: terminal_def terminal_states_def)
  then have "crew_inv pays names ([], admit a s)"
    using st by (auto simp: crew_inv_def stocked_def facts(1))
  then show ?thesis using st facts(1,3,4,7) by (auto simp: stocked_def)
qed

lemma fold_admit:
  assumes "stocked pays names D s" and "\<forall>a \<in> set as. newborn names a" and "distinct (map acb_pid as)"
    and "D \<inter> acb_pid ` set as = {}"
  shows "stocked pays names (D \<union> acb_pid ` set as) (fold admit as s)
    \<and> pool_runs wp runner (ws, s) (ws, fold admit as s)"
  using assms
proof (induction as arbitrary: s D)
  case (Cons a as)
  have st: "stocked pays names (insert (acb_pid a) D) (admit a s)"
    and r1: "pool_runs wp runner (ws, s) (ws, admit a s)"
    using admit_stocked [OF Cons.prems(1), of a] admit_facts(8) [OF Cons.prems(1), of a] Cons.prems(2,4) by auto
  have "stocked pays names (insert (acb_pid a) D \<union> acb_pid ` set as) (fold admit as (admit a s))
      \<and> pool_runs wp runner (ws, admit a s) (ws, fold admit as (admit a s))"
    using Cons.prems by (intro Cons.IH [OF st]) auto
  with r1 show ?case unfolding pool_runs_def by auto
qed (simp add: pool_runs_def)

text \<open>Once drained, nothing moves any more: neither agents nor the quota.\<close>

definition quiet :: "wpc list \<times> sys \<Rightarrow> bool" where
  "quiet c = (case c of (ws, s) \<Rightarrow> rq_q (sy_queue s) = [] \<and> (\<forall>pc \<in> set ws. pc = Idle \<or> pc = Exited))"

definition same_books :: "sys \<Rightarrow> sys \<Rightarrow> bool" where
  "same_books s s' \<longleftrightarrow> agent_at s' = agent_at s \<and> quota_of s' = quota_of s"

lemma loop_top_quiet:
  assumes "rq_q (sy_queue s) = []" and "loop_top wp notified s = (pc', s')"
  shows "(pc' = Idle \<or> pc' = Exited) \<and> rq_q (sy_queue s') = [] \<and> same_books s s'"
proof -
  have "pick_next (wp_scheduler wp) (sy_table s) (now_of (sy_world s)) (sy_queue s) = (None, sy_queue s)"
    using assms(1) by (rule disp.pick_empty)
  with assms show ?thesis
    by (auto simp: loop_top_def same_books_def agent_at_def quota_of_def tick_def split: if_splits)
qed

lemma crew_quiet:
  assumes "crew_step wp runner c c'" and "quiet c"
  shows "quiet c' \<and> same_books (snd c) (snd c')"
  using assms(1)
proof cases
  case (crew_worker i ws notified env s pc s')
  then have q: "rq_q (sy_queue s) = []" and others: "\<forall>x \<in> set ws. x = Idle \<or> x = Exited"
    using assms(2) by (auto simp: quiet_def)
  then consider "ws ! i = Idle" | "ws ! i = Exited" using crew_worker(3) nth_mem by blast
  then have "(pc = Idle \<or> pc = Exited) \<and> rq_q (sy_queue s') = [] \<and> same_books s s'"
  proof cases
    case 1
    then show ?thesis using crew_worker(4) loop_top_quiet [OF q] by simp
  next
    case 2
    then show ?thesis using crew_worker(4) q by (simp add: same_books_def)
  qed
  with others crew_worker show ?thesis
    using set_update_subset_insert [of ws i pc] by (auto simp: quiet_def)
next
  case (crew_thread ws s)
  with assms(2) show ?thesis by (auto simp: quiet_def same_books_def)
qed

lemma crew_runs_quiet:
  "crew_runs wp runner c c' \<Longrightarrow> quiet c \<Longrightarrow> quiet c' \<and> same_books (snd c) (snd c')"
  unfolding crew_runs_def
proof (induction rule: rtranclp_induct)
  case (step y z)
  then show ?case using crew_quiet [OF step.hyps(2)] by (auto simp: same_books_def)
qed (simp add: same_books_def)

lemma drained_quiet: "pool_inv (ws, s) \<Longrightarrow> rq_is_drained (sy_queue s) \<Longrightarrow> quiet (ws, s)"
  using drained_workers(1) by (auto simp: quiet_def rq_is_drained_def)

text \<open>What every run of the pool keeps.\<close>

definition crew_ok :: "(string \<Rightarrow> bool) \<Rightarrow> (pid \<Rightarrow> string) \<Rightarrow> pid set \<Rightarrow> wpc list \<times> sys \<Rightarrow> bool" where
  "crew_ok pays names D c \<longleftrightarrow> pool_inv c \<and> crew_inv pays names c \<and> dom (agent_at (snd c)) = D
     \<and> sy_spawning (snd c) = [] \<and> \<not> sy_stop (snd c)"

context single_shot
begin

lemma crew_ok_step:
  assumes "crew_step wp runner c c'" and ok: "crew_ok pays names D c"
  shows "crew_ok pays names D c'"
  using assms(1)
proof cases
  case (crew_worker i ws notified env s pc s')
  have "effect (ws ! i) s pc s'"
    using worker_effect [OF crew_worker(4)] worker_pre [of ws s i] ok crew_worker by (auto simp: crew_ok_def)
  then have "dom (agent_at s') = dom (agent_at s)" "sy_spawning s' = sy_spawning s" "sy_stop s' = sy_stop s"
    using advanceD(1) [of s s'] by (auto simp: effect_def dom_def)
  then show ?thesis
    using ok crew_worker crew_inv_step [OF assms(1)] pool_inv_step [OF crew_step_pool [OF assms(1)]]
    by (auto simp: crew_ok_def)
next
  case (crew_thread ws s)
  then show ?thesis
    using ok crew_inv_step [OF assms(1)] pool_inv_step [OF crew_step_pool [OF assms(1)]]
    by (auto simp: crew_ok_def)
qed

lemma crew_ok_runs: "crew_runs wp runner c c' \<Longrightarrow> crew_ok pays names D c \<Longrightarrow> crew_ok pays names D c'"
  unfolding crew_runs_def by (induction rule: rtranclp_induct) (auto intro: crew_ok_step)

lemma drained_calls:
  assumes "crew_ok pays names D (ws, s)" and "rq_is_drained (sy_queue s)"
  shows "calls_at s p = (if p \<in> D \<and> pays (names p) then 1 else 0)"
proof (cases "agent_at s p")
  case (Some a)
  have inv: "pool_inv (ws, s)" using assms(1) by (simp add: crew_ok_def)
  have "claims ws s = {#}"
    using drained_workers(2) [OF inv assms(2)] assms by (simp add: claims_def crew_ok_def rq_is_drained_def)
  moreover have "\<not> sy_stop s" using assms(1) by (simp add: crew_ok_def)
  ultimately have "\<not> live s p" using inv by (auto simp: pool_inv_def)
  then have "is_terminal a" using Some by (simp add: live_def)
  moreover have "shot pays (names p) a" "p \<in> D" using assms(1) Some by (auto simp: crew_ok_def crew_inv_def)
  ultimately show ?thesis using Some by (auto simp: calls_at_def shot_def)
qed (use assms in \<open>auto simp: crew_ok_def calls_at_def\<close>)

text \<open>The books at the end of a measurement.\<close>

lemma measured_books:
  assumes up: "set_up tot w agents = Inr s0" and nb: "\<forall>a \<in> set agents. newborn names a"
    and dist: "distinct (map acb_pid agents)" and run: "measured wp runner s0 s'"
  shows "calls_at s' p = (if p \<in> acb_pid ` set agents \<and> pays (names p) then 1 else 0)"
    and "quota_used s' = (\<Sum>p \<in> acb_pid ` set agents. if pays (names p) then 1 else 0)"
proof -
  let ?D = "acb_pid ` set agents"
  obtain q where q: "quota_init tot = Inr q" and s0: "s0 = fold admit agents (sys_init 0 (w\<lparr>w_quota := q\<rparr>))"
    using up by (auto simp: set_up_def split: sum.splits)
  have st: "stocked pays names ?D s0"
    and start: "pool_runs wp runner ([], sys_init 0 (w\<lparr>w_quota := q\<rparr>)) ([], s0)"
    using fold_admit [OF stocked_init nb dist] by (simp_all add: s0)
  obtain ws s ws1 s1 ws' where r1: "crew_runs wp runner ([], s0) (ws, s)" and dr: "rq_is_drained (sy_queue s)"
    and r2: "crew_runs wp runner (ws, s) (ws1, s1)"
    and r3: "crew_runs wp runner (ws1, kop_do KStop s1) (ws', s')"
    using run by (auto simp: measured_def)
  have "crew_ok pays names ?D ([], s0)"
    using st pool_inv_runs [OF start] by (simp add: crew_ok_def stocked_def)
  then have ok: "crew_ok pays names ?D (ws, s)" using r1 crew_ok_runs by blast
  then have inv: "pool_inv (ws, s)" by (simp add: crew_ok_def)
  have "quiet (ws1, s1)" "same_books s s1"
    using crew_runs_quiet [OF r2 drained_quiet [OF inv dr]] by simp_all
  then have books: "same_books s s'"
    using crew_runs_quiet [OF r3] by (auto simp: quiet_def same_books_def)
  then have calls: "calls_at s' = calls_at s" by (simp add: same_books_def calls_at_def fun_eq_iff)
  show "calls_at s' p = (if p \<in> ?D \<and> pays (names p) then 1 else 0)"
    using drained_calls [OF ok dr] calls by simp
  have "pool_runs wp runner ([], sys_init 0 (w\<lparr>w_quota := q\<rparr>)) (ws, s)"
    using start crew_runs_pool [OF r1] unfolding pool_runs_def by auto
  then have "ledger_inv (ws, s)"
    by (rule ledger_inv_runs) (use q in \<open>auto simp: quota_init_def split: if_splits\<close>)
  then have "quota_used s = all_calls s"
    using drained_workers(3) [OF inv dr] by (simp add: ledger_inv_def quota_used_def quota_snapshot_def)
  also have "\<dots> = (\<Sum>p \<in> ?D. if pays (names p) then 1 else 0)"
    using ok drained_calls [OF ok dr] by (simp add: all_calls_def crew_ok_def)
  finally show "quota_used s' = (\<Sum>p \<in> ?D. if pays (names p) then 1 else 0)"
    using books by (simp add: quota_used_def same_books_def)
qed

end

section \<open>The runners keep the contract\<close>

lemmas metric_runner_defs = once_runner_def quota_runner_def fixed_latency_runner_def count_call_def
  step_frame_def calls_between_def is_terminal_def move_state terminal_def terminal_states_def Let_def

interpretation once: single_shot once_runner "\<lambda>_. True"
  by unfold_locales (auto simp: metric_runner_defs stable_def tick_def)

interpretation latency: single_shot fixed_latency_runner "\<lambda>_. True"
  by unfold_locales (auto simp: metric_runner_defs stable_def tick_def)

interpretation quota_exits: single_shot quota_runner "\<lambda>name. \<not> starts_with ''deny'' name"
  by unfold_locales (auto simp: metric_runner_defs stable_def tick_def)

section \<open>One worker takes turns\<close>

text \<open>
  The abstract schedule: jobs in a queue with the steps they still need; the first runs for at
  most \<open>limit\<close> steps and goes to the back with what is left.
\<close>

function turns :: "nat \<Rightarrow> (pid \<times> nat) list \<Rightarrow> pid list" where
  "turns limit [] = []"
| "turns limit ((p, d) # js) =
     (if d \<le> max 1 limit then replicate d p @ turns limit js
      else replicate (max 1 limit) p @ turns limit (js @ [(p, d - max 1 limit)]))"
  by pat_completeness auto
termination
  by (relation "measure (\<lambda>(l, js). sum_list (map snd js) + length js)") auto

text \<open>The metric ends, with this order of calls.\<close>

definition finds :: "worker_pool \<Rightarrow> step_fun \<Rightarrow> env \<Rightarrow> wpc \<Rightarrow> sys \<Rightarrow> pid list \<Rightarrow> bool" where
  "finds wp runner env pc s order \<longleftrightarrow> (\<exists>fuel. observed_order wp runner env fuel pc s = Some order)"

lemma finds_done: "rq_is_drained (sy_queue s) \<Longrightarrow> finds wp runner env Idle s []"
  unfolding finds_def by (intro exI [of _ 0]) simp

lemma finds_later:
  assumes "worker_step wp runner True env pc s = (pc', s')" and "finds wp runner env pc' s' order"
    and "pc \<noteq> Idle \<or> \<not> rq_is_drained (sy_queue s)"
  shows "finds wp runner env pc s (called_now pc @ order)"
proof -
  obtain fuel where "observed_order wp runner env fuel pc' s' = Some order" using assms(2) by (auto simp: finds_def)
  with assms(1,3) have "observed_order wp runner env (Suc fuel) pc s = Some (called_now pc @ order)" by auto
  then show ?thesis unfolding finds_def by (rule exI)
qed

lemma finds_step:
  assumes "worker_step wp runner True env pc s = (pc', s')" and "finds wp runner env pc' s' order"
    and "pc \<noteq> Idle \<or> \<not> rq_is_drained (sy_queue s)" and "called_now pc = []"
  shows "finds wp runner env pc s order"
  using finds_later [OF assms(1-3)] assms(4) by simp

text \<open>A job in the table: \<open>d\<close> more calls of \<open>k\<close>; the queue of jobs, and one on the worker's desk.\<close>

definition job :: "int \<Rightarrow> sys \<Rightarrow> pid \<Rightarrow> nat \<Rightarrow> bool" where
  "job k s p d \<longleftrightarrow> 0 < d \<and> (\<exists>a. agent_at s p = Some a \<and> \<not> is_terminal a \<and> acb_input_from a = None
     \<and> acb_llm_calls_used a = k - int d)"

definition bench :: "int \<Rightarrow> sys \<Rightarrow> (pid \<times> nat) list \<Rightarrow> int \<Rightarrow> bool" where
  "bench k s js flight \<longleftrightarrow> rq_q (sy_queue s) = map fst js \<and> rq_in_flight (sy_queue s) = flight \<and> \<not> sy_stop s
     \<and> distinct (map fst js) \<and> (\<forall>(p, d) \<in> set js. job k s p d)
     \<and> int (sum_list (map snd js)) \<le> q_remaining (quota_of s)"

definition desk :: "int \<Rightarrow> sys \<Rightarrow> pid \<Rightarrow> nat \<Rightarrow> (pid \<times> nat) list \<Rightarrow> bool" where
  "desk k s p d js \<longleftrightarrow> bench k s js 1 \<and> job k s p d \<and> p \<notin> fst ` set js
     \<and> int (d + sum_list (map snd js)) \<le> q_remaining (quota_of s)"

lemma job_frame: "agent_at s' p = agent_at s p \<Longrightarrow> job k s' p d = job k s p d"
  by (simp add: job_def)

lemma jobs_frame:
  assumes "agent_at s' = (agent_at s)(r \<mapsto> b)" and "r \<notin> fst ` set js" and "\<forall>(p, d) \<in> set js. job k s p d"
  shows "\<forall>(p, d) \<in> set js. job k s' p d"
proof clarify
  fix p d assume pd: "(p, d) \<in> set js"
  then have "p \<noteq> r" using assms(2) by force
  then have "job k s' p d = job k s p d" using assms(1) by (intro job_frame) simp
  with assms(3) pd show "job k s' p d" by blast
qed

lemma steps_runner_books:
  assumes "\<not> is_terminal a"
  shows "\<exists>b w'. steps_runner k env (a, w) = ((b, w'), Inr (\<not> k \<le> acb_llm_calls_used a + 1))
    \<and> w_quota w' = w_quota w \<and> acb_llm_calls_used b = acb_llm_calls_used a + 1
    \<and> acb_input_from b = acb_input_from a \<and> is_terminal b = (k \<le> acb_llm_calls_used a + 1)"
  using assms
  by (auto simp: steps_runner_def count_call_def Let_def tick_def do_move_def is_terminal_def move_state
      terminal_def terminal_states_def)

text \<open>One round of the quantum loop, up to the decision what is next.\<close>

lemma round_finds:
  assumes "desk k s p d js"
    and next_point: "\<And>s'. sy_queue s' = sy_queue s \<Longrightarrow> bench k s' js 1 \<Longrightarrow> d = 1 \<Longrightarrow>
      finds wp (steps_runner k) env (After p False) s' order"
    and again: "\<And>s'. desk k s' p (d - 1) js \<Longrightarrow> 1 < d \<Longrightarrow> finds wp (steps_runner k) env (Loop p m True) s' order"
  shows "finds wp (steps_runner k) env (Loop p (Suc m) keep) s (p # order)"
proof -
  obtain a where d: "0 < d" and at: "agent_at s p = Some a" and live: "\<not> is_terminal a"
    and inp: "acb_input_from a = None" and calls: "acb_llm_calls_used a = k - int d"
    using assms(1) by (auto simp: desk_def job_def)
  have bench: "bench k s js 1" and new: "p \<notin> fst ` set js" and run: "\<not> sy_stop s"
    and quota: "int (d + sum_list (map snd js)) \<le> q_remaining (quota_of s)"
    using assms(1) by (simp_all add: desk_def bench_def)
  let ?q = "(quota_of s)\<lparr>q_remaining := q_remaining (quota_of s) - 1\<rparr>"
  let ?s2 = "enter_busy (on_quota ?q s)"
  have "w_quota (sy_world ?s2) = ?q" by (simp add: enter_busy_def on_quota_def)
  then obtain b w' where r: "steps_runner k env (a, sy_world ?s2) = ((b, w'), Inr (\<not> d = 1))"
    and b: "w_quota w' = ?q" "acb_llm_calls_used b = k - int d + 1" "acb_input_from b = None" "is_terminal b = (d = 1)"
    using steps_runner_books [OF live, of k env "sy_world ?s2"] d inp calls by (auto split: if_splits)
  let ?s3 = "leave_busy (sys_write p (b, w') ?s2)"
  have at2: "agent_at ?s2 p = Some a" using at by simp
  have call: "worker_step wp (steps_runner k) True env (Calling p m) ?s2 = (Called p m True (\<not> d = 1), ?s3)"
    using at2 r b calls by (simp add: call_runner_def)
  have fields: "sy_queue ?s3 = sy_queue s" "sy_stop ?s3 = sy_stop s" "quota_of ?s3 = ?q"
    "agent_at ?s3 = (agent_at s)(p \<mapsto> b)"
    using b(1) by (simp_all add: leave_busy_def enter_busy_def)
  have "\<forall>(r, e) \<in> set js. job k ?s3 r e"
    using jobs_frame [OF fields(4) new] bench by (simp add: bench_def)
  then have bench3: "bench k ?s3 js 1" using bench quota d by (simp add: bench_def fields)
  have settled: "worker_step wp (steps_runner k) True env (Called p m True (\<not> d = 1)) ?s3 =
      (if d = 1 then (After p False, ?s3) else (Loop p m True, ?s3))"
    using b(4) by (simp add: settle_def fields)
  have "finds wp (steps_runner k) env (Called p m True (\<not> d = 1)) ?s3 order"
  proof (cases "d = 1")
    case True
    with finds_step [OF _ next_point [OF fields(1) bench3]] settled show ?thesis by simp
  next
    case False
    have "job k ?s3 p (d - 1)" using False d b by (auto simp: job_def fields)
    then have "desk k ?s3 p (d - 1) js"
      using bench3 new quota d by (auto simp: desk_def fields)
    with finds_step [OF _ again] False d settled show ?thesis by simp
  qed
  then have "finds wp (steps_runner k) env (Calling p m) ?s2 (p # order)" using finds_later [OF call] by simp
  then have "finds wp (steps_runner k) env (Holding p m) (on_quota ?q s) (p # order)"
    by (rule finds_step [of wp _ env "Holding p m" _ "Calling p m" ?s2, rotated]) auto
  moreover have "worker_step wp (steps_runner k) True env (Loop p (Suc m) keep) s = (Holding p m, on_quota ?q s)"
    using run quota d by (simp add: loop_round_def acquire_def)
  ultimately show ?thesis using finds_step by simp
qed

lemma finish_finds:
  assumes "\<not> wp_bus wp" and "bench k s js 1" and "keep \<longrightarrow> job k s p d \<and> p \<notin> fst ` set js
      \<and> int (d + sum_list (map snd js)) \<le> q_remaining (quota_of s)"
    and "\<And>s'. bench k s' (if keep then js @ [(p, d)] else js) 0 \<Longrightarrow> finds wp runner env Idle s' order"
  shows "finds wp runner env (After p keep) s order"
proof -
  let ?s1 = "yield_rest p keep s"
  have fw: "forward_result wp p s = s"
    using assms(1) by (simp add: forward_result_def split: option.splits)
  have y: "bench k ?s1 (if keep then js @ [(p, d)] else js) 1"
  proof (cases keep)
    case True
    then obtain a where a: "agent_at s p = Some a" "\<not> is_terminal a" "acb_input_from a = None"
        "acb_llm_calls_used a = k - int d" "0 < d"
      and new: "p \<notin> fst ` set js" and q: "int (d + sum_list (map snd js)) \<le> q_remaining (quota_of s)"
      using assms(3) by (auto simp: job_def)
    have eq: "?s1 = queue_put p s" using True a by (simp add: yield_rest_def)
    have at: "agent_at (queue_put p s) = (agent_at s)(p \<mapsto> move (now_of (sy_world s)) READY a)"
      by (rule queue_put_agents [OF a(1)])
    have "job k (queue_put p s) p d"
      using a live_move [OF a(2), of READY] by (simp add: job_def at terminal_def terminal_states_def)
    moreover have "\<forall>(r, e) \<in> set js. job k (queue_put p s) r e"
      using jobs_frame [OF at new] assms(2) by (simp add: bench_def)
    moreover have "quota_of (queue_put p s) = quota_of s"
      using queue_put_spec(2) [OF a(1)] by (simp add: level_def)
    ultimately have "bench k (queue_put p s) (js @ [(p, d)]) 1"
      using assms(2) new q a(2) queue_put_spec(3,7,8) [OF a(1)] by (simp add: bench_def)
    then show ?thesis using True eq by simp
  next
    case False
    then show ?thesis using assms(2) by (simp add: yield_rest_def split: option.splits)
  qed
  have "bench k (task_done ?s1) (if keep then js @ [(p, d)] else js) 0"
    using y by (auto simp: bench_def task_done_def rq_task_done_def job_def)
  then have "finds wp runner env Idle (task_done ?s1) order" by (rule assms(4))
  then have "finds wp runner env Finishing ?s1 order" by (rule finds_step [rotated]) simp_all
  then have "finds wp runner env (Yielding p keep) s order" by (rule finds_step [rotated]) simp_all
  then show ?thesis by (rule finds_step [rotated]) (simp_all add: fw)
qed

text \<open>A dispatch: as many steps as the quantum allows, then the rest of the queue.\<close>

lemma loop_finds:
  assumes "\<not> wp_bus wp" and "desk k s p d js" and "0 < m \<or> keep"
    and "\<And>s'. bench k s' (if d \<le> m then js else js @ [(p, d - m)]) 0 \<Longrightarrow> finds wp (steps_runner k) env Idle s' order"
  shows "finds wp (steps_runner k) env (Loop p m keep) s (replicate (min d m) p @ order)"
  using assms(2-)
proof (induction m arbitrary: s d keep)
  case 0
  then have d: "0 < d" "keep" by (auto simp: desk_def job_def)
  have "finds wp (steps_runner k) env (After p True) s order"
    by (rule finish_finds [OF assms(1), of k s js True p d]) (use 0 d in \<open>auto simp: desk_def\<close>)
  then have "finds wp (steps_runner k) env (Loop p 0 keep) s order"
    by (rule finds_step [rotated]) (simp_all add: loop_round_def d)
  then show ?case by simp
next
  case (Suc m)
  have d: "0 < d" using Suc.prems(1) by (auto simp: desk_def job_def)
  have "finds wp (steps_runner k) env (Loop p (Suc m) keep) s (p # (replicate (min (d - 1) m) p @ order))"
  proof (rule round_finds [OF Suc.prems(1)])
    fix s' assume b: "bench k s' js 1" and one: "d = 1"
    have "finds wp (steps_runner k) env (After p False) s' order"
      by (rule finish_finds [OF assms(1) b]) (use Suc.prems(3) one in auto)
    with one show "finds wp (steps_runner k) env (After p False) s' (replicate (min (d - 1) m) p @ order)" by simp
  next
    fix s' assume desk: "desk k s' p (d - 1) js"
    have "(if d - 1 \<le> m then js else js @ [(p, d - 1 - m)]) = (if d \<le> Suc m then js else js @ [(p, d - Suc m)])"
      using d by auto
    then show "finds wp (steps_runner k) env (Loop p m True) s' (replicate (min (d - 1) m) p @ order)"
      using Suc.IH [OF desk] Suc.prems(3) by simp
  qed
  then show ?case using d by (cases d) simp_all
qed

lemma bench_turns:
  assumes "sch = FCFS \<or> (\<exists>q. sch = RoundRobin q)"
  shows "bench k s js 0 \<Longrightarrow>
    finds (metric_pool sch) (steps_runner k) env Idle s (turns (round_limit (metric_pool sch)) js)"
proof (induction "round_limit (metric_pool sch)" js arbitrary: s rule: turns.induct)
  case 1
  then show ?case by (simp add: finds_done bench_def rq_is_drained_def)
next
  case (2 p d js)
  let ?wp = "metric_pool sch" and ?run = "steps_runner k"
  let ?L = "round_limit ?wp"
  let ?js' = "if d \<le> ?L then js else js @ [(p, d - ?L)]"
  let ?s1 = "s\<lparr>sy_queue := \<lparr>rq_q = map fst js, rq_in_flight = 1\<rparr>, sy_world := tick (sy_world s)\<rparr>"
  have L: "max 1 ?L = ?L" "0 < ?L" using round_limit_pos [of ?wp] by simp_all
  have b: "rq_q (sy_queue s) = p # map fst js" "rq_in_flight (sy_queue s) = 0" "\<not> sy_stop s"
    "p \<notin> fst ` set js" "job k s p d"
    "int (d + sum_list (map snd js)) \<le> q_remaining (quota_of s)"
    using 2(3) by (auto simp: bench_def)
  have same: "agent_at ?s1 = agent_at s" "quota_of ?s1 = quota_of s"
    by (simp_all add: agent_at_eq quota_of_def tick_def)
  have "desk k ?s1 p d js"
    using 2(3) b(4-6) by (auto simp: desk_def bench_def same(1) job_def quota_of_def tick_def)
  moreover have "finds ?wp ?run env Idle s' (turns ?L ?js')" if "bench k s' ?js' 0" for s'
    using 2(1) [of s'] 2(2) [of s'] that L(1) by (auto split: if_splits)
  ultimately have "finds ?wp ?run env (Loop p ?L False) ?s1 (replicate (min d ?L) p @ turns ?L ?js')"
    using L(2) by (intro loop_finds) (auto simp: metric_pool_def)
  moreover have "replicate (min d ?L) p @ turns ?L ?js' = turns ?L ((p, d) # js)"
    using L(1) by (cases "d \<le> ?L") simp_all
  ultimately have "finds ?wp ?run env (Loop p ?L False) ?s1 (turns ?L ((p, d) # js))" by (simp only:)
  moreover obtain a where "agent_at s p = Some a" "\<not> is_terminal a" "acb_input_from a = None"
    using b(5) by (auto simp: job_def)
  ultimately have "finds ?wp ?run env (Picked p) ?s1 (turns ?L ((p, d) # js))"
    by (intro finds_step [of _ _ _ "Picked p" ?s1 "Loop p ?L False" ?s1])
      (simp_all add: dispatch_enter_def same needs_input_def del: turns.simps)
  moreover have "loop_top ?wp True s = (Picked p, ?s1)"
    using assms b(1-3) by (auto simp: loop_top_def rq_wait_nonempty_def metric_pool_def rq_popleft_def)
  ultimately show ?case
    using b(1) by (intro finds_step [of _ _ _ Idle s "Picked p" ?s1])
      (simp_all add: rq_is_drained_def del: turns.simps)
qed

text \<open>The queue the metric starts with.\<close>

lemma fold_bench:
  assumes "stocked pays names D s" and "bench (int d) s js 0" and "fst ` set js \<subseteq> D" and "0 < d"
    and "\<forall>a \<in> set as. newborn names a" and "distinct (map acb_pid as)" and "D \<inter> acb_pid ` set as = {}"
    and "int (sum_list (map snd js) + d * length as) \<le> q_remaining (quota_of s)"
  shows "bench (int d) (fold admit as s) (js @ map (\<lambda>a. (acb_pid a, d)) as) 0"
  using assms
proof (induction as arbitrary: s D js)
  case (Cons a as)
  let ?p = "acb_pid a" and ?s = "admit a s"
  have nb: "newborn names a" and new: "?p \<notin> D" using Cons.prems(5,7) by auto
  note facts = admit_facts [OF Cons.prems(1) nb new]
  have "job (int d) ?s ?p d"
    using nb Cons.prems(4) live_move [OF newborn_live [OF nb], of READY]
    by (simp add: job_def facts(1) newborn_def terminal_def terminal_states_def)
  moreover have "\<forall>(r, e) \<in> set js. job (int d) ?s r e"
    using jobs_frame [OF facts(1), of js] Cons.prems(2,3) new by (auto simp: bench_def)
  moreover have "sum_list (map snd js) + d \<le> sum_list (map snd js) + d * length (a # as)" by simp
  then have "int (sum_list (map snd js) + d) \<le> q_remaining (quota_of s)"
    using Cons.prems(8) by (meson of_nat_mono order_trans)
  ultimately have "bench (int d) ?s (js @ [(?p, d)]) 0"
    using Cons.prems(2,3) new facts(2,4-6) by (auto simp: bench_def)
  moreover have "stocked pays names (insert ?p D) ?s" using Cons.prems(1) nb new by (rule admit_stocked)
  ultimately have "bench (int d) (fold admit as ?s) ((js @ [(?p, d)]) @ map (\<lambda>a. (acb_pid a, d)) as) 0"
    using Cons.prems(3-) facts(2) by (intro Cons.IH [of "insert ?p D"]) (auto simp: algebra_simps)
  then show ?case by simp
qed simp

lemma step_agents_facts:
  "\<forall>a \<in> set (step_agents born n). newborn (\<lambda>p. ''a'' @ show_nat (nat p)) a"
  "map acb_pid (step_agents born n) = map int [1..<n + 1]"
  by (auto simp: step_agents_def newborn_synthetic)

lemma step_jobs:
  assumes "set_up tot w (step_agents born n) = Inr s0" and "0 < d" and "int (n * d) \<le> tot"
  shows "bench (int d) s0 (map (\<lambda>i. (int i, d)) [1..<n + 1]) 0"
proof -
  obtain q where q: "quota_init tot = Inr q"
    and s0: "s0 = fold admit (step_agents born n) (sys_init 0 (w\<lparr>w_quota := q\<rparr>))"
    using assms(1) by (auto simp: set_up_def split: sum.splits)
  have "bench (int d) s0 ([] @ map (\<lambda>a. (acb_pid a, d)) (step_agents born n)) 0"
    unfolding s0
  proof (rule fold_bench [OF stocked_init])
    show "bench (int d) (sys_init 0 (w\<lparr>w_quota := q\<rparr>)) [] 0"
      using q by (auto simp: bench_def sys_init_def rq_init_def quota_of_def quota_init_def split: if_splits)
    have "length (step_agents born n) = n" by (simp add: step_agents_def)
    then show "int (sum_list (map snd []) + d * length (step_agents born n))
        \<le> q_remaining (quota_of (sys_init 0 (w\<lparr>w_quota := q\<rparr>)))"
      using q assms(3)
      by (auto simp: sys_init_def quota_of_def quota_init_def algebra_simps split: if_splits)
  qed (use assms(2) step_agents_facts in \<open>auto simp: distinct_map\<close>)
  moreover have "map (\<lambda>a. (acb_pid a, d)) (step_agents born n) = map (\<lambda>p. (p, d)) (map acb_pid (step_agents born n))"
    by simp
  ultimately show ?thesis unfolding step_agents_facts(2) by (simp add: comp_def)
qed

section \<open>Properties\<close>

lemma named_ok: "starts_with ''deny'' ((if b then ''ok'' else ''deny'') @ n) = (\<not> b)"
  by (simp add: starts_with_def)

lemma sum_first:
  "(\<Sum>i \<in> {1..<m + n + 1}. if i \<le> m then 1 else (0::int)) = int m"
proof -
  have "(\<Sum>i \<in> {1..<m + n + 1}. if i \<le> m then 1 else (0::int)) = (\<Sum>i \<in> {i \<in> {1..<m + n + 1}. i \<le> m}. 1)"
    by (rule sum.inter_filter [symmetric]) simp
  also have "{i \<in> {1..<m + n + 1}. i \<le> m} = {1..m}" by auto
  finally show ?thesis by simp
qed

text \<open>A measurement with one worker, for the witnesses.\<close>

lemma drive_crew:
  "drive wp runner env n (pc, s) = (pc', s') \<Longrightarrow> crew_runs wp runner ([pc], s) ([pc'], s')"
proof (induction n arbitrary: pc s)
  case (Suc n)
  obtain pc1 s1 where w: "worker_step wp runner True env pc s = (pc1, s1)" by (metis surj_pair)
  have "crew_step wp runner ([pc], s) ([pc][0 := pc1], s1)"
    by (rule crew_worker [of _ _ _ _ True env]) (simp_all add: w)
  moreover have "crew_runs wp runner ([pc1], s1) ([pc'], s')" using Suc w by simp
  ultimately show ?case unfolding crew_runs_def by (simp add: converse_rtranclp_into_rtranclp)
qed (simp add: crew_runs_def)

lemma drive_measured:
  assumes "drive wp runner env n (Idle, s0) = (pc, s)" and "rq_is_drained (sy_queue s)"
  shows "measured wp runner s0 (kop_do KStop s)"
proof -
  have "crew_step wp runner ([], s0) ([Idle], s0)" using crew_thread [of wp runner "[]" s0] by simp
  then have "crew_runs wp runner ([], s0) ([pc], s)"
    using drive_crew [OF assms(1)] unfolding crew_runs_def by (simp add: converse_rtranclp_into_rtranclp)
  then show ?thesis
    unfolding measured_def
    by (intro exI [of _ "[pc]"] exI [of _ s] exI [of _ "[pc]"] exI [of _ s] exI [of _ "[pc]"])
      (use assms(2) in \<open>simp add: crew_runs_def\<close>)
qed

definition stock_of :: "int \<Rightarrow> agent list \<Rightarrow> sys" where
  "stock_of tot agents = fold admit agents (sys_init 0 (fresh_world tot))"

lemma set_up_stock: "0 \<le> tot \<Longrightarrow> set_up tot (fresh_world 0) agents = Inr (stock_of tot agents)"
  by (simp add: set_up_def stock_of_def quota_init_def fresh_world_def)

definition after_drive :: "step_fun \<Rightarrow> nat \<Rightarrow> sys \<Rightarrow> sys" where
  "after_drive runner n s = snd (drive (metric_pool (RoundRobin 2)) runner (calm (answer ''ok'')) n (Idle, s))"

lemma after_drive_measured:
  "rq_is_drained (sy_queue (after_drive runner n s)) \<Longrightarrow>
     measured (metric_pool (RoundRobin 2)) runner s (kop_do KStop (after_drive runner n s))"
  unfolding after_drive_def by (rule drive_measured [OF prod.collapse [symmetric]])



text \<open>
  C18. No agent is dispatched twice. For any number of agents, any quota total, any scheduler, any
  number of workers and every interleaving, the report of the dispatch metric counts every
  agent once: as many agents run as there are, as many dispatches, and the verdict
  \<open>each_run_exactly_once\<close> is true unless there is no agent at all.
\<close>

theorem dispatch_metric_once:
  assumes "set_up tot w (dispatch_agents born n) = Inr s0"
    and "measured (metric_pool sch) once_runner s0 s'"
  shows "dispatch_report n workers True s' =
    \<lparr>dm_n_agents = n, dm_workers = workers, dm_distinct_agents_run = n, dm_total_dispatches = int n,
     dm_max_runs_per_agent = (if n = 0 then 0 else 1), dm_each_run_exactly_once = (n \<noteq> 0),
     dm_all_completed = True\<rparr>"
proof -
  have ids: "acb_pid ` set (dispatch_agents born n) = int ` {1..<n + 1}"
    by (auto simp: dispatch_agents_def image_comp comp_def)
  have calls: "calls_at s' p = (if p \<in> int ` {1..<n + 1} \<and> True then 1 else 0)" for p
    unfolding ids [symmetric]
  proof (rule once.measured_books(1) [OF assms(1) _ _ assms(2)])
    show "\<forall>a \<in> set (dispatch_agents born n). newborn (\<lambda>p. ''a'' @ show_nat (nat p)) a"
      by (auto simp: dispatch_agents_def newborn_synthetic)
    show "distinct (map acb_pid (dispatch_agents born n))"
      by (simp add: dispatch_agents_def comp_def distinct_map)
  qed
  have "map (\<lambda>i. calls_at s' (int i)) [1..<n + 1] = map (\<lambda>_. 1) [1..<n + 1]"
    by (rule map_cong) (auto simp: calls)
  then have "map (\<lambda>i. calls_at s' (int i)) [1..<n + 1] = replicate n 1"
    by (simp only: map_replicate_const length_upt) simp
  then have "runs_values n s' = replicate n 1" by (simp add: runs_values_def)
  then show ?thesis by (simp add: dispatch_report_def sum_list_replicate set_replicate_conv_if)
qed

theorem dispatch_metric_once_witness:
  "dm_each_run_exactly_once (dispatch_report 2 1 True
     (kop_do KStop (after_drive once_runner 18 (stock_of 3 (dispatch_agents (\<lambda>_. 0) 2)))))"
proof -
  have "rq_is_drained (sy_queue (after_drive once_runner 18 (stock_of 3 (dispatch_agents (\<lambda>_. 0) 2))))"
    by code_simp
  from dispatch_metric_once [OF set_up_stock after_drive_measured [OF this], of 1] show ?thesis by simp
qed

text \<open>
  C20. Preemption is what the quantum says. For any number of agents with any number of steps, a
  quota that covers them and a single worker, the run ends and the order in which the
  runner is called is the abstract schedule \<open>turns\<close>: with FCFS and at most 10,000 steps
  each agent runs to completion in the order of creation, with round robin each runs for a quantum and goes
  to the back of the queue.
\<close>

theorem preemption_order_refines_turns:
  assumes "set_up tot w (step_agents born n) = Inr s0" and "0 < d" and "int (n * d) \<le> tot"
    and "sch = FCFS \<or> (\<exists>q. sch = RoundRobin q)"
  shows "\<exists>fuel. observed_order (metric_pool sch) (steps_runner (int d)) env fuel Idle s0 =
    Some (turns (case sch of RoundRobin q \<Rightarrow> nat (max 1 q) | _ \<Rightarrow> nonpreemptive_step_cap)
      (map (\<lambda>i. (int i, d)) [1..<n + 1]))"
proof -
  have "round_limit (metric_pool sch) =
      (case sch of RoundRobin q \<Rightarrow> nat (max 1 q) | _ \<Rightarrow> nonpreemptive_step_cap)"
    using assms(4) by (auto simp: round_limit_def metric_pool_def)
  with bench_turns [OF assms(4) step_jobs [OF assms(1-3)], of env] show ?thesis by (simp add: finds_def)
qed

text \<open>On the harness's own parameters the two verdicts of the metric are true.\<close>

definition fcfs_order :: "pid list" where
  "fcfs_order = [1, 1, 1, 1, 2, 2, 2, 2, 3, 3, 3, 3]"

definition rr_order_2 :: "pid list" where
  "rr_order_2 = [1, 1, 2, 2, 3, 3, 1, 1, 2, 2, 3, 3]"

lemma default_slices:
  "longest_run fcfs_order = 4" "longest_run rr_order_2 = 2"
  "remdups fcfs_order \<noteq> [] \<and> length (remdups fcfs_order) = 3
     \<and> sum_list (map (\<lambda>p. first_index p fcfs_order) (remdups fcfs_order)) = 12"
  "remdups rr_order_2 \<noteq> [] \<and> length (remdups rr_order_2) = 3
     \<and> sum_list (map (\<lambda>p. first_index p rr_order_2) (remdups rr_order_2)) = 6"
  by code_simp+

lemma default_verdict: "preemption_verdict 2 fcfs_order rr_order_2 = (True, True)"
proof -
  have "mean_time_to_first_slice fcfs_order = round_to 2 4" "mean_time_to_first_slice rr_order_2 = round_to 2 2"
    using default_slices(3,4) by (simp_all add: mean_time_to_first_slice_def Let_def)
  then show ?thesis
    by (simp add: preemption_verdict_def default_slices(1,2) round_to_def round_half_even_def Let_def)
qed

theorem preemption_order_refines_turns_witness:
  "(\<exists>fuel. observed_order (metric_pool FCFS) (steps_runner 4) (calm (answer ''ok'')) fuel Idle
      (stock_of 10000 (step_agents (\<lambda>_. 0) 3)) = Some fcfs_order)
   \<and> (\<exists>fuel. observed_order (metric_pool (RoundRobin 2)) (steps_runner 4) (calm (answer ''ok'')) fuel Idle
      (stock_of 10000 (step_agents (\<lambda>_. 0) 3)) = Some rr_order_2)"
proof
  let ?jobs = "map (\<lambda>i. (int i, 4)) [1..<3 + 1]"
  have four: "steps_runner (int 4) = steps_runner 4" by simp
  have up: "set_up 10000 (fresh_world 0) (step_agents (\<lambda>_. 0) 3) = Inr (stock_of 10000 (step_agents (\<lambda>_. 0) 3))"
    by (rule set_up_stock) simp
  have "turns nonpreemptive_step_cap ?jobs = fcfs_order"
    by (simp add: fcfs_order_def nonpreemptive_step_cap_def upt_rec numeral_eq_Suc)
  then show "\<exists>fuel. observed_order (metric_pool FCFS) (steps_runner 4) (calm (answer ''ok'')) fuel Idle
      (stock_of 10000 (step_agents (\<lambda>_. 0) 3)) = Some fcfs_order"
    using preemption_order_refines_turns [OF up, of 4 FCFS "calm (answer ''ok'')"] four by simp
  have "turns 2 ?jobs = rr_order_2" by code_simp
  then show "\<exists>fuel. observed_order (metric_pool (RoundRobin 2)) (steps_runner 4) (calm (answer ''ok'')) fuel Idle
      (stock_of 10000 (step_agents (\<lambda>_. 0) 3)) = Some rr_order_2"
    using preemption_order_refines_turns [OF up, of 4 "RoundRobin 2" "calm (answer ''ok'')"] four by simp
qed

end
