(* ===== verification/Eval_Memory.thy ===== *)
theory Eval_Memory
  imports Context_Pager
begin

text \<open>
  The context-pager metric of the evaluation harness (\<open>measure_eviction_efficacy\<close> in
  \<open>gcos/eval/__init__.py\<close>): an agent over its token budget is assembled once with the
  LRU policy alone and once with LRU and summaries, with a stand-in for the LLM.
\<close>

section \<open>The metric\<close>

definition fake_summarizer :: client where
  "fake_summarizer n ms mt to =
     Inr \<lparr>cr_content = ''[fake summary of prior turns]'', cr_prompt_tokens = 0,
          cr_completion_tokens = 8, cr_total_tokens = 8, cr_model = ''''\<rparr>"

definition over_budget_pcb :: "time \<Rightarrow> time \<Rightarrow> nat \<Rightarrow> int \<Rightarrow> agent" where
  "over_budget_pcb born pinned_at n_pages tokens_per_page =
     (new_agent 1 ''mem'' ''x'' born)\<lparr>acb_context_pages :=
        new_page ''system'' ''SYSTEM PROMPT'' 20 True False pinned_at
        # map (\<lambda>i. new_page (if i mod 2 = 0 then ''user'' else ''assistant'')
                  (''conversation turn '' @ show_nat i) tokens_per_page False False (real i))
            [0..<n_pages]\<rparr>"

record evict_trial =
  et_tokens_before :: int
  et_tokens_after :: int
  et_pages_before :: nat
  et_pages_after :: nat
  et_fits_budget :: bool
  et_reduction_pct :: real

definition reduction_pct :: "int \<Rightarrow> int \<Rightarrow> real" where
  "reduction_pct before after =
     (if before \<noteq> 0 then round_to 1 (100 * (real_of_int before - real_of_int after) / real_of_int before) else 0)"

definition trial :: "env \<Rightarrow> int \<Rightarrow> eviction_policy list \<Rightarrow> step_state \<Rightarrow> py_exc + evict_trial" where
  "trial env budget policies st =
     (case assemble env \<lparr>cpg_budget = budget, cpg_policies = policies\<rparr> None st of
        (st', Inl e) \<Rightarrow> Inl e
      | (st', Inr messages) \<Rightarrow>
          (let before = context_size (acb_context_pages (fst st));
               after = context_size (acb_context_pages (fst st'))
           in Inr \<lparr>et_tokens_before = before, et_tokens_after = after,
                   et_pages_before = length (acb_context_pages (fst st)),
                   et_pages_after = length (acb_context_pages (fst st')),
                   et_fits_budget = (after \<le> budget), et_reduction_pct = reduction_pct before after\<rparr>))"

definition lru_only :: "eviction_policy list" where
  "lru_only = [LRU 2]"

definition lru_then_summarize :: "eviction_policy list" where
  "lru_then_summarize = [LRU 8, Summarize 4 200 False]"

record evict_metric =
  em_budget_tokens :: int
  em_lru_only :: evict_trial
  em_lru_then_summarize :: evict_trial

text \<open>The two trials share nothing but the clock: \<open>w1\<close> and \<open>w2\<close> are the worlds they find.\<close>

definition measure_eviction_efficacy ::
  "env \<Rightarrow> world \<Rightarrow> world \<Rightarrow> int \<Rightarrow> nat \<Rightarrow> int \<Rightarrow> py_exc + evict_metric" where
  "measure_eviction_efficacy env w1 w2 budget n_pages tokens_per_page =
     (case trial env budget lru_only (over_budget_pcb (now_of w1) (now_of w1) n_pages tokens_per_page, w1) of
        Inl e \<Rightarrow> Inl e
      | Inr r1 \<Rightarrow>
          (case trial env budget lru_then_summarize
                  (over_budget_pcb (now_of w2) (now_of w2) n_pages tokens_per_page, w2) of
             Inl e \<Rightarrow> Inl e
           | Inr r2 \<Rightarrow> Inr \<lparr>em_budget_tokens = budget, em_lru_only = r1, em_lru_then_summarize = r2\<rparr>))"

section \<open>Its figures\<close>

text \<open>What a trial reads off the assembled agent.\<close>

definition sizes :: "step_state \<times> (py_exc + chat_message list) \<Rightarrow> (int \<times> nat) option" where
  "sizes out = (case out of
     (st, Inl e) \<Rightarrow> None
   | (st, Inr ms) \<Rightarrow> Some (context_size (acb_context_pages (fst st)), length (acb_context_pages (fst st))))"

lemma trial_sizes:
  assumes "sizes (assemble env \<lparr>cpg_budget = b, cpg_policies = ps\<rparr> None st) = Some (after, pages)"
    and "context_size (acb_context_pages (fst st)) = before"
  shows "trial env b ps st = Inr \<lparr>et_tokens_before = before, et_tokens_after = after,
     et_pages_before = length (acb_context_pages (fst st)), et_pages_after = pages,
     et_fits_budget = (after \<le> b), et_reduction_pct = reduction_pct before after\<rparr>"
  using assms by (auto simp: sizes_def trial_def Let_def split: prod.splits sum.splits)

lemma lru_sizes:
  "sizes (assemble (calm fake_summarizer) \<lparr>cpg_budget = 200, cpg_policies = lru_only\<rparr> None
     (over_budget_pcb (now_of (fresh_world 0)) (now_of (fresh_world 0)) 20 30, fresh_world 0)) = Some (200, 7)"
  by code_simp

lemma summarize_sizes:
  "sizes (assemble (calm fake_summarizer) \<lparr>cpg_budget = 200, cpg_policies = lru_then_summarize\<rparr> None
     (over_budget_pcb (now_of (fresh_world 0)) (now_of (fresh_world 0)) 20 30, fresh_world 0)) = Some (148, 6)"
  by code_simp

lemma over_budget_size:
  assumes "0 < tokens_per_page"
  shows "context_size (acb_context_pages (over_budget_pcb born seen n tokens_per_page)) = 20 + int n * tokens_per_page"
    and "length (acb_context_pages (over_budget_pcb born seen n tokens_per_page)) = n + 1"
  using assms
  by (simp_all add: over_budget_pcb_def context_size_def page_tokens_def new_page_def comp_def sum_list_triv)

lemma rounded_reductions: "reduction_pct 620 200 = 677 / 10" "reduction_pct 620 148 = 761 / 10"
proof -
  have "\<lfloor>(100 * (620 - 200) / 620 * 10 :: real)\<rfloor> = 677" "\<lfloor>(100 * (620 - 148) / 620 * 10 :: real)\<rfloor> = 761"
    by (simp_all add: floor_eq_iff)
  then show "reduction_pct 620 200 = 677 / 10" "reduction_pct 620 148 = 761 / 10"
    by (simp_all add: reduction_pct_def round_to_def round_half_even_def Let_def)
qed

text \<open>
  The figures of the paging metric on its own parameters (20 pages of 30 tokens over a pinned
  prompt of 20, budget 200): LRU alone brings 620 tokens to exactly the budget, keeping 7
  pages (67.7% less); LRU stopped at 8 pages with one summary of 4 turns brings them to 148
  tokens in 6 pages (76.1% less). Both verdicts \<open>fits_budget\<close> are true.
\<close>

theorem eviction_metric_exact:
  "measure_eviction_efficacy (calm fake_summarizer) (fresh_world 0) (fresh_world 0) 200 20 30 =
     Inr \<lparr>em_budget_tokens = 200,
          em_lru_only = \<lparr>et_tokens_before = 620, et_tokens_after = 200, et_pages_before = 21, et_pages_after = 7,
            et_fits_budget = True, et_reduction_pct = 677 / 10\<rparr>,
          em_lru_then_summarize = \<lparr>et_tokens_before = 620, et_tokens_after = 148, et_pages_before = 21,
            et_pages_after = 6, et_fits_budget = True, et_reduction_pct = 761 / 10\<rparr>\<rparr>"
  unfolding measure_eviction_efficacy_def
  by (simp add: trial_sizes [OF lru_sizes refl] trial_sizes [OF summarize_sizes refl] over_budget_size
      rounded_reductions)

end
