(* ===== verification/Spec2Isabelle.thy ===== *)
theory Spec2Isabelle
  imports Process_Safety Cli Ebpf Eval_Gate Eval_Host Eval_Pool Eval_Memory
begin

text \<open>
  \<^bold>\<open>GCOS, an operating system for language-model agents, verified.\<close>

  GCOS runs LLM agents the way a kernel runs processes. \<open>Kernel.spawn\<close> registers an agent
  (a process control block) and queues it; worker threads take agents off the ready queue in
  the order of a scheduler, charge a global quota, and run one step of the agent, which is one
  LLM request at most; the context of an agent is paged, its results are piped to other agents,
  and code an agent writes is gated and run in a sandbox. The source is under
  \<open>src/gcos\<close>; the theories follow its modules.

  \<^bold>\<open>Parts and theories.\<close>

  \<^item> \<open>Prelude\<close>, \<open>Py_Text\<close>: types shared by all parts, Python exceptions as values,
    association lists, and the text operations of Python the code uses (splitting, stripping,
    case, decimal printing, fixed-point formatting).
  \<^item> \<open>Pcb\<close> (\<open>kernel/pcb.py\<close>): states, the legal-transition graph, capabilities,
    context pages, the control block as the record \<open>agent\<close>, and its methods.
  \<^item> \<open>Pid_Alloc\<close>, \<open>Process_Table\<close>, \<open>Process_Tree\<close>, \<open>Ready_Queue\<close>,
    \<open>Scheduler\<close>, \<open>Quota\<close>, \<open>Ring_Log\<close> (the files of the same names under
    \<open>kernel/\<close>) and \<open>Message_Bus\<close> (\<open>ipc/message_bus.py\<close>): the kernel's data
    structures. Control blocks are objects that the table, the queue and the workers share, so
    the table is a store from PIDs to records together with its registered keys, and the queue
    holds PIDs.
  \<^item> \<open>World\<close> (\<open>backend/solar_client.py\<close>, \<open>memory/tokens.py\<close>): what a
    step sees of its surroundings as a state, with clock readings, the disk, the shared quota,
    the log of requests and of code runs; the LLM service is a parameter.
  \<^item> \<open>Eviction\<close>, \<open>Context_Pager\<close> (\<open>memory/\<close>): the three eviction
    policies, swap files, the pager and its standard stack.
  \<^item> \<open>Regex\<close>, \<open>Policy_Gate\<close>, \<open>Extract\<close>
    (\<open>sandbox/policy_gate.py\<close>, \<open>sandbox/extract.py\<close>): a backtracking matcher for the
    regular expressions the code uses with their meaning as languages, the gates for prompts
    and code, the extraction of fenced code.
  \<^item> \<open>Sandbox\<close> (\<open>sandbox/\<close>), \<open>Cgroup\<close> (\<open>osprims/cgroup.py\<close>,
    \<open>osprims/seccomp.py\<close>): the two runners, the choice between them, CPU weights, the daemon's
    cgroup, the seccomp profile; the operating system and Docker are parameters.
  \<^item> \<open>Executor\<close>, \<open>Coder\<close>, \<open>Agent_Loop\<close>, \<open>Run_Agent\<close>
    (\<open>executor.py\<close>, \<open>coder.py\<close>, \<open>agent_loop.py\<close>): one step of a plain, a
    coder and a tool-using agent as state transformers, and their dispatch.
  \<^item> \<open>Worker_Pool\<close>, \<open>Pool_Safety\<close> (\<open>kernel/worker_pool.py\<close>): a worker as
    a machine over the program points of its loop, each step one atomic access of the shared
    state; all interleavings of any number of workers with the pieces of the kernel's calls.
  \<^item> \<open>Kernel\<close>, \<open>Kernel_Safety\<close> (\<open>kernel/kernel.py\<close>): configuration, start,
    shutdown, spawn, kill, reap, swap-in, status, and all interleavings of calls with workers.
  \<^item> \<open>Process_Pool\<close>, \<open>Json_Text\<close>, \<open>Process_Safety\<close>
    (\<open>kernel/process_pool.py\<close>): the back end that runs every agent in a forked child:
    reservation of quota, the loop of the child, its report as JSON over a pipe written and
    read in pieces, settlement, and all interleavings, in which a child may be killed at any
    step or byte. The printer and the parser of the JSON texts are in \<open>Json_Text\<close>.
  \<^item> \<open>Batcher\<close> (\<open>backend/batcher.py\<close>): the token bucket, the semaphore and the
    statistics, with a call as a machine over its accesses of shared state.
  \<^item> \<open>Shm_Ring\<close> (\<open>osprims/shm.py\<close>): the ring of framed messages in shared memory,
    once with whole calls and once byte by byte with a concurrent producer and consumer.
  \<^item> \<open>Refinement\<close>, \<open>Vmem\<close> (\<open>osprims/vmem.py\<close>): functional refinement of
    call histories as a locale, and the mmap page store as a refinement of a map with a budget.
  \<^item> \<open>Preempt\<close> (\<open>osprims/preempt.py\<close>), \<open>Real_Proc\<close>
    (\<open>osprims/realproc.py\<close>): the preemptor, round robin with a quantum, the scheduler over
    forked children, the measurement of CPU shares. The host is the record \<open>posix\<close> of
    functions (kill, fork, waitpid, sleep, clock) on a state of any type, with the laws POSIX documents as
    hypotheses; \<open>box_host\<close> is a concrete host that satisfies them.
  \<^item> \<open>Os_Caps\<close> (\<open>osprims/__init__.py\<close>): the probes of the host and what is
    reported of them.
  \<^item> \<open>Api\<close> (\<open>api/\<close>), \<open>Shell\<close> (\<open>shell/repl.py\<close>), \<open>Cli\<close>
    (\<open>main.py\<close>): the three ways to reach the kernel. A request or a typed line is a function
    on kernels with the answer or the output as a value; \<open>None\<close> means that it does not
    return.
  \<^item> \<open>Ebpf\<close> (\<open>osprims/ebpf\<close>): the BPF program of the scheduling observer on bounded
    hash maps of 64-bit words, its loader with the reasons it gives and the mounts it tries,
    the snapshot, and the probe for sched_ext; bcc, the file system and the kernel are parameters.
  \<^item> \<open>Eval_Gate\<close>, \<open>Eval_Pool\<close>, \<open>Eval_Memory\<close>, \<open>Eval_Host\<close>
    (\<open>eval/\<close>): the metrics of the evaluation harness as programs over the parts above. The
    detection metric with its corpus; the metrics that drive the worker pool with step runners
    of their own; the paging metric; the metrics on host primitives.

  \<^bold>\<open>What is shown.\<close> For each data structure, its contract for every history of calls:
  mailboxes are bounded queues that lose nothing they accept, the in-flight counter is exact,
  outstanding and remaining quota add up, the ring keeps the latest records, terminal states are
  absorbing, the traversals of the process tree return on forests and visit every descendant
  once. For the memory subsystem: pinned pages survive, swapping is lossless, summaries are
  charged exactly. For the gates: the matchers decide their declarative languages. For a step:
  at most one request, charged exactly, only gated code runs, killed agents keep their result.
  For the pool, over all interleavings: exclusive ownership of agents, no lost agent, an exact
  ledger of the quota, an end to every dispatch. For the kernel: every run is a run of the pool,
  an idle kernel has settled, kill takes exactly the subtree, spawn and reap do what they say.
  For the process back end: taken units are reservations plus settled units and bound the
  requests of the children, a report arrives exactly or not at all. For the host primitives:
  the batcher's caps on concurrency and rate, the ring as a bounded queue when used in turns
  and without torn frames when used concurrently, the page store as a map, preemption that
  agrees with the task the kernel has, fair slices, and an end to every run over real
  processes, switches and on-CPU time measured exactly by the observer. For the interfaces: every request and every line is answered and leaves a
  reachable kernel. For the metrics: what they report is what the parts guarantee, for any
  parameters and every interleaving where the metric drives the pool (every agent dispatched
  once, the quota conserved, the order of calls that of the abstract schedule \<open>turns\<close>), and
  as figures on the harness's own corpus and parameters where it measures a fixed input. Where the code does not do what it means to, that is a theorem too: a
  spawn under its own PID hangs kill, a restarted kernel runs nothing, the ring's positions can be
  lost, a result can be piped twice.

  Interfaces between parts are locales: the registry of agents (\<open>registry\<close>), mailboxes
  (\<open>mail\<close>), the budget of calls (\<open>call_budget\<close>), the choice of a scheduler
  (\<open>dispatcher\<close>), an eviction policy (\<open>evictor\<close>), one step of an agent
  (\<open>step_runner\<close>), the runner the pool relies on (\<open>pool_runner\<close>, with the agents whose steps leave
  the global quota alone), a runner that ends its agent in one step (\<open>single_shot\<close>, which extends it), a pipe of messages
  (\<open>message_pipe\<close>) and functional refinement of histories (\<open>refines_spec\<close>), each
  interpreted on the code's own definitions.

  \<^bold>\<open>Bounds and fuel.\<close> The numbers are the code's: sixteen rounds in
  \<open>assemble\<close>, thirty-two steps in \<open>run_agent\<close>, ten thousand rounds of a
  non-preemptive dispatch, sixty-four steps in a child. The loops over real processes run until
  a deadline or until all children are done, neither of which the code bounds by a count: they take fuel, and
  enough fuel is shown to exist from the time limit and the quantum. Ledgers of requests and of settled units
  that the code does not keep are fields of the model that no operation reads. The walks of the process tree have no bound in the code and are
  \<open>partial_function\<close>s whose results are proved to exist on forests; reachable kernels are
  forests. Waits with a time-out are lists of the states a waiter observes, or, in the pool, a
  nondeterministic choice. Python integers are \<open>int\<close>; times are reals.

  \<^bold>\<open>Not modelled.\<close> In the evaluation harness (\<open>eval/\<close>) the wall-clock
  speed-up and its statistics, the priority order metric, whose order depends on how fast the
  host is through aging, the live and multi-step drives of the whole system and the printing of the report; the scripts under
  \<open>scripts/ci\<close>, which check a host; the sched_ext scheduler, which is C code for the
  kernel; the web framework, argparse, the set-up of
  logging, the colours and layout of the console; the arithmetic the forked benchmark
  children do. The request itself is atomic in the model of the pool; that an agent may be
  killed while it is in flight is part of the environment of a step.
\<close>

end
